(* ===== verification/Prelude.thy ===== *)
theory Prelude
  imports Main "HOL-Library.Word" "HOL-Library.Multiset" "HOL-Library.Signed_Division"
    "HOL-Library.Monad_Syntax"
begin

unbundle bit_operations_syntax

text \<open>
  Shared material of the development: the names of the machine types, the
  C library functions the components use, the generic facts on lists and
  multisets, and the interfaces (locales) that several components implement:

  \<^item> \<open>stable_insert\<close>: insertion into a list kept in key order, behind equal keys.
    The adaptive jitter buffer's \<open>queue_put\<close>, the fixed jitter buffer's
    \<open>fixed_jb_put\<close> and the scheduler's \<open>schedule\<close> all implement it.
  \<^item> \<open>strict_rank\<close>: a strict total order; the "best \<open>k\<close> so far" buffers of the
    adaptive jitter buffer are used with both \<open><\<close> and \<open>>\<close>.
  \<^item> \<open>run_invariant\<close>: an invariant kept by every operation of a component, hence
    by every sequence of operations.
\<close>

section \<open>Machine types\<close>

type_synonym byte = "8 word"
type_synonym c_uint = "32 word"

text \<open>
  \<open>abs\<close> of the C library takes and returns a 32-bit \<open>int\<close>: a \<open>long\<close> argument is
  converted first, and the result is again a 32-bit value.
\<close>

definition c_abs :: "int \<Rightarrow> int" where
  "c_abs x = signed_take_bit 31 \<bar>signed_take_bit 31 x\<bar>"

lemma signed_take_bit_31_id:
  "- (2 ^ 31) \<le> (x::int) \<Longrightarrow> x < 2 ^ 31 \<Longrightarrow> signed_take_bit 31 x = x"
  by (simp add: signed_take_bit_int_eq_self)

lemma c_abs_small: "\<bar>x\<bar> < 2 ^ 31 \<Longrightarrow> c_abs x = \<bar>x\<bar>"
  by (simp add: c_abs_def signed_take_bit_31_id)

lemma sdiv_nonneg: "0 \<le> a \<Longrightarrow> 0 < b \<Longrightarrow> (a::int) sdiv b = a div b"
  by (auto simp: signed_divide_int_def sgn_if)

text \<open>C's \<open>&\<close> with a mask of four bits, on possibly negative values.\<close>

lemma int_and_15: "(x::int) AND 15 = x mod 16"
  using take_bit_eq_mask [of 4 x] by (simp add: take_bit_eq_mod mask_eq_exp_minus_1)

lemma int_and_15_range [simp]: "0 \<le> (x::int) AND 15" "(x::int) AND 15 < 16" "(x::int) AND 15 \<le> 15"
  by (simp_all add: int_and_15)

text \<open>The value of a 16-bit \<open>short\<close> to which \<open>v\<close> is assigned.\<close>

definition to_short :: "int \<Rightarrow> int" where
  "to_short v = signed_take_bit 15 v"

lemma to_short_range: "- 32768 \<le> to_short v \<and> to_short v \<le> 32767"
  using signed_take_bit_int_greater_eq_minus_exp [of 15 v] signed_take_bit_int_less_exp [of 15 v] by (simp add: to_short_def)

lemma to_short_id: "- 32768 \<le> v \<Longrightarrow> v \<le> 32767 \<Longrightarrow> to_short v = v"
  unfolding to_short_def by (rule signed_take_bit_int_eq_self) simp_all

text \<open>The octet at a place of an array that is read, \<open>None\<close> outside the array.\<close>

definition byte_at :: "byte list \<Rightarrow> nat \<Rightarrow> byte option" where
  "byte_at buf i = (if i < length buf then Some (buf ! i) else None)"

section \<open>Lists\<close>

lemma sorted_wrt_remove1: "sorted_wrt P xs \<Longrightarrow> sorted_wrt P (remove1 x xs)"
  by (induction xs) (auto dest: set_remove1_subset [THEN subsetD])

lemma all_list_update: "\<forall>x\<in>set xs. P x \<Longrightarrow> P v \<Longrightarrow> \<forall>x\<in>set (xs[i := v]). P x"
  using set_update_subset_insert [of xs i v] by blast

lemma last_conv_nth_replicate: "n > 0 \<Longrightarrow> last (replicate n x) = x"
  by simp

lemma map_nth_upt_take: "n \<le> length xs \<Longrightarrow> map ((!) xs) [0..<n] = take n xs"
  by (rule nth_equalityI) simp_all

section \<open>Insertion into an ordered queue\<close>

locale stable_insert =
  fixes key :: "'a \<Rightarrow> 'k::linorder"
    and ins :: "'a \<Rightarrow> 'a list \<Rightarrow> 'a list"
  assumes ins_split: "sorted (map key xs) \<Longrightarrow>
      \<exists>ys zs. xs = ys @ zs \<and> ins x xs = ys @ x # zs \<and>
        (\<forall>y\<in>set ys. key y \<le> key x) \<and> (\<forall>z\<in>set zs. key x < key z)"
begin

lemma ins_mset: "sorted (map key xs) \<Longrightarrow> mset (ins x xs) = add_mset x (mset xs)"
  using ins_split [of xs x] by auto

lemma ins_set: "sorted (map key xs) \<Longrightarrow> set (ins x xs) = insert x (set xs)"
  using ins_split [of xs x] by auto

lemma ins_length: "sorted (map key xs) \<Longrightarrow> length (ins x xs) = Suc (length xs)"
  using ins_split [of xs x] by auto

lemma ins_sorted: "sorted (map key xs) \<Longrightarrow> sorted (map key (ins x xs))"
  using ins_split [of xs x] by (fastforce simp: sorted_append)

lemma ins_canonical:
  assumes "sorted (map key xs)"
  shows "ins x xs =
    takeWhile (\<lambda>y. key y \<le> key x) xs @ x # dropWhile (\<lambda>y. key y \<le> key x) xs"
proof -
  obtain ys zs where *: "xs = ys @ zs" "ins x xs = ys @ x # zs"
    "\<forall>y\<in>set ys. key y \<le> key x" "\<forall>z\<in>set zs. key x < key z"
    using ins_split [OF assms] by blast
  have "takeWhile (\<lambda>y. key y \<le> key x) zs = []" "dropWhile (\<lambda>y. key y \<le> key x) zs = zs"
    using *(4) by (cases zs; auto)+
  with * show ?thesis
    by (simp add: takeWhile_append2 dropWhile_append2)
qed

text \<open>Elements with the same key leave in the order they were inserted.\<close>

lemma ins_fifo:
  assumes "sorted (map key xs)"
  shows "filter (\<lambda>y. key y = k) (ins x xs) =
    filter (\<lambda>y. key y = k) xs @ (if key x = k then [x] else [])"
proof -
  obtain ys zs where *: "xs = ys @ zs" "ins x xs = ys @ x # zs"
    "\<forall>z\<in>set zs. key x < key z"
    using ins_split [OF assms] by blast
  show ?thesis
  proof (cases "key x = k")
    case True
    with *(3) have "filter (\<lambda>y. key y = k) zs = []"
      by (auto simp: filter_empty_conv)
    with * True show ?thesis by simp
  qed (use * in simp)
qed

lemma ins_hd:
  assumes "sorted (map key xs)"
  shows "hd (ins x xs) = (if xs = [] \<or> key x < key (hd xs) then x else hd xs)"
  using assms by (cases xs) (auto simp: ins_canonical not_less)

end

section \<open>Buffers of the best-ranked elements\<close>

text \<open>
  \<open>ranked_top before buf M\<close>: \<open>buf\<close> holds the \<open>length buf\<close> best-ranked elements of
  the multiset \<open>M\<close>, best first.
\<close>

definition ranked_top :: "('a \<Rightarrow> 'a \<Rightarrow> bool) \<Rightarrow> 'a list \<Rightarrow> 'a multiset \<Rightarrow> bool" where
  "ranked_top before buf M \<longleftrightarrow>
     (\<exists>rest. mset (buf @ rest) = M \<and> sorted_wrt (\<lambda>a b. \<not> before b a) (buf @ rest))"

text \<open>Insertion into a full buffer: the worst-ranked element falls out at the end.\<close>

fun rank_ins :: "('a \<Rightarrow> 'a \<Rightarrow> bool) \<Rightarrow> 'a \<Rightarrow> 'a list \<Rightarrow> 'a list" where
  "rank_ins before x [] = []"
| "rank_ins before x (y # ys) =
     (if before x y then x # butlast (y # ys) else y # rank_ins before x ys)"

fun rank_ins_full :: "('a \<Rightarrow> 'a \<Rightarrow> bool) \<Rightarrow> 'a \<Rightarrow> 'a list \<Rightarrow> 'a list" where
  "rank_ins_full before x [] = [x]"
| "rank_ins_full before x (y # ys) =
     (if before x y then x # y # ys else y # rank_ins_full before x ys)"

lemma length_rank_ins [simp]: "length (rank_ins before x buf) = length buf"
  by (induction buf) auto

lemma mset_rank_ins_full: "mset (rank_ins_full before x xs) = add_mset x (mset xs)"
  by (induction xs) auto

lemma set_rank_ins_full: "set (rank_ins_full before x xs) = insert x (set xs)"
  by (induction xs) auto

lemma rank_ins_take:
  "take (length buf) (rank_ins_full before x (buf @ rest)) = rank_ins before x buf"
proof (induction buf)
  case (Cons y buf)
  have "take (length buf) (y # buf) = butlast (y # buf)"
    by (simp add: butlast_conv_take)
  with Cons show ?case by (auto simp: take_Cons')
qed simp

lemma rank_ins_unchanged: "\<forall>y\<in>set buf. \<not> before x y \<Longrightarrow> rank_ins before x buf = buf"
  by (induction buf) auto

locale strict_rank =
  fixes before :: "'a \<Rightarrow> 'a \<Rightarrow> bool"
  assumes rank_irrefl: "\<not> before x x"
    and rank_trans: "before x y \<Longrightarrow> before y z \<Longrightarrow> before x z"
    and rank_total: "x \<noteq> y \<Longrightarrow> before x y \<or> before y x"
begin

lemma rank_le_trans: "\<not> before y x \<Longrightarrow> \<not> before z y \<Longrightarrow> \<not> before z x"
  using rank_trans rank_total by metis

lemma rank_asym: "before x y \<Longrightarrow> \<not> before y x"
  using rank_trans rank_irrefl by blast

lemma rank_ins_full_sorted:
  "sorted_wrt (\<lambda>a b. \<not> before b a) xs \<Longrightarrow>
   sorted_wrt (\<lambda>a b. \<not> before b a) (rank_ins_full before x xs)"
  by (induction xs) (auto simp: set_rank_ins_full dest: rank_asym rank_trans)

lemma ranked_top_insert:
  assumes "ranked_top before buf M"
  shows "ranked_top before (rank_ins before x buf) (add_mset x M)"
proof -
  from assms obtain rest where
    rest: "mset (buf @ rest) = M" "sorted_wrt (\<lambda>a b. \<not> before b a) (buf @ rest)"
    unfolding ranked_top_def by blast
  let ?L = "rank_ins_full before x (buf @ rest)"
  have L: "rank_ins before x buf @ drop (length buf) ?L = ?L"
    by (simp add: rank_ins_take [of buf before x rest, symmetric])
  have "mset ?L = add_mset x M"
    using rest(1) by (simp add: mset_rank_ins_full)
  moreover have "sorted_wrt (\<lambda>a b. \<not> before b a) ?L"
    by (rule rank_ins_full_sorted [OF rest(2)])
  ultimately show ?thesis
    unfolding ranked_top_def by (intro exI [of _ "drop (length buf) ?L"]) (simp only: L)
qed

lemma ranked_top_add:
  "ranked_top before buf M \<Longrightarrow> \<forall>y\<in>set buf. \<not> before x y \<Longrightarrow>
   ranked_top before buf (add_mset x M)"
  using ranked_top_insert [of buf M x] by (simp add: rank_ins_unchanged)

lemma ranked_top_remove:
  assumes top: "ranked_top before buf M" and "z \<in># M" and worse: "\<forall>y\<in>set buf. before y z"
  shows "ranked_top before buf (M - {#z#})"
proof -
  from top obtain rest where
    rest: "mset (buf @ rest) = M" "sorted_wrt (\<lambda>a b. \<not> before b a) (buf @ rest)"
    unfolding ranked_top_def by blast
  have "z \<notin> set buf" using worse rank_irrefl by blast
  with \<open>z \<in># M\<close> rest(1) have "z \<in> set rest" by auto
  have "buf @ remove1 z rest = remove1 z (buf @ rest)"
    using \<open>z \<notin> set buf\<close> by (simp add: remove1_append)
  with rest show ?thesis
    unfolding ranked_top_def
    by (intro exI [of _ "remove1 z rest"]) (simp add: sorted_wrt_remove1 flip: rest(1))
qed

lemma ranked_top_last:
  "ranked_top before buf M \<Longrightarrow> buf \<noteq> [] \<Longrightarrow> y \<in> set buf \<Longrightarrow> \<not> before (last buf) y"
  by (cases buf rule: rev_cases) (auto simp: ranked_top_def sorted_wrt_append rank_irrefl)

lemma ranked_top_replicate: "ranked_top before (replicate k s) (replicate_mset k s)"
  unfolding ranked_top_def
  by (rule exI [of _ "[]"]) (simp add: sorted_wrt_iff_nth_less rank_irrefl)

end

interpretation rank_lt: strict_rank "(<) :: 'a::linorder \<Rightarrow> 'a \<Rightarrow> bool"
  by unfold_locales auto

interpretation rank_gt: strict_rank "(>) :: 'a::linorder \<Rightarrow> 'a \<Rightarrow> bool"
  by unfold_locales auto

lemma ranked_top_lt_sort:
  assumes "ranked_top (<) buf (mset xs)"
  shows "buf = take (length buf) (sort (xs :: 'a::linorder list))"
proof -
  from assms obtain rest where
    *: "mset (buf @ rest) = mset xs" "sorted_wrt (\<lambda>a b. \<not> b < a) (buf @ rest)"
    unfolding ranked_top_def by blast
  from *(2) have "sorted (buf @ rest)"
    by (simp only: not_less)
  then have "sort xs = buf @ rest"
    by (rule properties_for_sort [OF *(1)])
  then show ?thesis by simp
qed

lemma ranked_top_gt_sort:
  assumes "ranked_top (>) buf (mset xs)"
  shows "buf = take (length buf) (rev (sort (xs :: 'a::linorder list)))"
proof -
  from assms obtain rest where
    *: "mset (buf @ rest) = mset xs" "sorted_wrt (\<lambda>a b. \<not> b > a) (buf @ rest)"
    unfolding ranked_top_def by blast
  from *(2) have "sorted (rev (buf @ rest))"
    by (simp only: not_less sorted_wrt_rev)
  moreover from *(1) have "mset (rev (buf @ rest)) = mset xs"
    by (simp only: mset_rev)
  ultimately have "sort xs = rev (buf @ rest)"
    by (intro properties_for_sort)
  then show ?thesis by simp
qed

section \<open>Invariants of runs\<close>

locale run_invariant =
  fixes step :: "'s \<Rightarrow> 'e \<Rightarrow> 's"
    and inv :: "'s \<Rightarrow> bool"
  assumes step_keeps: "inv s \<Longrightarrow> inv (step s e)"
begin

lemma run_keeps: "inv s \<Longrightarrow> inv (foldl step s es)"
  by (induction es arbitrary: s) (auto intro: step_keeps)

end

end
