(* ===== verification/Jitterbuf.thy ===== *)
theory Jitterbuf
  imports Prelude
begin

text \<open>
  The adaptive jitter buffer, \<open>main/jitterbuf.c\<close> and \<open>include/jitterbuf.h\<close>.

  \<^item> \<open>jb_conf\<close>, \<open>jb_info\<close>, \<open>jb_frame\<close> and \<open>jitterbuf\<close> are the structs of the header.
    The circular list of queued frames is the list of its frames from the lowest
    to the highest time stamp (\<open>jb->frames\<close> is the head, \<open>jb->frames->prev\<close> the last
    element); the single-linked list of unused frames is \<open>jb_free\<close>.
  \<^item> A \<open>long\<close> is an unbounded integer: signed overflow has no defined meaning in C,
    so a run in which a time stamp leaves the range of \<open>long\<close> is outside the model.
    The conversion of a \<open>long\<close> to the \<open>int\<close> argument of \<open>abs\<close> is kept (\<open>c_abs\<close>).
  \<^item> Division is C's, truncating towards zero (\<open>sdiv\<close>).
  \<^item> The success of \<open>ast_malloc\<close> is an argument. The out-parameter \<open>frameout\<close> is passed
    in and returned. The log functions of \<open>jb_setoutput\<close> have no effect on the state
    and are left out.
\<close>

section \<open>Constants and data\<close>

definition JB_LONGMAX :: int where "JB_LONGMAX = 2147483647"
definition JB_LONGMIN :: int where "JB_LONGMIN = - JB_LONGMAX - 1"
definition JB_HISTORY_SZ :: nat where "JB_HISTORY_SZ = 500"
definition JB_HISTORY_DROPPCT :: nat where "JB_HISTORY_DROPPCT = 3"
definition JB_HISTORY_DROPPCT_MAX :: nat where "JB_HISTORY_DROPPCT_MAX = 4"
definition JB_HISTORY_MAXBUF_SZ :: nat where
  "JB_HISTORY_MAXBUF_SZ = JB_HISTORY_SZ * JB_HISTORY_DROPPCT_MAX div 100"
definition JB_TARGET_EXTRA :: int where "JB_TARGET_EXTRA = 40"
definition JB_ADJUST_DELAY :: int where "JB_ADJUST_DELAY = 40"

lemmas jb_consts = JB_LONGMAX_def JB_LONGMIN_def JB_HISTORY_SZ_def JB_HISTORY_DROPPCT_def
  JB_HISTORY_DROPPCT_MAX_def JB_HISTORY_MAXBUF_SZ_def JB_TARGET_EXTRA_def JB_ADJUST_DELAY_def

lemma JB_HISTORY_MAXBUF_SZ_20 [simp]: "JB_HISTORY_MAXBUF_SZ = 20"
  by (simp add: jb_consts)

datatype jb_return_code = JB_OK | JB_EMPTY | JB_NOFRAME | JB_INTERP | JB_DROP | JB_SCHED

datatype jb_frame_type =
  JB_TYPE_CONTROL | JB_TYPE_VOICE | JB_TYPE_VIDEO | JB_TYPE_SILENCE

record jb_conf =
  max_jitterbuf :: int
  resync_threshold :: int
  max_contig_interp :: int

record jb_info =
  jbi_conf :: jb_conf
  frames_in :: int
  frames_out :: int
  frames_late :: int
  frames_lost :: int
  frames_dropped :: int
  frames_ooo :: int
  frames_cur :: int
  jb_jitter :: int
  jb_min :: int
  jb_current :: int
  jb_target :: int
  losspct :: int
  next_voice_ts :: int
  last_voice_ms :: int
  silence_begin_ts :: int
  last_adjustment :: int
  last_delay :: int
  cnt_delay_discont :: int
  resync_offset :: int
  cnt_contig_interp :: int

record 'd jb_frame =
  fr_data :: 'd
  fr_ts :: int
  fr_ms :: int
  fr_type :: jb_frame_type

record 'd jitterbuf =
  jb_inf :: jb_info
  history :: "int list"
  hist_ptr :: nat
  hist_maxbuf :: "int list"
  hist_minbuf :: "int list"
  hist_maxbuf_valid :: bool
  dropem :: bool
  jb_frames :: "'d jb_frame list"
  jb_free :: "'d jb_frame list"

section \<open>Life cycle and loss statistics\<close>

definition increment_losspct :: "'d jitterbuf \<Rightarrow> 'd jitterbuf" where
  "increment_losspct = jb_inf_update (losspct_update (\<lambda>l. (100000 + 499 * l) sdiv 500))"

definition decrement_losspct :: "'d jitterbuf \<Rightarrow> 'd jitterbuf" where
  "decrement_losspct = jb_inf_update (losspct_update (\<lambda>l. (499 * l) sdiv 500))"

definition jb_reset :: "'d jitterbuf \<Rightarrow> 'd jitterbuf" where
  "jb_reset jb =
     \<lparr> jb_inf = \<lparr> jbi_conf = jbi_conf (jb_inf jb),
         frames_in = 0, frames_out = 0, frames_late = 0, frames_lost = 0,
         frames_dropped = 0, frames_ooo = 0, frames_cur = 0,
         jb_jitter = 0, jb_min = 0,
         jb_current = JB_TARGET_EXTRA, jb_target = JB_TARGET_EXTRA,
         losspct = 0, next_voice_ts = 0, last_voice_ms = 0, silence_begin_ts = -1,
         last_adjustment = 0, last_delay = 0, cnt_delay_discont = 0,
         resync_offset = 0, cnt_contig_interp = 0 \<rparr>,
       history = replicate JB_HISTORY_SZ 0, hist_ptr = 0,
       hist_maxbuf = replicate JB_HISTORY_MAXBUF_SZ 0,
       hist_minbuf = replicate JB_HISTORY_MAXBUF_SZ 0,
       hist_maxbuf_valid = False, dropem = False, jb_frames = [], jb_free = [] \<rparr>"

text \<open>\<open>jb_new\<close> resets the uninitialised block that \<open>ast_malloc\<close> returned.\<close>

definition jb_new :: "'d jitterbuf option \<Rightarrow> 'd jitterbuf option" where
  "jb_new malloced = (case malloced of None \<Rightarrow> None | Some jb \<Rightarrow> Some (jb_reset jb))"

text \<open>\<open>jb_destroy\<close> releases the frames of the free list; the result lists them.\<close>

definition jb_destroy :: "'d jitterbuf \<Rightarrow> 'd jb_frame list" where
  "jb_destroy jb = jb_free jb"

definition jb_setconf :: "'d jitterbuf \<Rightarrow> jb_conf \<Rightarrow> 'd jitterbuf \<times> jb_return_code" where
  "jb_setconf jb c =
     (jb_inf_update (jbi_conf_update (\<lambda>s.
        s\<lparr> max_jitterbuf := max_jitterbuf c,
           resync_threshold := resync_threshold c,
           max_contig_interp := max_contig_interp c \<rparr>)) jb, JB_OK)"

section \<open>Delay history\<close>

text \<open>
  The first half of \<open>history_put\<close>: the check for a drastic change of delay. The
  delay to record is \<open>None\<close> when the function returns \<open>-1\<close> at this point.
\<close>

definition history_put_check ::
    "'d jitterbuf \<Rightarrow> int \<Rightarrow> int \<Rightarrow> int \<Rightarrow> int \<Rightarrow> 'd jitterbuf \<times> int option" where
  "history_put_check jb ts now delay threshold =
     (if resync_threshold (jbi_conf (jb_inf jb)) \<noteq> -1 then
        if c_abs (delay - last_delay (jb_inf jb)) > threshold then
          let jb = jb_inf_update (cnt_delay_discont_update (\<lambda>c. c + 1)) jb in
          if cnt_delay_discont (jb_inf jb) > 3 then
            (jb\<lparr> jb_inf := (jb_inf jb)\<lparr> cnt_delay_discont := 0,
                                       resync_offset := ts - now, last_delay := 0 \<rparr>,
                 hist_ptr := 0, hist_maxbuf_valid := False \<rparr>, Some 0)
          else (jb, None)
        else
          (jb\<lparr> jb_inf := (jb_inf jb)\<lparr> last_delay := delay, cnt_delay_discont := 0 \<rparr> \<rparr>,
           Some delay)
      else (jb, Some delay))"

text \<open>The second half: the delay enters the ring, and the cached extremes may become stale.\<close>

definition history_put_store :: "'d jitterbuf \<Rightarrow> int \<Rightarrow> 'd jitterbuf" where
  "history_put_store jb delay =
     (let kicked = history jb ! (hist_ptr jb mod JB_HISTORY_SZ);
          jb = jb\<lparr> history := (history jb)[hist_ptr jb mod JB_HISTORY_SZ := delay],
                   hist_ptr := hist_ptr jb + 1 \<rparr>
      in if \<not> hist_maxbuf_valid jb then jb
         else if hist_ptr jb < JB_HISTORY_SZ
           \<or> delay < hist_minbuf jb ! (JB_HISTORY_MAXBUF_SZ - 1)
           \<or> delay > hist_maxbuf jb ! (JB_HISTORY_MAXBUF_SZ - 1)
           \<or> kicked \<le> hist_minbuf jb ! (JB_HISTORY_MAXBUF_SZ - 1)
           \<or> kicked \<ge> hist_maxbuf jb ! (JB_HISTORY_MAXBUF_SZ - 1)
         then jb\<lparr> hist_maxbuf_valid := False \<rparr>
         else jb)"

definition history_put :: "'d jitterbuf \<Rightarrow> int \<Rightarrow> int \<Rightarrow> int \<Rightarrow> 'd jitterbuf \<times> int" where
  "history_put jb ts now ms =
     (let delay = now - (ts - resync_offset (jb_inf jb));
          threshold = 2 * jb_jitter (jb_inf jb) + resync_threshold (jbi_conf (jb_inf jb))
      in if ts \<le> 0 then (jb, 0)
         else case history_put_check jb ts now delay threshold of
             (jb, None) \<Rightarrow> (jb, -1)
           | (jb, Some delay) \<Rightarrow> (history_put_store jb delay, 0))"

text \<open>
  One insertion-sort step of \<open>history_calc_maxbuf\<close>: the loop over \<open>j\<close>, the \<open>memmove\<close>
  that makes room, the store, the \<open>break\<close>. The two copies of the loop differ in the
  comparison only (\<open>>\<close> for \<open>hist_maxbuf\<close>, \<open><\<close> for \<open>hist_minbuf\<close>).
\<close>

function hist_insert_at :: "(int \<Rightarrow> int \<Rightarrow> bool) \<Rightarrow> int \<Rightarrow> int list \<Rightarrow> nat \<Rightarrow> int list" where
  "hist_insert_at before toins buf j =
     (if j < JB_HISTORY_MAXBUF_SZ then
        if before toins (buf ! j) then
          (take (j + 1) buf @ take (JB_HISTORY_MAXBUF_SZ - (j + 1)) (drop j buf))[j := toins]
        else hist_insert_at before toins buf (j + 1)
      else buf)"
  by pat_completeness auto
termination
  by (relation "measure (\<lambda>(_, _, _, j). JB_HISTORY_MAXBUF_SZ - j)") auto

definition hist_insert :: "(int \<Rightarrow> int \<Rightarrow> bool) \<Rightarrow> int list \<Rightarrow> int \<Rightarrow> int list" where
  "hist_insert before buf toins =
     (if before toins (buf ! (JB_HISTORY_MAXBUF_SZ - 1))
      then hist_insert_at before toins buf 0 else buf)"

text \<open>The entries the loop of \<open>history_calc_maxbuf\<close> visits, oldest first.\<close>

definition hist_window :: "'d jitterbuf \<Rightarrow> int list" where
  "hist_window jb =
     map (\<lambda>i. history jb ! (i mod JB_HISTORY_SZ))
       [(if hist_ptr jb > JB_HISTORY_SZ then hist_ptr jb - JB_HISTORY_SZ else 0)..<hist_ptr jb]"

definition history_calc_maxbuf :: "'d jitterbuf \<Rightarrow> 'd jitterbuf" where
  "history_calc_maxbuf jb =
     (if hist_ptr jb = 0 then jb
      else jb\<lparr> hist_maxbuf :=
                 foldl (hist_insert (>)) (replicate JB_HISTORY_MAXBUF_SZ JB_LONGMIN) (hist_window jb),
               hist_minbuf :=
                 foldl (hist_insert (<)) (replicate JB_HISTORY_MAXBUF_SZ JB_LONGMAX) (hist_window jb),
               hist_maxbuf_valid := True \<rparr>)"

definition history_get :: "'d jitterbuf \<Rightarrow> 'd jitterbuf" where
  "history_get jb =
     (let jb = (if hist_maxbuf_valid jb then jb else history_calc_maxbuf jb);
          count = (if hist_ptr jb < JB_HISTORY_SZ then hist_ptr jb else JB_HISTORY_SZ);
          index = int (count * JB_HISTORY_DROPPCT) sdiv 100;
          index = (if index > int JB_HISTORY_MAXBUF_SZ - 1 then int JB_HISTORY_MAXBUF_SZ - 1
                   else index)
      in if index < 0 then jb\<lparr> jb_inf := (jb_inf jb)\<lparr> jb_min := 0, jb_jitter := 0 \<rparr> \<rparr>
         else
           let max = hist_maxbuf jb ! nat index; min = hist_minbuf jb ! nat index
           in jb\<lparr> jb_inf := (jb_inf jb)\<lparr> jb_min := min, jb_jitter := max - min \<rparr> \<rparr>)"

definition jb_getinfo :: "'d jitterbuf \<Rightarrow> 'd jitterbuf \<times> jb_info \<times> jb_return_code" where
  "jb_getinfo jb = (let jb = history_get jb in (jb, jb_inf jb, JB_OK))"

section \<open>Frame queue\<close>

text \<open>
  The walk of \<open>queue_put\<close> from \<open>jb->frames->prev\<close> backwards, for a frame that does not
  belong before the head: \<open>back\<close> holds the frames behind the head, last first; the walk
  stops at a frame that is not later, or at the head. The result is the queue behind
  the head.
\<close>

fun queue_place :: "'d jb_frame \<Rightarrow> 'd jb_frame list \<Rightarrow> 'd jb_frame list \<Rightarrow> 'd jb_frame list" where
  "queue_place f [] after = f # after"
| "queue_place f (b # back) after =
     (if fr_ts f < fr_ts b then queue_place f back (b # after)
      else rev (b # back) @ f # after)"

definition queue_link :: "'d jb_frame \<Rightarrow> 'd jb_frame list \<Rightarrow> 'd jb_frame list" where
  "queue_link f fs =
     (case fs of [] \<Rightarrow> [f]
      | h # t \<Rightarrow> if fr_ts f < fr_ts h then f # h # t else h # queue_place f (rev t) [])"

definition queue_put ::
    "bool \<Rightarrow> 'd jitterbuf \<Rightarrow> 'd \<Rightarrow> jb_frame_type \<Rightarrow> int \<Rightarrow> int \<Rightarrow> 'd jitterbuf \<times> int" where
  "queue_put malloc_ok jb data type ms ts =
     (let resync_ts = ts - resync_offset (jb_inf jb);
          frame = \<lparr> fr_data = data, fr_ts = resync_ts, fr_ms = ms, fr_type = type \<rparr>
      in if jb_free jb = [] \<and> \<not> malloc_ok then (jb, 0)
         else
           let jb = jb\<lparr> jb_free := tl (jb_free jb) \<rparr>;
               jb = jb_inf_update (frames_cur_update (\<lambda>c. c + 1)) jb;
               fs = jb_frames jb;
               ooo = (fs \<noteq> [] \<and> (resync_ts < fr_ts (hd fs) \<or> resync_ts < fr_ts (last fs)));
               jb = (if ooo then jb_inf_update (frames_ooo_update (\<lambda>c. c + 1)) jb else jb)
           in (jb\<lparr> jb_frames := queue_link frame fs \<rparr>,
               if fs = [] \<or> resync_ts < fr_ts (hd fs) then 1 else 0))"

definition queue_next :: "'d jitterbuf \<Rightarrow> int" where
  "queue_next jb = (case jb_frames jb of [] \<Rightarrow> -1 | f # _ \<Rightarrow> fr_ts f)"

definition queue_last :: "'d jitterbuf \<Rightarrow> int" where
  "queue_last jb = (case jb_frames jb of [] \<Rightarrow> -1 | fs \<Rightarrow> fr_ts (last fs))"

text \<open>\<open>_queue_get\<close>: the frame that is returned has been moved to the free list.\<close>

definition queue_get_core ::
    "'d jitterbuf \<Rightarrow> int \<Rightarrow> bool \<Rightarrow> 'd jitterbuf \<times> 'd jb_frame option" where
  "queue_get_core jb ts all =
     (case jb_frames jb of
        [] \<Rightarrow> (jb, None)
      | frame # rest \<Rightarrow>
          if all \<or> ts \<ge> fr_ts frame then
            (jb\<lparr> jb_frames := rest, jb_free := frame # jb_free jb,
                 jb_inf := (jb_inf jb)\<lparr> frames_cur := frames_cur (jb_inf jb) - 1 \<rparr> \<rparr>,
             Some frame)
          else (jb, None))"

definition queue_get :: "'d jitterbuf \<Rightarrow> int \<Rightarrow> 'd jitterbuf \<times> 'd jb_frame option" where
  "queue_get jb ts = queue_get_core jb ts False"

definition queue_getall :: "'d jitterbuf \<Rightarrow> 'd jitterbuf \<times> 'd jb_frame option" where
  "queue_getall jb = queue_get_core jb 0 True"

section \<open>Putting and getting frames\<close>

definition jb_put ::
    "bool \<Rightarrow> 'd jitterbuf \<Rightarrow> 'd \<Rightarrow> jb_frame_type \<Rightarrow> int \<Rightarrow> int \<Rightarrow> int
      \<Rightarrow> 'd jitterbuf \<times> jb_return_code" where
  "jb_put malloc_ok jb data type ms ts now =
     (let numts = (if jb_frames jb \<noteq> [] then fr_ts (last (jb_frames jb)) - fr_ts (hd (jb_frames jb))
                   else 0)
      in if numts \<ge> max_jitterbuf (jbi_conf (jb_inf jb)) then
           (jb_inf_update (frames_dropped_update (\<lambda>c. c + 1)) (jb\<lparr> dropem := True \<rparr>), JB_DROP)
         else
           let jb = jb\<lparr> dropem := False \<rparr>;
               (jb, res) = (if type = JB_TYPE_VOICE then history_put jb ts now ms else (jb, 0))
           in if res \<noteq> 0 then
                (jb_inf_update (frames_dropped_update (\<lambda>c. c + 1)) jb, JB_DROP)
              else
                let jb = jb_inf_update (frames_in_update (\<lambda>c. c + 1)) jb;
                    (jb, head) = queue_put malloc_ok jb data type ms ts
                in (jb, if head \<noteq> 0 then JB_SCHED else JB_OK))"

text \<open>The end of a run of interpolated frames starts a silence.\<close>

definition contig_interp_check :: "jb_info \<Rightarrow> jb_info" where
  "contig_interp_check i =
     (if max_contig_interp (jbi_conf i) \<noteq> 0
         \<and> cnt_contig_interp i \<ge> max_contig_interp (jbi_conf i)
      then i\<lparr> silence_begin_ts := next_voice_ts i - jb_current i \<rparr> else i)"

text \<open>The start of \<open>_jb_get\<close>: jitter information and the target delay with its hard clamp.\<close>

definition jb_get_target :: "'d jitterbuf \<Rightarrow> 'd jitterbuf" where
  "jb_get_target jb =
     (let jb = history_get jb; i = jb_inf jb;
          target = jb_jitter i + jb_min i + JB_TARGET_EXTRA;
          target = (if max_jitterbuf (jbi_conf i) \<noteq> 0 \<and> target - jb_min i > max_jitterbuf (jbi_conf i)
                    then jb_min i + max_jitterbuf (jbi_conf i) else target)
      in jb\<lparr> jb_inf := i\<lparr> jb_target := target \<rparr> \<rparr>)"

text \<open>The voice case of \<open>_jb_get\<close> once a frame, if there is one, has been dequeued.\<close>

definition jb_get_dequeued ::
    "'d jitterbuf \<Rightarrow> 'd jb_frame option \<Rightarrow> 'd jb_frame \<Rightarrow> int \<Rightarrow> int \<Rightarrow> int
      \<Rightarrow> 'd jitterbuf \<times> 'd jb_frame \<times> jb_return_code" where
  "jb_get_dequeued jb frame frameout now interpl diff =
     (let i = jb_inf jb in
      case frame of
        Some f \<Rightarrow>
          if fr_type f \<noteq> JB_TYPE_VOICE then
            let i = (if fr_type f = JB_TYPE_SILENCE
                     then i\<lparr> silence_begin_ts := fr_ts f, cnt_contig_interp := 0 \<rparr> else i)
            in (jb\<lparr> jb_inf := i\<lparr> frames_out := frames_out i + 1 \<rparr> \<rparr>, f, JB_OK)
          else if fr_ts f + jb_current i < next_voice_ts i then
            if fr_ts f + jb_current i > next_voice_ts i - last_voice_ms i then
              (decrement_losspct
                 (jb\<lparr> jb_inf := i\<lparr> next_voice_ts := fr_ts f + jb_current i + fr_ms f,
                                   frames_out := frames_out i + 1,
                                   cnt_contig_interp := 0 \<rparr> \<rparr>), f, JB_OK)
            else
              (decrement_losspct
                 (jb\<lparr> jb_inf := i\<lparr> frames_out := frames_out i + 1,
                                   frames_late := frames_late i + 1,
                                   frames_lost := frames_lost i - 1 \<rparr> \<rparr>), f, JB_DROP)
          else
            let i = (if fr_ms f > 0 then i\<lparr> last_voice_ms := fr_ms f \<rparr> else i) in
            if diff < - JB_TARGET_EXTRA \<and> last_adjustment i + 500 < now then
              (decrement_losspct
                 (jb\<lparr> jb_inf := i\<lparr> last_adjustment := now, cnt_contig_interp := 0,
                                   jb_current := jb_current i - fr_ms f,
                                   frames_out := frames_out i + 1,
                                   frames_dropped := frames_dropped i + 1 \<rparr> \<rparr>), f, JB_DROP)
            else
              (decrement_losspct
                 (jb\<lparr> jb_inf := i\<lparr> next_voice_ts := next_voice_ts i + fr_ms f,
                                   frames_out := frames_out i + 1,
                                   cnt_contig_interp := 0 \<rparr> \<rparr>), f, JB_OK)
      | None \<Rightarrow>
          if diff < - JB_TARGET_EXTRA
             \<and> (last_adjustment i + 80 < now \<or> last_adjustment i + 500 < now) then
            (increment_losspct
               (jb\<lparr> jb_inf := i\<lparr> last_adjustment := now, cnt_contig_interp := 0,
                                 jb_current := jb_current i - last_voice_ms i,
                                 frames_lost := frames_lost i + 1 \<rparr> \<rparr>), frameout, JB_NOFRAME)
          else
            let jb = increment_losspct (jb\<lparr> jb_inf := i\<lparr> frames_lost := frames_lost i + 1 \<rparr> \<rparr>);
                i = jb_inf jb
            in (jb\<lparr> jb_inf := contig_interp_check
                      (i\<lparr> next_voice_ts := next_voice_ts i + interpl, last_voice_ms := interpl,
                          cnt_contig_interp := cnt_contig_interp i + 1 \<rparr>) \<rparr>,
                frameout, JB_INTERP))"

definition jb_get_voice ::
    "'d jitterbuf \<Rightarrow> 'd jb_frame \<Rightarrow> int \<Rightarrow> int \<Rightarrow> int
      \<Rightarrow> 'd jitterbuf \<times> 'd jb_frame \<times> jb_return_code" where
  "jb_get_voice jb frameout now interpl diff =
     (let i = jb_inf jb in
      if diff > 0
         \<and> (last_adjustment i + JB_ADJUST_DELAY < now \<or> diff > queue_last jb - queue_next jb) then
        (jb\<lparr> jb_inf := contig_interp_check
               (i\<lparr> jb_current := jb_current i + interpl,
                   next_voice_ts := next_voice_ts i + interpl,
                   last_voice_ms := interpl, last_adjustment := now,
                   cnt_contig_interp := cnt_contig_interp i + 1 \<rparr>) \<rparr>, frameout, JB_INTERP)
      else
        let (jb, frame) = queue_get jb (next_voice_ts i - jb_current i)
        in jb_get_dequeued jb frame frameout now interpl diff)"

text \<open>The silence case of \<open>_jb_get\<close> once a frame, if there is one, has been dequeued.\<close>

definition jb_get_silence_dequeued ::
    "'d jitterbuf \<Rightarrow> 'd jb_frame option \<Rightarrow> 'd jb_frame
      \<Rightarrow> 'd jitterbuf \<times> 'd jb_frame \<times> jb_return_code" where
  "jb_get_silence_dequeued jb frame frameout =
     (let i = jb_inf jb in
      case frame of
        None \<Rightarrow> (jb, frameout, JB_NOFRAME)
      | Some f \<Rightarrow>
          if fr_type f \<noteq> JB_TYPE_VOICE then
            (jb\<lparr> jb_inf := i\<lparr> frames_out := frames_out i + 1 \<rparr> \<rparr>, f, JB_OK)
          else if fr_ts f < silence_begin_ts i then
            (decrement_losspct
               (jb\<lparr> jb_inf := i\<lparr> frames_out := frames_out i + 1,
                                 frames_late := frames_late i + 1,
                                 frames_lost := frames_lost i - 1 \<rparr> \<rparr>), f, JB_DROP)
          else
            (decrement_losspct
               (jb\<lparr> jb_inf := i\<lparr> jb_current := jb_target i, silence_begin_ts := 0,
                                 next_voice_ts := fr_ts f + jb_target i + fr_ms f,
                                 last_voice_ms := fr_ms f,
                                 frames_out := frames_out i + 1 \<rparr> \<rparr>), f, JB_OK))"

definition jb_get_silence ::
    "'d jitterbuf \<Rightarrow> 'd jb_frame \<Rightarrow> int \<Rightarrow> int \<Rightarrow> int
      \<Rightarrow> 'd jitterbuf \<times> 'd jb_frame \<times> jb_return_code" where
  "jb_get_silence jb frameout now interpl diff =
     (let i = jb_inf jb;
          jb = (if diff < - JB_TARGET_EXTRA \<and> last_adjustment i + 10 \<le> now
                then jb\<lparr> jb_inf := i\<lparr> jb_current := jb_current i - interpl,
                                      last_adjustment := now \<rparr> \<rparr>
                else jb);
          (jb, frame) = queue_get jb (now - jb_current (jb_inf jb))
      in jb_get_silence_dequeued jb frame frameout)"

text \<open>\<open>_jb_get\<close>.\<close>

definition jb_get_core ::
    "'d jitterbuf \<Rightarrow> 'd jb_frame \<Rightarrow> int \<Rightarrow> int \<Rightarrow> 'd jitterbuf \<times> 'd jb_frame \<times> jb_return_code" where
  "jb_get_core jb frameout now interpl =
     (let jb = jb_get_target jb;
          diff = jb_target (jb_inf jb) - jb_current (jb_inf jb)
      in if silence_begin_ts (jb_inf jb) = 0
         then jb_get_voice jb frameout now interpl diff
         else jb_get_silence jb frameout now interpl diff)"

definition jb_get ::
    "'d jitterbuf \<Rightarrow> 'd jb_frame \<Rightarrow> int \<Rightarrow> int \<Rightarrow> 'd jitterbuf \<times> 'd jb_frame \<times> jb_return_code" where
  "jb_get jb frameout now interpl =
     (let (jb, frameout, ret) = jb_get_core jb frameout now interpl
      in (jb, (if ret = JB_INTERP then frameout\<lparr> fr_ms := last_voice_ms (jb_inf jb) \<rparr>
               else frameout), ret))"

definition jb_next :: "'d jitterbuf \<Rightarrow> 'd jitterbuf \<times> int" where
  "jb_next jb =
     (if silence_begin_ts (jb_inf jb) \<noteq> 0 then
        if jb_frames jb \<noteq> [] then
          let next = queue_next jb; jb = history_get jb; i = jb_inf jb
          in (jb, if jb_target i - jb_current i < - JB_TARGET_EXTRA then last_adjustment i + 10
                  else next + jb_target i)
        else (jb, JB_LONGMAX)
      else (jb, next_voice_ts (jb_inf jb)))"

definition jb_getall :: "'d jitterbuf \<Rightarrow> 'd jb_frame \<Rightarrow> 'd jitterbuf \<times> 'd jb_frame \<times> jb_return_code" where
  "jb_getall jb frameout =
     (case queue_getall jb of
        (jb, None) \<Rightarrow> (jb, frameout, JB_NOFRAME)
      | (jb, Some frame) \<Rightarrow> (jb, frame, JB_OK))"

section \<open>The extremes of the delay history\<close>

declare hist_insert_at.simps [simp del]

lemma memmove_slot:
  assumes "length buf = 20" "j < 20"
  shows "(take (j + 1) buf @ take (20 - (j + 1)) (drop j buf))[j := x] =
         take j buf @ x # butlast (drop j buf)"
proof -
  have "take (j + 1) buf = take j buf @ [buf ! j]"
    using assms by (simp add: take_Suc_conv_app_nth)
  moreover have "take (20 - (j + 1)) (drop j buf) = butlast (drop j buf)"
    using assms by (simp add: butlast_conv_take)
  ultimately show ?thesis
    using assms by (simp add: list_update_append)
qed

lemma rank_ins_drop:
  "j < length buf \<Longrightarrow>
   rank_ins before x (drop j buf) =
     (if before x (buf ! j) then x # butlast (drop j buf)
      else buf ! j # rank_ins before x (drop (Suc j) buf))"
  by (simp flip: Cons_nth_drop_Suc)

lemma hist_insert_at_rank:
  "length buf = 20 \<Longrightarrow>
   hist_insert_at before x buf j = take j buf @ rank_ins before x (drop j buf)"
proof (induction before x buf j rule: hist_insert_at.induct)
  case (1 before x buf j)
  show ?case
  proof (cases "j < 20")
    case True
    have "take (Suc j) buf = take j buf @ [buf ! j]"
      using True 1 by (simp add: take_Suc_conv_app_nth)
    with True 1 show ?thesis
      using memmove_slot [of buf j x]
      by (simp add: hist_insert_at.simps [of before x buf j] rank_ins_drop)
  next
    case False
    with 1 show ?thesis by (simp add: hist_insert_at.simps [of before x buf j])
  qed
qed

lemma length_hist_insert: "length buf = 20 \<Longrightarrow> length (hist_insert before buf x) = 20"
  by (simp add: hist_insert_def hist_insert_at_rank)

lemma last_nth_19: "length buf = 20 \<Longrightarrow> buf ! 19 = last buf"
  by (cases "buf = []") (simp_all add: last_conv_nth)

context strict_rank begin

lemma hist_insert_top:
  fixes buf :: "'a list"
  assumes "ranked_top before buf M" "buf \<noteq> []"
  shows "(if before x (last buf) then rank_ins before x buf else buf) = rank_ins before x buf"
proof (cases "before x (last buf)")
  case False
  have "\<not> before x y" if "y \<in> set buf" for y
    using ranked_top_last [OF assms that] False by (rule rank_le_trans)
  with False show ?thesis by (simp add: rank_ins_unchanged)
qed simp

end

lemma hist_insert_ranked:
  fixes before :: "int \<Rightarrow> int \<Rightarrow> bool"
  assumes "strict_rank before" "ranked_top before buf M" "length buf = 20"
  shows "ranked_top before (hist_insert before buf x) (add_mset x M)"
proof -
  have ne: "buf \<noteq> []" using assms(3) by auto
  have "hist_insert before buf x =
      (if before x (last buf) then rank_ins before x buf else buf)"
    using assms(3) by (simp add: hist_insert_def hist_insert_at_rank last_nth_19)
  also have "\<dots> = rank_ins before x buf"
    by (rule strict_rank.hist_insert_top [OF assms(1,2) ne])
  finally show ?thesis
    using strict_rank.ranked_top_insert [OF assms(1,2)] by simp
qed

lemma foldl_hist_insert:
  fixes before :: "int \<Rightarrow> int \<Rightarrow> bool"
  assumes "strict_rank before" "ranked_top before buf M" "length buf = 20"
  shows "length (foldl (hist_insert before) buf xs) = 20
    \<and> ranked_top before (foldl (hist_insert before) buf xs) (M + mset xs)"
  using assms(2,3)
proof (induction xs arbitrary: buf M)
  case (Cons x xs)
  from Cons.IH [OF hist_insert_ranked [OF assms(1) Cons.prems] length_hist_insert [OF Cons.prems(2)]]
  show ?case by simp
qed simp

text \<open>The buffers hold the extremes of the window, filled up with the sentinel values.\<close>

definition hist_cache_ok :: "'d jitterbuf \<Rightarrow> bool" where
  "hist_cache_ok jb \<longleftrightarrow> hist_ptr jb > 0
     \<and> ranked_top (>) (hist_maxbuf jb) (replicate_mset 20 JB_LONGMIN + mset (hist_window jb))
     \<and> ranked_top (<) (hist_minbuf jb) (replicate_mset 20 JB_LONGMAX + mset (hist_window jb))"

lemma hist_window_cong:
  "history a = history b \<Longrightarrow> hist_ptr a = hist_ptr b \<Longrightarrow> hist_window a = hist_window b"
  by (simp add: hist_window_def)

lemma hist_window_upd [simp]:
  "hist_window (jb_inf_update f jb) = hist_window jb"
  "hist_window (hist_maxbuf_update g jb) = hist_window jb"
  "hist_window (hist_minbuf_update g jb) = hist_window jb"
  "hist_window (hist_maxbuf_valid_update h jb) = hist_window jb"
  "hist_window (dropem_update h jb) = hist_window jb"
  "hist_window (jb_frames_update k jb) = hist_window jb"
  "hist_window (jb_free_update k jb) = hist_window jb"
  by (simp_all add: hist_window_def)

lemma history_calc_maxbuf_sel [simp]:
  "jb_inf (history_calc_maxbuf jb) = jb_inf jb"
  "history (history_calc_maxbuf jb) = history jb"
  "hist_ptr (history_calc_maxbuf jb) = hist_ptr jb"
  "jb_frames (history_calc_maxbuf jb) = jb_frames jb"
  "jb_free (history_calc_maxbuf jb) = jb_free jb"
  "dropem (history_calc_maxbuf jb) = dropem jb"
  "hist_window (history_calc_maxbuf jb) = hist_window jb"
  by (simp_all add: history_calc_maxbuf_def)

lemma history_calc_maxbuf_ok:
  assumes "hist_ptr jb > 0"
  shows "hist_cache_ok (history_calc_maxbuf jb)"
    and "length (hist_maxbuf (history_calc_maxbuf jb)) = 20"
    and "length (hist_minbuf (history_calc_maxbuf jb)) = 20"
    and "hist_maxbuf_valid (history_calc_maxbuf jb)"
proof -
  note gt = foldl_hist_insert [OF rank_gt.strict_rank_axioms rank_gt.ranked_top_replicate,
      of 20 JB_LONGMIN "hist_window jb"]
  note lt = foldl_hist_insert [OF rank_lt.strict_rank_axioms rank_lt.ranked_top_replicate,
      of 20 JB_LONGMAX "hist_window jb"]
  show "hist_cache_ok (history_calc_maxbuf jb)"
    "length (hist_maxbuf (history_calc_maxbuf jb)) = 20"
    "length (hist_minbuf (history_calc_maxbuf jb)) = 20"
    "hist_maxbuf_valid (history_calc_maxbuf jb)"
    using assms gt lt unfolding hist_cache_ok_def
    by (simp_all add: history_calc_maxbuf_def)
qed

text \<open>Recording a delay moves the window on by one entry.\<close>

lemma hist_window_store:
  assumes len: "length (history jb) = 500"
  shows "hist_window (history_put_store jb d) =
    (if hist_ptr jb < 500 then hist_window jb else tl (hist_window jb)) @ [d]"
    and "hist_ptr jb \<ge> 500 \<Longrightarrow>
      hist_window jb = history jb ! (hist_ptr jb mod 500) # tl (hist_window jb)"
proof -
  let ?p = "hist_ptr jb"
  have w: "hist_window (history_put_store jb d) =
      map (\<lambda>i. (history jb)[?p mod 500 := d] ! (i mod 500))
        [(if ?p + 1 > 500 then ?p + 1 - 500 else 0)..<Suc ?p]"
    by (simp add: history_put_store_def hist_window_def Let_def JB_HISTORY_SZ_def)
  have last: "(history jb)[?p mod 500 := d] ! (?p mod 500) = d"
    using len by simp
  have old: "i mod 500 \<noteq> ?p mod 500" if "?p < i + 500" "i < ?p" for i
  proof
    assume "i mod 500 = ?p mod 500"
    then have "500 dvd ?p - i"
      using that by (metis less_imp_le mod_eq_dvd_iff_nat)
    then show False
      using that by (auto dest: dvd_imp_le)
  qed
  show "hist_window (history_put_store jb d) =
      (if ?p < 500 then hist_window jb else tl (hist_window jb)) @ [d]"
  proof (cases "?p < 500")
    case True
    have "map (\<lambda>i. (history jb)[?p mod 500 := d] ! (i mod 500)) [0..<?p] = hist_window jb"
      using True by (auto simp: hist_window_def JB_HISTORY_SZ_def)
    with True last show ?thesis by (simp add: w)
  next
    case False
    have "hist_window jb = map (\<lambda>i. history jb ! (i mod 500)) [?p - 500..<?p]"
      using False by (auto simp: hist_window_def JB_HISTORY_SZ_def)
    then have tl: "tl (hist_window jb) = map (\<lambda>i. history jb ! (i mod 500)) [Suc (?p - 500)..<?p]"
      using False by (simp add: map_tl [symmetric] tl_upt)
    have "(history jb)[?p mod 500 := d] ! (i mod 500) = history jb ! (i mod 500)"
      if "i \<in> set [Suc (?p - 500)..<?p]" for i
    proof -
      have "i mod 500 \<noteq> ?p mod 500" using that by (intro old) auto
      then show ?thesis by (intro nth_list_update_neq) simp
    qed
    then have "map (\<lambda>i. (history jb)[?p mod 500 := d] ! (i mod 500)) [Suc (?p - 500)..<?p]
        = tl (hist_window jb)"
      unfolding tl by (intro map_cong refl)
    moreover have "?p - 499 = Suc (?p - 500)"
      using False by simp
    ultimately show ?thesis
      using False last by (simp add: w)
  qed
  show "hist_window jb = history jb ! (?p mod 500) # tl (hist_window jb)" if "?p \<ge> 500"
  proof -
    have k: "(?p - 500) mod 500 = ?p mod 500"
      using that by (simp add: le_mod_geq)
    have "[?p - 500..<?p] = (?p - 500) # [Suc (?p - 500)..<?p]"
      using that by (intro upt_conv_Cons) simp
    moreover have "hist_window jb = map (\<lambda>i. history jb ! (i mod 500)) [?p - 500..<?p]"
      using that by (auto simp: hist_window_def JB_HISTORY_SZ_def)
    ultimately show ?thesis by (simp only: list.map k list.sel)
  qed
qed

text \<open>Recording a delay keeps the cached extremes right, or marks them stale.\<close>

lemma hist_store_top:
  fixes before :: "int \<Rightarrow> int \<Rightarrow> bool"
  assumes rank: "strict_rank before"
    and top: "ranked_top before buf (P + mset (hist_window jb))" and len: "length buf = 20"
    and hist: "length (history jb) = 500"
    and inside: "\<not> before d (buf ! 19)" "before (buf ! 19) (history jb ! (hist_ptr jb mod 500))"
  shows "ranked_top before buf (P + mset (hist_window (history_put_store jb d)))"
proof -
  have ne: "buf \<noteq> []" using len by auto
  let ?w = "hist_window jb" and ?k = "history jb ! (hist_ptr jb mod 500)"
  have not_worse: "\<not> before (last buf) y" if "y \<in> set buf" for y
    by (rule strict_rank.ranked_top_last [OF rank top ne that])
  have new: "\<forall>y\<in>set buf. \<not> before d y"
    using not_worse inside(1) strict_rank.rank_le_trans [OF rank] len
    by (metis last_nth_19)
  have kicked: "\<forall>y\<in>set buf. before y ?k"
    using not_worse inside(2) strict_rank.rank_le_trans [OF rank] strict_rank.rank_total [OF rank]
      strict_rank.rank_irrefl [OF rank] len
    by (metis last_nth_19)
  show ?thesis
  proof (cases "hist_ptr jb < 500")
    case True
    then show ?thesis
      using strict_rank.ranked_top_add [OF rank top new] hist by (simp add: hist_window_store(1))
  next
    case False
    then have w: "?w = ?k # tl ?w"
      by (intro hist_window_store(2) [OF hist]) simp
    then have "mset ?w = add_mset ?k (mset (tl ?w))"
      by (metis mset.simps(2))
    then have "ranked_top before buf (P + mset (tl ?w))"
      using strict_rank.ranked_top_remove [OF rank top _ kicked] by simp
    from strict_rank.ranked_top_add [OF rank this new] False hist show ?thesis
      by (simp add: hist_window_store(1))
  qed
qed

lemma history_put_store_sel [simp]:
  "jb_inf (history_put_store jb d) = jb_inf jb"
  "hist_maxbuf (history_put_store jb d) = hist_maxbuf jb"
  "hist_minbuf (history_put_store jb d) = hist_minbuf jb"
  "hist_ptr (history_put_store jb d) = hist_ptr jb + 1"
  "length (history (history_put_store jb d)) = length (history jb)"
  "jb_frames (history_put_store jb d) = jb_frames jb"
  "jb_free (history_put_store jb d) = jb_free jb"
  "dropem (history_put_store jb d) = dropem jb"
  by (simp_all add: history_put_store_def Let_def)

lemma history_put_store_cache:
  assumes "hist_maxbuf_valid jb \<Longrightarrow> hist_cache_ok jb"
    and len: "length (hist_maxbuf jb) = 20" "length (hist_minbuf jb) = 20" "length (history jb) = 500"
    and valid: "hist_maxbuf_valid (history_put_store jb d)"
  shows "hist_cache_ok (history_put_store jb d)"
proof -
  let ?k = "history jb ! (hist_ptr jb mod 500)"
  from valid have v: "hist_maxbuf_valid jb"
    and d: "\<not> d < hist_minbuf jb ! 19" "\<not> d > hist_maxbuf jb ! 19"
    and k: "hist_minbuf jb ! 19 < ?k" "?k < hist_maxbuf jb ! 19"
    by (auto simp: history_put_store_def Let_def JB_HISTORY_SZ_def split: if_splits)
  from assms(1) [OF v] show ?thesis
    using hist_store_top [OF rank_gt.strict_rank_axioms _ len(1,3) d(2) k(2)]
      hist_store_top [OF rank_lt.strict_rank_axioms _ len(2,3) d(1) k(1)]
    by (simp add: hist_cache_ok_def)
qed

section \<open>Well-formed buffers\<close>

text \<open>What every operation keeps of the history and of its cached extremes.\<close>

definition hist_wf :: "'d jitterbuf \<Rightarrow> bool" where
  "hist_wf jb \<longleftrightarrow> length (history jb) = 500
     \<and> length (hist_maxbuf jb) = 20 \<and> length (hist_minbuf jb) = 20
     \<and> (hist_maxbuf_valid jb \<longrightarrow> hist_cache_ok jb)
     \<and> (hist_ptr jb = 0 \<longrightarrow> hist_maxbuf jb = replicate 20 0 \<and> hist_minbuf jb = replicate 20 0)"

lemma hist_cache_ok_upd [simp]:
  "hist_cache_ok (jb_inf_update f jb) = hist_cache_ok jb"
  "hist_cache_ok (dropem_update h jb) = hist_cache_ok jb"
  "hist_cache_ok (jb_frames_update k jb) = hist_cache_ok jb"
  "hist_cache_ok (jb_free_update k jb) = hist_cache_ok jb"
  by (simp_all add: hist_cache_ok_def)

lemma hist_wf_upd [simp]:
  "hist_wf (jb_inf_update f jb) = hist_wf jb"
  "hist_wf (dropem_update h jb) = hist_wf jb"
  "hist_wf (jb_frames_update k jb) = hist_wf jb"
  "hist_wf (jb_free_update k jb) = hist_wf jb"
  by (simp_all add: hist_wf_def)

lemma hist_wf_losspct [simp]:
  "hist_wf (increment_losspct jb) = hist_wf jb"
  "hist_wf (decrement_losspct jb) = hist_wf jb"
  by (simp_all add: increment_losspct_def decrement_losspct_def)

lemma hist_wf_reset: "hist_wf (jb_reset jb)"
  by (simp add: hist_wf_def jb_reset_def JB_HISTORY_SZ_def)

lemma hist_wf_store: "hist_wf jb \<Longrightarrow> hist_wf (history_put_store jb d)"
  unfolding hist_wf_def using history_put_store_cache [of jb d] by simp

lemma hist_wf_put_check:
  "hist_wf jb \<Longrightarrow> history_put_check jb ts now delay th = (jb', Some d) \<Longrightarrow>
   hist_wf (history_put_store jb' d)"
  by (auto simp: history_put_check_def Let_def split: if_splits intro: hist_wf_store)
    (simp_all add: hist_wf_def history_put_store_def Let_def)

lemma hist_wf_put_check_None:
  "hist_wf jb \<Longrightarrow> history_put_check jb ts now delay th = (jb', None) \<Longrightarrow> hist_wf jb'"
  by (auto simp: history_put_check_def Let_def split: if_splits)

lemma hist_wf_put: "hist_wf jb \<Longrightarrow> hist_wf (fst (history_put jb ts now ms))"
  by (auto simp: history_put_def Let_def hist_wf_put_check hist_wf_put_check_None
      split: prod.splits option.splits)

lemma hist_wf_calc: "hist_wf jb \<Longrightarrow> hist_wf (history_calc_maxbuf jb)"
proof (cases "hist_ptr jb = 0")
  case False
  then show "hist_wf jb \<Longrightarrow> ?thesis"
    using history_calc_maxbuf_ok [of jb] by (simp add: hist_wf_def)
qed (simp add: history_calc_maxbuf_def)

lemma hist_wf_get: "hist_wf jb \<Longrightarrow> hist_wf (history_get jb)"
  by (simp add: history_get_def Let_def hist_wf_calc)

section \<open>Minimum delay and jitter\<close>

lemma length_hist_window: "length (hist_window jb) = min (hist_ptr jb) 500"
  by (simp add: hist_window_def JB_HISTORY_SZ_def)

lemma sort_replicate_low:
  "\<forall>x\<in>set w. l \<le> x \<Longrightarrow> sort (replicate n l @ w) = replicate n l @ sort w"
  by (rule properties_for_sort) (auto simp: sorted_append sorted_replicate)

lemma sort_replicate_high:
  "\<forall>x\<in>set w. x \<le> h \<Longrightarrow> sort (replicate n h @ w) = sort w @ replicate n h"
  by (rule properties_for_sort) (auto simp: sorted_append sorted_replicate)

lemma hist_cache_entries:
  assumes "hist_cache_ok jb" "length (hist_maxbuf jb) = 20" "length (hist_minbuf jb) = 20"
    and range: "\<forall>x\<in>set (hist_window jb). JB_LONGMIN \<le> x \<and> x \<le> JB_LONGMAX"
    and k: "k < 20" "k < length (hist_window jb)"
  shows "hist_maxbuf jb ! k = rev (sort (hist_window jb)) ! k"
    and "hist_minbuf jb ! k = sort (hist_window jb) ! k"
proof -
  let ?w = "hist_window jb"
  have "hist_maxbuf jb = take 20 (rev (sort (replicate 20 JB_LONGMIN @ ?w)))"
    using assms ranked_top_gt_sort [of "hist_maxbuf jb" "replicate 20 JB_LONGMIN @ ?w"]
    by (simp add: hist_cache_ok_def)
  also have "sort (replicate 20 JB_LONGMIN @ ?w) = replicate 20 JB_LONGMIN @ sort ?w"
    using range by (intro sort_replicate_low) simp
  finally show "hist_maxbuf jb ! k = rev (sort ?w) ! k"
    using k by (simp add: nth_append)
  have "hist_minbuf jb = take 20 (sort (replicate 20 JB_LONGMAX @ ?w))"
    using assms ranked_top_lt_sort [of "hist_minbuf jb" "replicate 20 JB_LONGMAX @ ?w"]
    by (simp add: hist_cache_ok_def)
  also have "sort (replicate 20 JB_LONGMAX @ ?w) = sort ?w @ replicate 20 JB_LONGMAX"
    using range by (intro sort_replicate_high) simp
  finally show "hist_minbuf jb ! k = sort ?w ! k"
    using k by (simp add: nth_append)
qed

text \<open>
  The reference for \<open>history_get\<close>: sort the recorded delays, drop three per cent at
  either end, and take the lowest remaining delay and the spread of the remaining ones.
\<close>

definition delay_spread :: "int list \<Rightarrow> int \<times> int" where
  "delay_spread w =
     (let k = length w * 3 div 100; s = sort w in (s ! k, rev s ! k - s ! k))"

lemma drop_index:
  "int (n * 3) sdiv 100 = int (n * 3 div 100)" "min n 500 * 3 div 100 < (20::nat)"
  by (simp_all add: sdiv_nonneg zdiv_int)

lemma history_get_alt:
  "history_get jb =
     (let jb' = (if hist_maxbuf_valid jb then jb else history_calc_maxbuf jb);
          k = min (hist_ptr jb) 500 * 3 div 100
      in jb'\<lparr> jb_inf := (jb_inf jb)\<lparr> jb_min := hist_minbuf jb' ! k,
           jb_jitter := hist_maxbuf jb' ! k - hist_minbuf jb' ! k \<rparr> \<rparr>)"
proof -
  define jb' where "jb' = (if hist_maxbuf_valid jb then jb else history_calc_maxbuf jb)"
  define k where "k = min (hist_ptr jb) 500 * 3 div 100"
  have sel: "hist_ptr jb' = hist_ptr jb" "jb_inf jb' = jb_inf jb"
    by (simp_all add: jb'_def)
  have "(if hist_ptr jb < 500 then hist_ptr jb else 500) = min (hist_ptr jb) 500"
    by simp
  then have idx: "int ((if hist_ptr jb < 500 then hist_ptr jb else 500) * 3) sdiv 100 = int k"
    by (simp only: drop_index k_def)
  have "k < 20"
    unfolding k_def by (rule drop_index)
  then have "\<not> int k > int 20 - 1" "\<not> int k < 0" "nat (int k) = k"
    by simp_all
  then show ?thesis
    unfolding history_get_def Let_def jb'_def [symmetric] k_def [symmetric] sel
      JB_HISTORY_SZ_def JB_HISTORY_DROPPCT_def JB_HISTORY_MAXBUF_SZ_20 idx
    by (simp only: if_False)
qed

lemma history_get_delay_spread:
  assumes wf: "hist_wf jb" and pos: "hist_ptr jb > 0"
    and range: "\<forall>x\<in>set (hist_window jb). JB_LONGMIN \<le> x \<and> x \<le> JB_LONGMAX"
  shows "(jb_min (jb_inf (history_get jb)), jb_jitter (jb_inf (history_get jb)))
    = delay_spread (hist_window jb)"
proof -
  define jb' where "jb' = (if hist_maxbuf_valid jb then jb else history_calc_maxbuf jb)"
  define k where "k = min (hist_ptr jb) 500 * 3 div 100"
  have w: "hist_window jb' = hist_window jb" by (simp add: jb'_def)
  have "hist_wf jb'" using wf by (simp add: jb'_def hist_wf_calc)
  moreover have "hist_maxbuf_valid jb'"
    using history_calc_maxbuf_ok(4) [OF pos] by (simp add: jb'_def)
  ultimately have ok: "hist_cache_ok jb'" "length (hist_maxbuf jb') = 20" "length (hist_minbuf jb') = 20"
    by (simp_all add: hist_wf_def)
  have "k < min (hist_ptr jb) 500"
    using pos unfolding k_def by linarith
  then have k: "k < 20" "k < length (hist_window jb')"
    by (simp_all only: w length_hist_window k_def drop_index)
  have "jb_min (jb_inf (history_get jb)) = hist_minbuf jb' ! k"
    "jb_jitter (jb_inf (history_get jb)) = hist_maxbuf jb' ! k - hist_minbuf jb' ! k"
    unfolding history_get_alt Let_def jb'_def [symmetric] k_def [symmetric] by simp_all
  moreover have "hist_maxbuf jb' ! k = rev (sort (hist_window jb)) ! k"
    "hist_minbuf jb' ! k = sort (hist_window jb) ! k"
    using hist_cache_entries [OF ok _ k] range unfolding w by blast+
  moreover have "length (hist_window jb) * 3 div 100 = k"
    by (simp only: length_hist_window k_def)
  ultimately show ?thesis
    unfolding delay_spread_def Let_def by (simp only:)
qed

section \<open>The frame queue is ordered\<close>

lemma queue_place_split:
  "sorted (map fr_ts (rev bk)) \<Longrightarrow>
   \<exists>ys zs. rev bk = ys @ zs \<and> queue_place f bk aft = ys @ f # zs @ aft
     \<and> (\<forall>y\<in>set ys. fr_ts y \<le> fr_ts f) \<and> (\<forall>z\<in>set zs. fr_ts f < fr_ts z)"
proof (induction bk arbitrary: aft)
  case (Cons b bk)
  then have *: "sorted (map fr_ts (rev bk))" "\<forall>y\<in>set bk. fr_ts y \<le> fr_ts b"
    by (auto simp: sorted_append)
  show ?case
  proof (cases "fr_ts f < fr_ts b")
    case True
    obtain ys zs where "rev bk = ys @ zs" "queue_place f bk (b # aft) = ys @ f # zs @ b # aft"
      "\<forall>y\<in>set ys. fr_ts y \<le> fr_ts f" "\<forall>z\<in>set zs. fr_ts f < fr_ts z"
      using Cons.IH [OF *(1), of "b # aft"] by auto
    with True show ?thesis
      by (intro exI [of _ ys] exI [of _ "zs @ [b]"]) auto
  next
    case False
    with * show ?thesis
      by (intro exI [of _ "rev (b # bk)"] exI [of _ "[]"]) auto
  qed
qed simp

interpretation jbq: stable_insert "fr_ts :: 'd jb_frame \<Rightarrow> int" queue_link
proof
  fix fs :: "'d jb_frame list" and f
  assume "sorted (map fr_ts fs)"
  then show "\<exists>ys zs. fs = ys @ zs \<and> queue_link f fs = ys @ f # zs
      \<and> (\<forall>y\<in>set ys. fr_ts y \<le> fr_ts f) \<and> (\<forall>z\<in>set zs. fr_ts f < fr_ts z)"
  proof (cases fs)
    case (Cons h t)
    show ?thesis
    proof (cases "fr_ts f < fr_ts h")
      case True
      with \<open>sorted (map fr_ts fs)\<close> Cons show ?thesis
        by (intro exI [of _ "[]"] exI [of _ fs]) (auto simp: queue_link_def)
    next
      case False
      obtain ys zs where "t = ys @ zs" "queue_place f (rev t) [] = ys @ f # zs"
        "\<forall>y\<in>set ys. fr_ts y \<le> fr_ts f" "\<forall>z\<in>set zs. fr_ts f < fr_ts z"
        using queue_place_split [of "rev t" f "[]"] \<open>sorted (map fr_ts fs)\<close> Cons by auto
      with False Cons show ?thesis
        by (intro exI [of _ "h # ys"] exI [of _ zs]) (auto simp: queue_link_def)
    qed
  qed (simp add: queue_link_def)
qed

section \<open>The invariant of the jitter buffer\<close>

definition jb_inv :: "'d jitterbuf \<Rightarrow> bool" where
  "jb_inv jb \<longleftrightarrow> hist_wf jb \<and> sorted (map fr_ts (jb_frames jb))
     \<and> frames_cur (jb_inf jb) = int (length (jb_frames jb))
     \<and> 0 \<le> losspct (jb_inf jb) \<and> losspct (jb_inf jb) \<le> 100000"

lemma losspct_step:
  "0 \<le> (l::int) \<Longrightarrow> l \<le> 100000 \<Longrightarrow>
   0 \<le> (100000 + 499 * l) sdiv 500 \<and> (100000 + 499 * l) sdiv 500 \<le> 100000
   \<and> 0 \<le> (499 * l) sdiv 500 \<and> (499 * l) sdiv 500 \<le> 100000"
  by (auto simp: sdiv_nonneg pos_imp_zdiv_nonneg_iff)

lemma losspct_sel [simp]:
  "jb_inf (increment_losspct jb) = losspct_update (\<lambda>l. (100000 + 499 * l) sdiv 500) (jb_inf jb)"
  "jb_inf (decrement_losspct jb) = losspct_update (\<lambda>l. (499 * l) sdiv 500) (jb_inf jb)"
  "jb_frames (increment_losspct jb) = jb_frames jb" "jb_frames (decrement_losspct jb) = jb_frames jb"
  by (simp_all add: increment_losspct_def decrement_losspct_def)

lemma contig_interp_check_sel [simp]:
  "frames_cur (contig_interp_check i) = frames_cur i"
  "frames_in (contig_interp_check i) = frames_in i"
  "frames_out (contig_interp_check i) = frames_out i"
  "losspct (contig_interp_check i) = losspct i"
  "jbi_conf (contig_interp_check i) = jbi_conf i"
  "last_voice_ms (contig_interp_check i) = last_voice_ms i"
  by (simp_all add: contig_interp_check_def)

lemma history_get_sel [simp]:
  "jb_frames (history_get jb) = jb_frames jb"
  "frames_cur (jb_inf (history_get jb)) = frames_cur (jb_inf jb)"
  "frames_in (jb_inf (history_get jb)) = frames_in (jb_inf jb)"
  "frames_out (jb_inf (history_get jb)) = frames_out (jb_inf jb)"
  "losspct (jb_inf (history_get jb)) = losspct (jb_inf jb)"
  "jbi_conf (jb_inf (history_get jb)) = jbi_conf (jb_inf jb)"
  "hist_window (history_get jb) = hist_window jb"
  by (simp_all add: history_get_alt Let_def)

lemma history_put_check_sel:
  assumes "history_put_check jb ts now delay th = (jb', r)"
  shows "jb_frames jb' = jb_frames jb" "jb_free jb' = jb_free jb"
    "frames_cur (jb_inf jb') = frames_cur (jb_inf jb)"
    "frames_in (jb_inf jb') = frames_in (jb_inf jb)"
    "frames_out (jb_inf jb') = frames_out (jb_inf jb)"
    "losspct (jb_inf jb') = losspct (jb_inf jb)"
  using assms by (auto simp: history_put_check_def Let_def split: if_splits)

lemma history_put_sel [simp]:
  "jb_frames (fst (history_put jb ts now ms)) = jb_frames jb"
  "jb_free (fst (history_put jb ts now ms)) = jb_free jb"
  "frames_cur (jb_inf (fst (history_put jb ts now ms))) = frames_cur (jb_inf jb)"
  "frames_in (jb_inf (fst (history_put jb ts now ms))) = frames_in (jb_inf jb)"
  "frames_out (jb_inf (fst (history_put jb ts now ms))) = frames_out (jb_inf jb)"
  "losspct (jb_inf (fst (history_put jb ts now ms))) = losspct (jb_inf jb)"
  by (auto simp: history_put_def Let_def split: prod.splits option.splits
      dest: history_put_check_sel)

lemma jb_inv_history_get: "jb_inv jb \<Longrightarrow> jb_inv (history_get jb)"
  by (simp add: jb_inv_def hist_wf_get)

lemma jb_inv_history_put: "jb_inv jb \<Longrightarrow> jb_inv (fst (history_put jb ts now ms))"
  by (simp add: jb_inv_def hist_wf_put)

lemma jb_inv_queue_put:
  assumes "jb_inv jb"
  shows "jb_inv (fst (queue_put m jb d t ms ts))"
  using assms jbq.ins_sorted [of "jb_frames jb"] jbq.ins_length [of "jb_frames jb"]
  by (simp add: jb_inv_def queue_put_def Let_def)

lemma jb_inv_queue_get:
  assumes "jb_inv jb"
  shows "jb_inv (fst (queue_get_core jb ts all))"
  using assms by (auto simp: jb_inv_def queue_get_core_def split: list.splits)

lemma jb_inv_upd [simp]:
  "jb_inv (dropem_update h jb) = jb_inv jb"
  "jb_inv (jb_inf_update (frames_in_update g) jb) = jb_inv jb"
  "jb_inv (jb_inf_update (frames_dropped_update g) jb) = jb_inv jb"
  by (simp_all add: jb_inv_def)

lemma jb_inv_put: "jb_inv jb \<Longrightarrow> jb_inv (fst (jb_put m jb d t ms ts now))"
  using jb_inv_history_put [of "jb\<lparr>dropem := False\<rparr>" ts now ms]
    jb_inv_queue_put [of "jb_inf_update (frames_in_update (\<lambda>c. c + 1))
      (if t = JB_TYPE_VOICE then fst (history_put (jb\<lparr>dropem := False\<rparr>) ts now ms)
       else jb\<lparr>dropem := False\<rparr>)" m d t ms ts]
  by (auto simp: jb_put_def Let_def split: prod.splits)

lemma jb_inv_reset: "jb_inv (jb_reset jb)"
  by (simp add: jb_inv_def hist_wf_reset) (simp add: jb_reset_def)

text \<open>What a call of \<open>_jb_get\<close> does to the queue and to the counters.\<close>

lemma queue_get_core_cases:
  assumes "queue_get_core jb ts all = (jb', fo)"
  obtains (none) "fo = None" "jb' = jb"
  | (frame) f where "fo = Some f" "jb_frames jb = f # jb_frames jb'" "all \<or> fr_ts f \<le> ts"
      "jb_inf jb' = (jb_inf jb)\<lparr> frames_cur := frames_cur (jb_inf jb) - 1 \<rparr>"
      "hist_wf jb' = hist_wf jb"
  using assms by (auto simp: queue_get_core_def hist_wf_def split: list.splits if_splits)

definition jb_get_effect ::
    "'d jitterbuf \<Rightarrow> 'd jb_frame option \<Rightarrow> 'd jb_frame \<Rightarrow>
     'd jitterbuf \<times> 'd jb_frame \<times> jb_return_code \<Rightarrow> bool" where
  "jb_get_effect jb frame fo res \<longleftrightarrow>
     (case res of (jb', fo', r) \<Rightarrow>
        jb_frames jb' = jb_frames jb \<and> hist_wf jb' = hist_wf jb
        \<and> frames_cur (jb_inf jb') = frames_cur (jb_inf jb)
        \<and> frames_in (jb_inf jb') = frames_in (jb_inf jb)
        \<and> jbi_conf (jb_inf jb') = jbi_conf (jb_inf jb)
        \<and> (0 \<le> losspct (jb_inf jb) \<and> losspct (jb_inf jb) \<le> 100000 \<longrightarrow>
             0 \<le> losspct (jb_inf jb') \<and> losspct (jb_inf jb') \<le> 100000)
        \<and> (case frame of
             None \<Rightarrow> (r = JB_INTERP \<or> r = JB_NOFRAME) \<and> fo' = fo
               \<and> frames_out (jb_inf jb') = frames_out (jb_inf jb)
           | Some f \<Rightarrow> (r = JB_OK \<or> r = JB_DROP) \<and> fo' = f
               \<and> frames_out (jb_inf jb') = frames_out (jb_inf jb) + 1))"

lemma jb_get_dequeued_effect:
  "jb_get_effect jb frame fo (jb_get_dequeued jb frame fo now interpl diff)"
  unfolding jb_get_effect_def jb_get_dequeued_def Let_def
  by (auto simp: losspct_step split: option.splits)

text \<open>The frame a call of \<open>jb_get\<close> takes from the queue, if any.\<close>

definition jb_take_effect ::
    "'d jitterbuf \<Rightarrow> 'd jitterbuf \<times> 'd jb_frame \<times> jb_return_code \<Rightarrow> bool" where
  "jb_take_effect jb res \<longleftrightarrow>
     (case res of (jb', fo', r) \<Rightarrow>
        (jb_inv jb \<longrightarrow> jb_inv jb')
        \<and> frames_in (jb_inf jb') = frames_in (jb_inf jb)
        \<and> jbi_conf (jb_inf jb') = jbi_conf (jb_inf jb)
        \<and> (if r = JB_OK \<or> r = JB_DROP
           then jb_frames jb = fo' # jb_frames jb'
             \<and> frames_cur (jb_inf jb') = frames_cur (jb_inf jb) - 1
             \<and> frames_out (jb_inf jb') = frames_out (jb_inf jb) + 1
           else (r = JB_INTERP \<or> r = JB_NOFRAME) \<and> jb_frames jb' = jb_frames jb
             \<and> frames_cur (jb_inf jb') = frames_cur (jb_inf jb)
             \<and> frames_out (jb_inf jb') = frames_out (jb_inf jb)))"

lemma jb_take_after_dequeue:
  assumes "queue_get jb ts = (jb', frame)" and "jb_get_effect jb' frame fo res"
  shows "jb_take_effect jb res"
  using assms(1) unfolding queue_get_def
proof (cases rule: queue_get_core_cases)
  case none
  with assms(2) show ?thesis
    by (auto simp: jb_get_effect_def jb_take_effect_def jb_inv_def split: prod.splits)
next
  case (frame f)
  with assms(2) show ?thesis
    by (auto simp: jb_get_effect_def jb_take_effect_def jb_inv_def split: prod.splits)
qed

lemma jb_get_voice_effect: "jb_take_effect jb (jb_get_voice jb fo now interpl diff)"
proof -
  let ?i = "jb_inf jb"
  obtain jb' frame where q: "queue_get jb (next_voice_ts ?i - jb_current ?i) = (jb', frame)"
    by fastforce
  have "jb_take_effect jb (jb_get_dequeued jb' frame fo now interpl diff)"
    by (rule jb_take_after_dequeue [OF q jb_get_dequeued_effect])
  moreover have "jb_take_effect jb
      (jb\<lparr> jb_inf := contig_interp_check (?i\<lparr> jb_current := a, next_voice_ts := b,
        last_voice_ms := interpl, last_adjustment := now, cnt_contig_interp := c \<rparr>) \<rparr>, fo, JB_INTERP)"
    for a b c
    by (simp add: jb_take_effect_def jb_inv_def)
  ultimately show ?thesis
    by (simp add: jb_get_voice_def Let_def q)
qed

lemma jb_get_silence_dequeued_effect:
  "jb_get_effect jb frame fo (jb_get_silence_dequeued jb frame fo)"
  using losspct_step [of "losspct (jb_inf jb)"]
  by (simp add: jb_get_silence_dequeued_def Let_def jb_get_effect_def split: option.splits)

lemma jb_get_silence_effect: "jb_take_effect jb (jb_get_silence jb fo now interpl diff)"
proof -
  define jb1 where "jb1 = (if diff < - JB_TARGET_EXTRA \<and> last_adjustment (jb_inf jb) + 10 \<le> now
    then jb\<lparr> jb_inf := (jb_inf jb)\<lparr> jb_current := jb_current (jb_inf jb) - interpl,
                                   last_adjustment := now \<rparr> \<rparr> else jb)"
  obtain jb' frame where q: "queue_get jb1 (now - jb_current (jb_inf jb1)) = (jb', frame)"
    by fastforce
  have "jb_get_silence jb fo now interpl diff = jb_get_silence_dequeued jb' frame fo"
    unfolding jb_get_silence_def Let_def jb1_def [symmetric] q by simp
  moreover have "jb_take_effect jb1 (jb_get_silence_dequeued jb' frame fo)"
    by (rule jb_take_after_dequeue [OF q jb_get_silence_dequeued_effect])
  moreover have "jb_take_effect jb1 r = jb_take_effect jb r" for r
    by (simp add: jb1_def jb_take_effect_def jb_inv_def)
  ultimately show ?thesis by simp
qed

lemma jb_get_target_sel [simp]:
  "jb_frames (jb_get_target jb) = jb_frames jb"
  "frames_cur (jb_inf (jb_get_target jb)) = frames_cur (jb_inf jb)"
  "frames_in (jb_inf (jb_get_target jb)) = frames_in (jb_inf jb)"
  "frames_out (jb_inf (jb_get_target jb)) = frames_out (jb_inf jb)"
  "losspct (jb_inf (jb_get_target jb)) = losspct (jb_inf jb)"
  "jbi_conf (jb_inf (jb_get_target jb)) = jbi_conf (jb_inf jb)"
  "jb_inv jb \<Longrightarrow> jb_inv (jb_get_target jb)"
  by (simp_all add: jb_get_target_def Let_def jb_inv_def hist_wf_get)

lemma jb_get_core_effect: "jb_take_effect jb (jb_get_core jb fo now interpl)"
proof -
  have "jb_take_effect (jb_get_target jb) (jb_get_core jb fo now interpl)"
    by (simp add: jb_get_core_def Let_def jb_get_voice_effect jb_get_silence_effect)
  then show ?thesis
    by (auto simp: jb_take_effect_def split: prod.splits)
qed

lemma jb_get_effect: "jb_take_effect jb (jb_get jb fo now interpl)"
  using jb_get_core_effect [of jb fo now interpl]
  by (auto simp: jb_get_def jb_take_effect_def split: prod.splits)

section \<open>Runs\<close>

datatype 'd jb_op =
    Op_put bool 'd jb_frame_type int int int
  | Op_get "'d jb_frame" int int
  | Op_getall "'d jb_frame"
  | Op_next
  | Op_getinfo
  | Op_setconf jb_conf
  | Op_reset

fun jb_step :: "'d jitterbuf \<Rightarrow> 'd jb_op \<Rightarrow> 'd jitterbuf" where
  "jb_step jb (Op_put m d t ms ts now) = fst (jb_put m jb d t ms ts now)"
| "jb_step jb (Op_get fo now interpl) = fst (jb_get jb fo now interpl)"
| "jb_step jb (Op_getall fo) = fst (jb_getall jb fo)"
| "jb_step jb Op_next = fst (jb_next jb)"
| "jb_step jb Op_getinfo = fst (jb_getinfo jb)"
| "jb_step jb (Op_setconf c) = fst (jb_setconf jb c)"
| "jb_step jb Op_reset = jb_reset jb"

lemma jb_inv_get: "jb_inv jb \<Longrightarrow> jb_inv (fst (jb_get jb fo now interpl))"
  using jb_get_effect [of jb fo now interpl] by (auto simp: jb_take_effect_def)

lemma jb_inv_getall: "jb_inv jb \<Longrightarrow> jb_inv (fst (jb_getall jb fo))"
  using jb_inv_queue_get [of jb 0 True]
  by (auto simp: jb_getall_def queue_getall_def split: prod.splits option.splits)

lemma jb_inv_next: "jb_inv jb \<Longrightarrow> jb_inv (fst (jb_next jb))"
  by (simp add: jb_next_def Let_def jb_inv_history_get)

lemma jb_inv_setconf: "jb_inv jb \<Longrightarrow> jb_inv (fst (jb_setconf jb c))"
  by (simp add: jb_setconf_def jb_inv_def)

lemma jb_inv_getinfo: "jb_inv jb \<Longrightarrow> jb_inv (fst (jb_getinfo jb))"
  by (simp add: jb_getinfo_def Let_def jb_inv_history_get)

lemmas jb_inv_ops = jb_inv_put jb_inv_get jb_inv_getall jb_inv_next jb_inv_getinfo
  jb_inv_setconf jb_inv_reset

interpretation jb_runs: run_invariant jb_step jb_inv
proof
  show "jb_inv jb \<Longrightarrow> jb_inv (jb_step jb e)" for jb :: "'d jitterbuf" and e
    by (cases e) (simp_all add: jb_inv_ops)
qed

section \<open>Putting and draining\<close>

text \<open>The time stamp span of the queue, and the frame a put would queue.\<close>

definition jb_span :: "'d jitterbuf \<Rightarrow> int" where
  "jb_span jb = (case jb_frames jb of [] \<Rightarrow> 0 | f # fs \<Rightarrow> fr_ts (last (f # fs)) - fr_ts f)"

definition jb_entry :: "'d jitterbuf \<Rightarrow> 'd \<Rightarrow> jb_frame_type \<Rightarrow> int \<Rightarrow> int \<Rightarrow> 'd jb_frame" where
  "jb_entry jb d t ms ts =
     \<lparr> fr_data = d, fr_ts = ts - resync_offset (jb_inf jb), fr_ms = ms, fr_type = t \<rparr>"

lemma queue_put_frames:
  "jb_frames (fst (queue_put True jb d t ms ts)) = queue_link (jb_entry jb d t ms ts) (jb_frames jb)"
  "frames_cur (jb_inf (fst (queue_put m jb d t ms ts))) =
     (if jb_free jb = [] \<and> \<not> m then frames_cur (jb_inf jb) else frames_cur (jb_inf jb) + 1)"
  "frames_in (jb_inf (fst (queue_put m jb d t ms ts))) = frames_in (jb_inf jb)"
  "frames_out (jb_inf (fst (queue_put m jb d t ms ts))) = frames_out (jb_inf jb)"
  "resync_offset (jb_inf (fst (queue_put m jb d t ms ts))) = resync_offset (jb_inf jb)"
  "snd (queue_put True jb d t ms ts) \<noteq> 0 \<longleftrightarrow>
     (case jb_frames jb of [] \<Rightarrow> True | f # _ \<Rightarrow> fr_ts (jb_entry jb d t ms ts) < fr_ts f)"
  by (simp_all add: queue_put_def jb_entry_def Let_def split: list.splits)

lemma jb_put_cases:
  assumes "jb_put m jb d t ms ts now = (jb', r)"
  obtains (full) "max_jitterbuf (jbi_conf (jb_inf jb)) \<le> jb_span jb" "r = JB_DROP"
      "jb_frames jb' = jb_frames jb" "jb_inf jb' = frames_dropped_update (\<lambda>c. c + 1) (jb_inf jb)"
  | (discont) jb1 where "jb_span jb < max_jitterbuf (jbi_conf (jb_inf jb))" "t = JB_TYPE_VOICE"
      "r = JB_DROP" "history_put (jb\<lparr> dropem := False \<rparr>) ts now ms = (jb1, -1)"
      "jb' = jb_inf_update (frames_dropped_update (\<lambda>c. c + 1)) jb1"
  | (queued) jb1 h where "jb_span jb < max_jitterbuf (jbi_conf (jb_inf jb))"
      "t = JB_TYPE_VOICE \<Longrightarrow> history_put (jb\<lparr> dropem := False \<rparr>) ts now ms = (jb1, 0)"
      "t \<noteq> JB_TYPE_VOICE \<Longrightarrow> jb1 = jb\<lparr> dropem := False \<rparr>"
      "queue_put m (jb_inf_update (frames_in_update (\<lambda>c. c + 1)) jb1) d t ms ts = (jb', h)"
      "r = (if h \<noteq> 0 then JB_SCHED else JB_OK)"
proof -
  define jb0 where "jb0 = jb\<lparr> dropem := False \<rparr>"
  have span: "(if jb_frames jb \<noteq> [] then fr_ts (last (jb_frames jb)) - fr_ts (hd (jb_frames jb)) else 0)
      = jb_span jb"
    by (simp add: jb_span_def split: list.splits)
  obtain jb1 res where hp: "history_put jb0 ts now ms = (jb1, res)" by fastforce
  have res: "res = 0 \<or> res = -1"
    using hp by (auto simp: history_put_def Let_def split: if_splits prod.splits option.splits)
  show thesis
  proof (cases "max_jitterbuf (jbi_conf (jb_inf jb)) \<le> jb_span jb")
    case True
    with assms show thesis
      by (intro full) (auto simp: jb_put_def Let_def span)
  next
    case False
    note * = assms [unfolded jb_put_def span Let_def, folded jb0_def]
    show thesis
    proof (cases "t = JB_TYPE_VOICE")
      case True
      with False * hp res show thesis
        by (auto simp: jb0_def split: prod.splits if_splits intro: discont queued)
    next
      case other: False
      with False * show thesis
        by (auto simp: jb0_def split: prod.splits if_splits intro: queued)
    qed
  qed
qed

fun jb_drain :: "nat \<Rightarrow> 'd jitterbuf \<Rightarrow> 'd jb_frame \<Rightarrow> 'd jb_frame list" where
  "jb_drain 0 jb fo = []"
| "jb_drain (Suc n) jb fo =
     (case jb_getall jb fo of
        (jb', f, JB_OK) \<Rightarrow> f # jb_drain n jb' f
      | _ \<Rightarrow> [])"

lemma jb_getall_frame:
  "jb_frames jb = f # fs \<Longrightarrow> \<exists>jb'. jb_getall jb fo = (jb', f, JB_OK) \<and> jb_frames jb' = fs"
  "jb_frames jb = [] \<Longrightarrow> jb_getall jb fo = (jb, fo, JB_NOFRAME)"
  by (simp_all add: jb_getall_def queue_getall_def queue_get_core_def)

lemma jb_drain_take: "jb_drain n jb fo = take n (jb_frames jb)"
proof (induction n arbitrary: jb fo)
  case (Suc n)
  show ?case
  proof (cases "jb_frames jb")
    case (Cons f fs)
    then show ?thesis
      using jb_getall_frame(1) [OF Cons, of fo] Suc by auto
  qed (simp add: jb_getall_frame)
qed simp

text \<open>Frames that were accepted are in the queue or have left it.\<close>

definition frames_conserved :: "'d jitterbuf \<Rightarrow> bool" where
  "frames_conserved jb \<longleftrightarrow>
     frames_in (jb_inf jb) = frames_out (jb_inf jb) + frames_cur (jb_inf jb)"

fun jb_op_streaming :: "'d jb_op \<Rightarrow> bool" where
  "jb_op_streaming (Op_put m d t ms ts now) = m"
| "jb_op_streaming (Op_getall fo) = False"
| "jb_op_streaming _ = True"

lemma frames_conserved_put:
  assumes "frames_conserved jb"
  shows "frames_conserved (fst (jb_put True jb d t ms ts now))"
proof -
  obtain jb' r where p: "jb_put True jb d t ms ts now = (jb', r)" by fastforce
  then show ?thesis
  proof (cases rule: jb_put_cases)
    case (discont jb1)
    with assms p show ?thesis
      using history_put_sel [of "jb\<lparr> dropem := False \<rparr>" ts now ms]
      by (simp add: frames_conserved_def)
  next
    case (queued jb1 h)
    have "frames_conserved jb1"
      using assms queued(2,3) history_put_sel [of "jb\<lparr> dropem := False \<rparr>" ts now ms]
      by (cases "t = JB_TYPE_VOICE") (simp_all add: frames_conserved_def)
    with p show ?thesis
      using queue_put_frames(2,3,4) [of True "jb_inf_update (frames_in_update (\<lambda>c. c + 1)) jb1" d t ms ts]
      by (simp add: frames_conserved_def queued(4))
  qed (use assms p in \<open>simp_all add: frames_conserved_def\<close>)
qed

lemma frames_conserved_step:
  assumes "frames_conserved jb" "jb_op_streaming e"
  shows "frames_conserved (jb_step jb e)"
proof (cases e)
  case (Op_get fo now interpl)
  with assms jb_get_effect [of jb fo now interpl] show ?thesis
    by (auto simp: jb_take_effect_def frames_conserved_def split: prod.splits if_splits)
qed (use assms frames_conserved_put in \<open>auto simp: frames_conserved_def jb_next_def jb_getinfo_def
       jb_setconf_def jb_reset_def Let_def\<close>)

text \<open>The delay target after a call of \<open>jb_get\<close> is the one computed at its start.\<close>

definition target_ok :: "jb_info \<Rightarrow> bool" where
  "target_ok i \<longleftrightarrow> jb_target i = jb_min i +
     (if max_jitterbuf (jbi_conf i) = 0 then jb_jitter i + JB_TARGET_EXTRA
      else min (jb_jitter i + JB_TARGET_EXTRA) (max_jitterbuf (jbi_conf i)))"

lemma target_ok_upd [simp]:
  "target_ok (i\<lparr> frames_out := a \<rparr>) = target_ok i"
  "target_ok (i\<lparr> frames_late := a \<rparr>) = target_ok i"
  "target_ok (i\<lparr> frames_lost := a \<rparr>) = target_ok i"
  "target_ok (i\<lparr> frames_dropped := a \<rparr>) = target_ok i"
  "target_ok (i\<lparr> frames_cur := a \<rparr>) = target_ok i"
  "target_ok (i\<lparr> next_voice_ts := a \<rparr>) = target_ok i"
  "target_ok (i\<lparr> last_voice_ms := a \<rparr>) = target_ok i"
  "target_ok (i\<lparr> silence_begin_ts := a \<rparr>) = target_ok i"
  "target_ok (i\<lparr> last_adjustment := a \<rparr>) = target_ok i"
  "target_ok (i\<lparr> jb_current := a \<rparr>) = target_ok i"
  "target_ok (i\<lparr> cnt_contig_interp := a \<rparr>) = target_ok i"
  "target_ok (losspct_update g i) = target_ok i"
  "target_ok (contig_interp_check i) = target_ok i"
  by (simp_all add: target_ok_def contig_interp_check_def)

lemma target_ok_dequeued:
  "target_ok (jb_inf jb) \<Longrightarrow> target_ok (jb_inf (fst (jb_get_dequeued jb frame fo now interpl diff)))"
  "target_ok (jb_inf jb) \<Longrightarrow> target_ok (jb_inf (fst (jb_get_silence_dequeued jb frame fo)))"
  by (simp_all add: jb_get_dequeued_def jb_get_silence_dequeued_def Let_def split: option.splits)

lemma target_ok_queue_get:
  "target_ok (jb_inf (fst (queue_get jb ts))) = target_ok (jb_inf jb)"
  by (simp add: queue_get_def queue_get_core_def split: list.splits)

lemma target_ok_voice:
  "target_ok (jb_inf jb) \<Longrightarrow> target_ok (jb_inf (fst (jb_get_voice jb fo now interpl diff)))"
  by (simp add: jb_get_voice_def Let_def case_prod_beta target_ok_dequeued target_ok_queue_get)

lemma target_ok_silence:
  "target_ok (jb_inf jb) \<Longrightarrow> target_ok (jb_inf (fst (jb_get_silence jb fo now interpl diff)))"
  by (simp add: jb_get_silence_def Let_def case_prod_beta target_ok_dequeued target_ok_queue_get)

lemma target_ok_get: "target_ok (jb_inf (fst (jb_get jb fo now interpl)))"
proof -
  have "target_ok (jb_inf (jb_get_target jb))"
    by (simp add: jb_get_target_def Let_def target_ok_def)
  then show ?thesis
    by (simp add: jb_get_def jb_get_core_def Let_def case_prod_beta target_ok_voice target_ok_silence)
qed

text \<open>A frame whose delay is out of bounds, while discontinuities are still being counted.\<close>

definition delay_off :: "'d jitterbuf \<Rightarrow> int \<Rightarrow> int \<Rightarrow> bool" where
  "delay_off jb ts now \<longleftrightarrow> ts > 0
     \<and> c_abs (now - (ts - resync_offset (jb_inf jb)) - last_delay (jb_inf jb))
         > 2 * jb_jitter (jb_inf jb) + resync_threshold (jbi_conf (jb_inf jb))"

lemma delay_off_cnt [simp]:
  "delay_off (jb\<lparr> jb_inf := (jb_inf jb)\<lparr> cnt_delay_discont := c \<rparr> \<rparr>) ts now = delay_off jb ts now"
  by (simp add: delay_off_def)

lemma history_put_off:
  assumes "resync_threshold (jbi_conf (jb_inf jb)) \<noteq> -1" "delay_off jb ts now"
  shows "history_put jb ts now ms =
    (if cnt_delay_discont (jb_inf jb) < 3
     then (jb\<lparr> jb_inf := (jb_inf jb)\<lparr> cnt_delay_discont := cnt_delay_discont (jb_inf jb) + 1 \<rparr> \<rparr>, -1)
     else (history_put_store
             (jb\<lparr> jb_inf := (jb_inf jb)\<lparr> cnt_delay_discont := 0, resync_offset := ts - now,
                                        last_delay := 0 \<rparr>,
                  hist_ptr := 0, hist_maxbuf_valid := False \<rparr>) 0, 0))"
  using assms by (simp add: history_put_def history_put_check_def delay_off_def Let_def)

lemma window_after_resync:
  "length (history jb) = 500 \<Longrightarrow> hist_ptr jb = 0 \<Longrightarrow> hist_window (history_put_store jb 0) = [0]"
  by (simp add: hist_window_def history_put_store_def Let_def JB_HISTORY_SZ_def)

lemma jb_reachable_inv: "jb_inv (foldl jb_step (jb_reset jb) ops)"
  by (rule jb_runs.run_keeps) (rule jb_inv_reset)

section \<open>Properties\<close>

text \<open>A buffer of no particular content, as \<open>ast_malloc\<close> may return it.\<close>

definition jb_any :: "nat jitterbuf" where
  "jb_any =
     \<lparr> jb_inf = \<lparr> jbi_conf = \<lparr> max_jitterbuf = 1000, resync_threshold = 1000, max_contig_interp = 10 \<rparr>,
         frames_in = 0, frames_out = 0, frames_late = 0, frames_lost = 0,
         frames_dropped = 0, frames_ooo = 0, frames_cur = 0, jb_jitter = 0, jb_min = 0,
         jb_current = 0, jb_target = 0, losspct = 0, next_voice_ts = 0, last_voice_ms = 0,
         silence_begin_ts = 0, last_adjustment = 0, last_delay = 0, cnt_delay_discont = 0,
         resync_offset = 0, cnt_contig_interp = 0 \<rparr>,
       history = [], hist_ptr = 0, hist_maxbuf = [], hist_minbuf = [],
       hist_maxbuf_valid = False, dropem = False, jb_frames = [], jb_free = [] \<rparr>"

definition jb_ops_ex :: "nat jb_op list" where
  "jb_ops_ex = [Op_put True 7 JB_TYPE_VOICE 20 100 130, Op_put True 8 JB_TYPE_VOICE 20 120 160,
     Op_put True 9 JB_TYPE_VOICE 20 80 165]"

text \<open>
  C11. After any sequence of operations on a reset buffer, with at least one delay recorded,
  \<open>jb_getinfo\<close> reports as minimum and jitter exactly what sorting the recorded delays and
  dropping three per cent at either end gives: the two 20-entry caches, their lazy
  recomputation and the rules that keep them valid change nothing. The delays must lie
  between the sentinels \<open>JB_LONGMIN\<close> and \<open>JB_LONGMAX\<close>.
\<close>

theorem jb_getinfo_delay_spread:
  assumes "jb = foldl jb_step (jb_reset jb0) ops" and "hist_ptr jb > 0"
    and "\<forall>x\<in>set (hist_window jb). JB_LONGMIN \<le> x \<and> x \<le> JB_LONGMAX"
    and "jb_getinfo jb = (jb', info, r)"
  shows "(jb_min info, jb_jitter info) = delay_spread (hist_window jb) \<and> r = JB_OK"
proof -
  have "hist_wf jb"
    using jb_reachable_inv [of jb0 ops] assms(1) by (simp add: jb_inv_def)
  with assms(2-4) show ?thesis
    using history_get_delay_spread [of jb] by (auto simp: jb_getinfo_def Let_def)
qed

lemma jb_ex_window: "hist_window (foldl jb_step (jb_reset jb_any) jb_ops_ex) = [30, 40, 85]"
  by code_simp

lemma jb_ex_ptr: "hist_ptr (foldl jb_step (jb_reset jb_any) jb_ops_ex) = 3"
  by code_simp

theorem jb_getinfo_delay_spread_witness:
  "(\<lambda>i. (jb_min i, jb_jitter i)) (fst (snd (jb_getinfo (foldl jb_step (jb_reset jb_any) jb_ops_ex)))) = (30, 55)"
proof -
  let ?jb = "foldl jb_step (jb_reset jb_any) jb_ops_ex"
  have "delay_spread [30, 40, 85] = (30, 55)"
    by (simp add: delay_spread_def)
  then show ?thesis
    using jb_getinfo_delay_spread [OF refl, of jb_any jb_ops_ex "fst (jb_getinfo ?jb)"
        "fst (snd (jb_getinfo ?jb))" "snd (snd (jb_getinfo ?jb))"]
    by (simp add: jb_ex_window jb_ex_ptr JB_LONGMIN_def JB_LONGMAX_def)
qed

text \<open>
  C21. After any sequence of operations on a reset buffer the queue is in time stamp order,
  \<open>frames_cur\<close> is its length, and the loss estimate stays between 0 and 100000 (100 per cent).
\<close>

theorem jb_run_queue_ordered:
  "(let jb = foldl jb_step (jb_reset jb0) ops
    in sorted (map fr_ts (jb_frames jb)) \<and> frames_cur (jb_inf jb) = int (length (jb_frames jb))
       \<and> 0 \<le> losspct (jb_inf jb) \<and> losspct (jb_inf jb) \<le> 100000)"
  using jb_reachable_inv [of jb0 ops] by (simp add: jb_inv_def Let_def)

text \<open>
  C22. \<open>jb_get\<close> returns \<open>JB_OK\<close> or \<open>JB_DROP\<close> with the head of the queue, which it removes and
  counts in \<open>frames_out\<close>; or it returns \<open>JB_INTERP\<close> or \<open>JB_NOFRAME\<close> and leaves queue and count
  as they are. It never returns \<open>JB_EMPTY\<close> or \<open>JB_SCHED\<close>.
\<close>

theorem jb_get_head:
  "case jb_get jb fo now interpl of (jb', fo', r) \<Rightarrow>
     if r = JB_OK \<or> r = JB_DROP
     then jb_frames jb = fo' # jb_frames jb' \<and> frames_out (jb_inf jb') = frames_out (jb_inf jb) + 1
     else (r = JB_INTERP \<or> r = JB_NOFRAME) \<and> jb_frames jb' = jb_frames jb
       \<and> frames_out (jb_inf jb') = frames_out (jb_inf jb)"
  using jb_get_effect [of jb fo now interpl] by (auto simp: jb_take_effect_def)

lemma jb_put_link:
  assumes "jb_put True jb d t ms ts now = (jb', r)" and "f = jb_entry jb' d t ms ts"
  shows "jb_frames jb' = (if r = JB_DROP then jb_frames jb else queue_link f (jb_frames jb))
    \<and> (r = JB_DROP \<or> r = (case jb_frames jb of [] \<Rightarrow> JB_SCHED
         | h # _ \<Rightarrow> if fr_ts f < fr_ts h then JB_SCHED else JB_OK))"
  using assms(1)
proof (cases rule: jb_put_cases)
  case (discont jb1)
  then show ?thesis
    using history_put_sel [of "jb\<lparr> dropem := False \<rparr>" ts now ms] by simp
next
  case (queued jb1 h)
  define jb2 where "jb2 = jb_inf_update (frames_in_update (\<lambda>c. c + 1)) jb1"
  have fr: "jb_frames jb2 = jb_frames jb"
    using queued(2,3) history_put_sel [of "jb\<lparr> dropem := False \<rparr>" ts now ms]
    by (cases "t = JB_TYPE_VOICE") (simp_all add: jb2_def)
  have "f = jb_entry jb2 d t ms ts"
    using queue_put_frames(5) [of True jb2 d t ms ts] queued(4) assms(2)
    by (simp add: jb_entry_def jb2_def)
  with fr show ?thesis
    using queue_put_frames(1,6) [of jb2 d t ms ts] queued(4,5)
    by (auto simp: jb2_def split: list.splits)
qed simp_all

text \<open>
  On a reachable buffer a put whose frame can be allocated either drops the frame
  (\<open>JB_DROP\<close>, queue unchanged) or queues it behind all frames with the same or an earlier time
  stamp and before all later ones; \<open>JB_SCHED\<close> tells that the frame became the head, \<open>JB_OK\<close>
  that it did not.
\<close>

theorem jb_put_places:
  assumes "jb = foldl jb_step (jb_reset jb0) ops"
    and "jb_put True jb d t ms ts now = (jb', r)" and "f = jb_entry jb' d t ms ts"
  shows "r = JB_DROP \<and> jb_frames jb' = jb_frames jb
    \<or> r = (if jb_frames jb = [] \<or> fr_ts f < fr_ts (hd (jb_frames jb)) then JB_SCHED else JB_OK)
      \<and> jb_frames jb' = takeWhile (\<lambda>y. fr_ts y \<le> fr_ts f) (jb_frames jb) @ f #
                         dropWhile (\<lambda>y. fr_ts y \<le> fr_ts f) (jb_frames jb)"
proof -
  have "sorted (map fr_ts (jb_frames jb))"
    using jb_reachable_inv [of jb0 ops] assms(1) by (simp add: jb_inv_def)
  from jb_put_link [OF assms(2,3)] jbq.ins_canonical [OF this, of f] show ?thesis
    by (auto split: list.splits)
qed

theorem jb_put_places_witness:
  "map fr_data (jb_frames (fst (jb_put True (foldl jb_step (jb_reset jb_any) jb_ops_ex) 5
     JB_TYPE_VOICE 20 100 170))) = [9, 7, 5, 8]"
proof -
  let ?jb = "foldl jb_step (jb_reset jb_any) jb_ops_ex"
  let ?res = "jb_put True ?jb 5 JB_TYPE_VOICE 20 100 170"
  have *: "map (\<lambda>f. (fr_data f, fr_ts f)) (jb_frames ?jb) = [(9, 80), (7, 100), (8, 120)]"
    "snd ?res = JB_OK" "resync_offset (jb_inf (fst ?res)) = 0"
    by code_simp+
  then obtain a b c where "jb_frames ?jb = [a, b, c]" "fr_data a = 9" "fr_ts a = 80"
    "fr_data b = 7" "fr_ts b = 100" "fr_data c = 8" "fr_ts c = 120"
    by (auto simp: map_eq_Cons_conv)
  moreover have "?res = (fst ?res, JB_OK)"
    using *(2) by (simp add: prod_eq_iff)
  from jb_put_places [OF refl this refl] *(3) calculation show ?thesis
    by (simp add: jb_entry_def)
qed

text \<open>
  C31. As long as every allocation succeeds and the buffer is not drained with \<open>jb_getall\<close>, no
  frame is lost or duplicated: the frames accepted are the frames handed out plus the
  frames still queued.
\<close>

theorem jb_run_conserves:
  assumes "\<forall>e\<in>set ops. jb_op_streaming e"
  shows "frames_in (jb_inf (foldl jb_step (jb_reset jb0) ops)) =
     frames_out (jb_inf (foldl jb_step (jb_reset jb0) ops))
     + int (length (jb_frames (foldl jb_step (jb_reset jb0) ops)))"
proof -
  have "frames_conserved (foldl jb_step jb ops)" if "frames_conserved jb" for jb :: "'a jitterbuf"
    using assms that
    by (induction ops arbitrary: jb) (simp_all add: frames_conserved_step)
  moreover have "frames_conserved (jb_reset jb0)"
    by (simp add: frames_conserved_def jb_reset_def)
  ultimately show ?thesis
    using jb_reachable_inv [of jb0 ops] by (simp add: frames_conserved_def jb_inv_def)
qed

theorem jb_run_conserves_witness:
  "frames_in (jb_inf (foldl jb_step (jb_reset jb_any) jb_ops_ex)) =
     frames_out (jb_inf (foldl jb_step (jb_reset jb_any) jb_ops_ex))
     + int (length (jb_frames (foldl jb_step (jb_reset jb_any) jb_ops_ex)))"
  by (rule jb_run_conserves) (simp add: jb_ops_ex_def)

text \<open>
  C32. Draining a reachable buffer with \<open>jb_getall\<close> hands out every queued frame once, in time
  stamp order, and then reports \<open>JB_NOFRAME\<close>.
\<close>

theorem jb_drain_ordered:
  assumes "jb = foldl jb_step (jb_reset jb0) ops" and "length (jb_frames jb) \<le> n"
  shows "sorted (map fr_ts (jb_drain n jb fo)) \<and> mset (jb_drain n jb fo) = mset (jb_frames jb)"
  using jb_reachable_inv [of jb0 ops] assms by (simp add: jb_drain_take jb_inv_def)

theorem jb_drain_ordered_witness:
  "sorted (map fr_ts (jb_drain 4 (foldl jb_step (jb_reset jb_any) jb_ops_ex)
     \<lparr> fr_data = 0, fr_ts = 0, fr_ms = 0, fr_type = JB_TYPE_CONTROL \<rparr>))"
proof -
  have "length (jb_frames (foldl jb_step (jb_reset jb_any) jb_ops_ex)) = 3"
    by code_simp
  then show ?thesis
    using jb_drain_ordered [OF refl, of jb_any jb_ops_ex 4] by simp
qed

text \<open>
  C33. After every \<open>jb_get\<close> the delay target is the minimum delay plus the jitter and the 40 ms
  extra, where the part above the minimum is cut off at \<open>max_jitterbuf\<close> unless that is 0.
\<close>

theorem jb_get_target_clamped:
  "case jb_get jb fo now interpl of (jb', _) \<Rightarrow>
     let i = jb_inf jb' in
     jb_target i = jb_min i +
       (if max_jitterbuf (jbi_conf i) = 0 then jb_jitter i + 40
        else min (jb_jitter i + 40) (max_jitterbuf (jbi_conf i)))"
  using target_ok_get [of jb fo now interpl]
  by (simp add: target_ok_def Let_def case_prod_beta JB_TARGET_EXTRA_def)

text \<open>
  Resynchronisation: of four consecutive frames whose delay is off by more than the
  threshold, counted from zero, \<open>history_put\<close> rejects three without touching the history; the
  fourth makes the sender's time stamp coincide with the receiver's clock and restarts the
  history with the single delay 0.
\<close>

theorem history_put_resync:
  assumes "hist_wf jb" "resync_threshold (jbi_conf (jb_inf jb)) \<noteq> -1"
    and "cnt_delay_discont (jb_inf jb) = 0"
    and "delay_off jb ts1 now1" "delay_off jb ts2 now2" "delay_off jb ts3 now3" "delay_off jb ts4 now4"
    and "history_put jb ts1 now1 ms1 = (jb1, r1)" "history_put jb1 ts2 now2 ms2 = (jb2, r2)"
    and "history_put jb2 ts3 now3 ms3 = (jb3, r3)" "history_put jb3 ts4 now4 ms4 = (jb4, r4)"
  shows "(r1, r2, r3, r4) = (-1, -1, -1, 0) \<and> hist_window jb3 = hist_window jb
    \<and> hist_window jb4 = [0] \<and> ts4 - resync_offset (jb_inf jb4) = now4
    \<and> cnt_delay_discont (jb_inf jb4) = 0"
proof -
  let ?cnt = "\<lambda>c. jb\<lparr> jb_inf := (jb_inf jb)\<lparr> cnt_delay_discont := c \<rparr> \<rparr>"
  have "jb1 = ?cnt 1" "r1 = -1"
    using assms by (simp_all add: history_put_off)
  moreover have "jb2 = ?cnt 2" "r2 = -1"
    using assms calculation by (simp_all add: history_put_off)
  moreover have "jb3 = ?cnt 3" "r3 = -1"
    using assms calculation by (simp_all add: history_put_off)
  ultimately show ?thesis
    using assms by (auto simp: history_put_off hist_wf_def window_after_resync intro: hist_window_cong)
qed

theorem history_put_resync_witness:
  "(\<lambda>jb. hist_window jb = [0])
     (foldl (\<lambda>jb (ts, now). fst (history_put jb ts now 20)) (jb_reset jb_any)
       [(20, 5020), (40, 5040), (60, 5060), (80, 5080)])"
proof -
  let ?p = "\<lambda>jb ts now. fst (history_put jb ts now 20)"
  let ?q = "\<lambda>jb ts now. snd (history_put jb ts now 20)"
  let ?j0 = "jb_reset jb_any"
  let ?j1 = "?p ?j0 20 5020"
  let ?j2 = "?p ?j1 40 5040"
  let ?j3 = "?p ?j2 60 5060"
  have "delay_off ?j0 20 5020" "delay_off ?j0 40 5040" "delay_off ?j0 60 5060" "delay_off ?j0 80 5080"
    "resync_threshold (jbi_conf (jb_inf ?j0)) \<noteq> -1" "cnt_delay_discont (jb_inf ?j0) = 0"
    by (simp_all add: delay_off_def jb_reset_def jb_any_def c_abs_small)
  from history_put_resync [OF hist_wf_reset this(5,6,1-4) prod.collapse [symmetric]
      prod.collapse [symmetric] prod.collapse [symmetric] prod.collapse [symmetric], of 20 20 20 20]
  show ?thesis by simp
qed

text \<open>
  C38. When no unused frame is left and the allocation of a new one fails, \<open>jb_put\<close> still counts
  the frame as received and returns \<open>JB_OK\<close>, while the queue stays as it was. This holds for frames
  of every type that get as far as the queue: the buffer is not full, and a voice frame is not dropped
  for a sudden change of delay; for a voice frame the delay has then entered the history.
\<close>

theorem jb_put_allocation_failure:
  assumes "jb_free jb = []" "jb_span jb < max_jitterbuf (jbi_conf (jb_inf jb))"
    and "t = JB_TYPE_VOICE \<Longrightarrow> snd (history_put (jb\<lparr> dropem := False \<rparr>) ts now ms) = 0"
    and "jb_put False jb d t ms ts now = (jb', r)"
  shows "r = JB_OK \<and> jb_frames jb' = jb_frames jb \<and>
    jb' = jb_inf_update (frames_in_update (\<lambda>c. c + 1))
      (if t = JB_TYPE_VOICE then fst (history_put (jb\<lparr> dropem := False \<rparr>) ts now ms) else jb\<lparr> dropem := False \<rparr>)"
proof -
  let ?h = "if t = JB_TYPE_VOICE then history_put (jb\<lparr> dropem := False \<rparr>) ts now ms else (jb\<lparr> dropem := False \<rparr>, 0)"
  have h: "snd ?h = 0" "jb_frames (fst ?h) = jb_frames jb" "jb_free (fst ?h) = jb_free jb"
    using assms(3) by simp_all
  have "(if jb_frames jb \<noteq> [] then fr_ts (last (jb_frames jb)) - fr_ts (hd (jb_frames jb)) else 0) = jb_span jb"
    by (simp add: jb_span_def split: list.splits)
  then have "jb_put False jb d t ms ts now = (jb_inf_update (frames_in_update (\<lambda>c. c + 1)) (fst ?h), JB_OK)"
    using assms(1,2) h unfolding jb_put_def by (simp add: queue_put_def Let_def case_prod_beta del: split_paired_All)
  with assms(4) h show ?thesis by (auto simp: if_distrib)
qed

theorem jb_put_allocation_failure_witness:
  "(\<lambda>(jb, r). (jb_frames jb, frames_in (jb_inf jb), r)) (jb_put False (jb_reset jb_any) 1 JB_TYPE_VOICE 20 100 130) = ([], 1, JB_OK)"
proof -
  have "snd (history_put ((jb_reset jb_any)\<lparr> dropem := False \<rparr>) 100 130 20) = 0"
    by (simp add: history_put_def history_put_check_def jb_reset_def jb_any_def c_abs_small Let_def)
  from jb_put_allocation_failure [of "jb_reset jb_any" JB_TYPE_VOICE 100 130 20 1, OF _ _ this prod.collapse [symmetric]]
  show ?thesis
    by (simp add: jb_reset_def jb_any_def jb_span_def case_prod_beta history_put_def history_put_check_def c_abs_small Let_def)
qed

text \<open>
  With \<open>max_jitterbuf\<close> 0, which \<open>jb_get\<close> treats as "no clamp requested", a buffer that
  holds its queue in order rejects every frame.
\<close>

theorem jb_put_zero_max_drops:
  assumes "jb = foldl jb_step (jb_reset jb0) ops" "max_jitterbuf (jbi_conf (jb_inf jb)) = 0"
  shows "snd (jb_put m jb d t ms ts now) = JB_DROP \<and> jb_frames (fst (jb_put m jb d t ms ts now)) = jb_frames jb"
proof -
  have "sorted (map fr_ts (jb_frames jb))"
    using jb_reachable_inv [of jb0 ops] assms(1) by (simp add: jb_inv_def)
  then have "jb_frames jb \<noteq> [] \<longrightarrow> fr_ts (hd (jb_frames jb)) \<le> fr_ts (last (jb_frames jb))"
    by (cases "jb_frames jb") auto
  with assms(2) show ?thesis
    by (simp add: jb_put_def Let_def)
qed

theorem jb_put_zero_max_drops_witness:
  "snd (jb_put True (foldl jb_step (jb_reset jb_any)
     [Op_setconf \<lparr> max_jitterbuf = 0, resync_threshold = 1000, max_contig_interp = 10 \<rparr>])
     1 JB_TYPE_VOICE 20 100 130) = JB_DROP"
  using jb_put_zero_max_drops [OF refl, of jb_any
      "[Op_setconf \<lparr> max_jitterbuf = 0, resync_threshold = 1000, max_contig_interp = 10 \<rparr>]"
      True 1 JB_TYPE_VOICE 20 100 130]
  by (simp add: jb_setconf_def)

end
