(* ===== verification/Udptl_Codec.thy ===== *)
theory Udptl_Codec
  imports Prelude
begin

text \<open>
  The octet codec of UDPTL packets, \<open>decode_length\<close>, \<open>decode_open_type\<close>,
  \<open>encode_length\<close> and \<open>encode_open_type\<close> of \<open>main/udptl.c\<close>.

  \<^item> A decoder reads an array (\<open>buf\<close>, a list of octets) of which the first \<open>limit\<close> octets were
    received. The outer option is \<open>None\<close> when the C code would read outside the array.
    Otherwise the result is the return value, the advanced \<open>*len\<close> and the value stored
    through the output pointer, \<open>None\<close> when nothing was stored.
  \<^item> An encoder fills an array of \<open>buflen\<close> octets from the front; \<open>out\<close> is the part filled so
    far, so that \<open>*len\<close> is \<open>length out\<close>. The outer option is \<open>None\<close> when the C code would
    write behind the array or read behind the data.
  \<^item> An object found by \<open>decode_open_type\<close> is a pair of its offset and its size.
\<close>

section \<open>Operations\<close>

definition put_byte :: "nat \<Rightarrow> byte list \<Rightarrow> int \<Rightarrow> byte list option" where
  "put_byte buflen out v =
     (if length out < buflen then Some (out @ [word_of_int v]) else None)"

definition decode_length :: "byte list \<Rightarrow> nat \<Rightarrow> nat \<Rightarrow> (int \<times> nat \<times> int option) option" where
  "decode_length buf limit len =
     (if len \<ge> limit then Some (-1, len, None)
      else do {
        b \<leftarrow> byte_at buf len;
        if b AND 0x80 = 0 then Some (0, len + 1, Some (uint b))
        else if b AND 0x40 = 0 then
          if len = limit - 1 then Some (-1, len, None)
          else do {
            b2 \<leftarrow> byte_at buf (len + 1);
            Some (0, len + 2, Some (push_bit 8 (uint (b AND 0x3F)) OR uint b2))
          }
        else Some (1, len + 1, Some (push_bit 14 (uint (b AND 0x3F))))
      })"

definition decode_open_type ::
    "byte list \<Rightarrow> nat \<Rightarrow> nat \<Rightarrow> (int \<times> nat \<times> (nat \<times> nat) option) option" where
  "decode_open_type buf limit len =
     do {
       (stat, len, value) \<leftarrow> decode_length buf limit len;
       if stat \<noteq> 0 then Some (-1, len, None)
       else
         let octet_cnt = (case value of None \<Rightarrow> 0 | Some v \<Rightarrow> v) in
         if octet_cnt > 0 then
           if len + nat octet_cnt > limit then Some (-1, len, None)
           else Some (0, len + nat octet_cnt, Some (len, nat octet_cnt))
         else Some (0, len, None)
     }"

definition encode_length :: "nat \<Rightarrow> byte list \<Rightarrow> int \<Rightarrow> (byte list \<times> int) option" where
  "encode_length buflen out value =
     (if value < 0x80 then
        do { out \<leftarrow> put_byte buflen out value; Some (out, value) }
      else if value < 0x4000 then
        do {
          out \<leftarrow> put_byte buflen out (drop_bit 8 (0x8000 OR value) AND 0xFF);
          out \<leftarrow> put_byte buflen out (value AND 0xFF);
          Some (out, value)
        }
      else
        let multiplier = (if value < 0x10000 then drop_bit 14 value else 4) in
        do {
          out \<leftarrow> put_byte buflen out (0xC0 OR multiplier);
          Some (out, push_bit 14 multiplier)
        })"

lemma encode_length_progress:
  assumes "encode_length buflen out value = Some (out', enclen)" and "enclen < value"
  shows "0 < enclen"
proof -
  have "value \<ge> 0x4000"
    using assms by (auto simp: encode_length_def Let_def bind_eq_Some_conv split: if_splits)
  then have "0 < drop_bit 14 value"
    by (simp add: drop_bit_eq_div pos_imp_zdiv_pos_iff)
  with \<open>value \<ge> 0x4000\<close> assms show ?thesis
    by (auto simp: encode_length_def Let_def push_bit_eq_mult bind_eq_Some_conv split: if_splits)
qed

text \<open>The loop of \<open>encode_open_type\<close>; \<open>data\<close> is what is left from \<open>octet_idx\<close> on.\<close>

function encode_fragments ::
    "nat \<Rightarrow> byte list \<Rightarrow> byte list \<Rightarrow> int \<Rightarrow> (byte list \<times> int) option" where
  "encode_fragments buflen out data num_octets =
     (case encode_length buflen out num_octets of
        None \<Rightarrow> None
      | Some (out, enclen) \<Rightarrow>
          if enclen < 0 then Some (out, -1)
          else if enclen + int (length out) > int buflen then Some (out, -1)
          else if nat enclen > length data then None
          else
            let out = out @ take (nat enclen) data in
            if enclen \<ge> num_octets then Some (out, 0)
            else encode_fragments buflen out (drop (nat enclen) data) (num_octets - enclen))"
  by pat_completeness auto
termination
proof (relation "measure (\<lambda>(_, _, _, n). nat n)", goal_cases)
  case (2 buflen out data num_octets x2 out' enclen)
  then have "0 < enclen" by (intro encode_length_progress) auto
  with 2 show ?case by auto
qed simp

declare encode_fragments.simps [simp del]

definition encode_open_type ::
    "nat \<Rightarrow> byte list \<Rightarrow> byte list \<Rightarrow> int \<Rightarrow> (byte list \<times> int) option" where
  "encode_open_type buflen out data num_octets =
     (if num_octets = 0 then encode_fragments buflen out [0] 1
      else encode_fragments buflen out data num_octets)"

section \<open>The encodings\<close>

text \<open>The octets of a length below 16384, and of an object below that length.\<close>

definition len_octets :: "nat \<Rightarrow> byte list" where
  "len_octets n =
     (if n < 128 then [of_nat n] else [of_nat (128 + n div 256), of_nat (n mod 256)])"

definition open_octets :: "byte list \<Rightarrow> byte list" where
  "open_octets d = (if d = [] then [1, 0] else len_octets (length d) @ d)"

lemma len_octets_length: "length (len_octets n) = (if n < 128 then 1 else 2)"
  by (simp add: len_octets_def)

lemma open_octets_length:
  "length (open_octets d) = (if d = [] then 2 else if length d < 128 then length d + 1 else length d + 2)"
  by (simp add: open_octets_def len_octets_length)

lemma two_octet_value:
  assumes "128 \<le> n" "n < 16384"
  shows "drop_bit 8 (0x8000 OR int n) AND 0xFF = int (128 + n div 256)"
    and "int n AND 0xFF = int (n mod 256)"
proof -
  have "0x8000 OR int n = 0x8000 + int n"
  proof -
    have "0x8000 AND int n = 0"
    proof (rule bit_eqI)
      fix k
      have "(2::int) ^ 14 > int n" using assms by simp
      then have "\<not> bit (int n) 15"
        by (simp add: bit_iff_odd zdiv_eq_0_iff)
      then show "bit (0x8000 AND int n) k = bit (0::int) k"
        using bit_push_bit_iff [of 15 1 k] by (auto simp: bit_and_iff push_bit_eq_mult bit_1_iff)
    qed
    then show ?thesis using plus_and_or [of "0x8000" "int n"] by simp
  qed
  then have "drop_bit 8 (0x8000 OR int n) = int (128 + n div 256)"
    by (simp add: drop_bit_eq_div zdiv_int)
  moreover have "int (128 + n div 256) AND 0xFF = int (128 + n div 256) mod 256"
    using take_bit_eq_mask [of 8 "int (128 + n div 256)"] by (simp add: take_bit_eq_mod mask_eq_exp_minus_1)
  ultimately show "drop_bit 8 (0x8000 OR int n) AND 0xFF = int (128 + n div 256)"
    using assms by simp
  show "int n AND 0xFF = int (n mod 256)"
    using take_bit_eq_mask [of 8 "int n"] by (simp add: take_bit_eq_mod mask_eq_exp_minus_1 zmod_int)
qed

lemma encode_length_octets:
  assumes "n < 16384"
  shows "encode_length buflen out (int n) =
    (if length out + length (len_octets n) \<le> buflen then Some (out @ len_octets n, int n) else None)"
  using assms two_octet_value [of n]
  by (auto simp: encode_length_def put_byte_def len_octets_def bind_eq_None_conv)

lemma encode_open_type_octets:
  assumes "length d < 16384"
  shows "encode_open_type buflen out d (int (length d)) =
    (if length out + length (open_octets d) \<le> buflen then Some (out @ open_octets d, 0)
     else if length out + length (len_octets (length (if d = [] then [0] else d))) \<le> buflen
     then Some (out @ len_octets (length (if d = [] then [0] else d)), -1) else None)"
proof -
  define e where "e = (if d = [] then [0] else d :: byte list)"
  have "length e < 16384" "e \<noteq> []" using assms by (auto simp: e_def)
  have "encode_open_type buflen out d (int (length d)) =
      encode_fragments buflen out e (int (length e))"
    by (simp add: encode_open_type_def e_def)
  moreover have "open_octets d = len_octets (length e) @ e"
    by (simp add: open_octets_def e_def len_octets_def)
  moreover have "encode_fragments buflen out e (int (length e)) =
    (if length out + length (len_octets (length e)) + length e \<le> buflen
     then Some (out @ len_octets (length e) @ e, 0)
     else if length out + length (len_octets (length e)) \<le> buflen
     then Some (out @ len_octets (length e), -1) else None)"
    using \<open>length e < 16384\<close>
    by (subst encode_fragments.simps) (simp add: encode_length_octets Let_def)
  ultimately show ?thesis
    by (simp add: e_def [symmetric])
qed

lemma byte_at_append: "byte_at (pre @ b # post) (length pre) = Some b"
  by (simp add: byte_at_def)

lemma octet_low: "n < 128 \<Longrightarrow> (of_nat n :: byte) AND 0x80 = 0 \<and> uint (of_nat n :: byte) = int n"
proof -
  assume n: "n < 128"
  then have u: "uint (of_nat n :: byte) = int n"
    by (simp add: uint_word_of_int_eq unsigned_of_nat take_bit_nat_eq_self)
  have "uint ((of_nat n :: byte) AND 0x80) = int n AND 0x80"
    by (simp add: uint_and u)
  also have "\<dots> = 0"
  proof (rule bit_eqI)
    fix k
    have "\<not> bit (int n) 7"
      using n by (simp add: bit_iff_odd zdiv_eq_0_iff)
    then show "bit (int n AND 0x80) k = bit (0::int) k"
      using bit_push_bit_iff [of 7 1 k] by (auto simp: bit_and_iff push_bit_eq_mult bit_1_iff)
  qed
  finally show ?thesis
    using u by (simp add: uint_0_iff)
qed

lemma octet_high_all: "\<forall>k\<in>{0..<64::nat}. (of_nat (128 + k) :: byte) AND 0x80 \<noteq> 0
    \<and> (of_nat (128 + k) :: byte) AND 0x40 = 0 \<and> uint ((of_nat (128 + k) :: byte) AND 0x3F) = int k"
  by (simp add: atLeastLessThan_upt upt_rec)

lemma octet_high:
  assumes "k < 64"
  shows "(of_nat (128 + k) :: byte) AND 0x80 \<noteq> 0" "(of_nat (128 + k) :: byte) AND 0x40 = 0"
    "uint ((of_nat (128 + k) :: byte) AND 0x3F) = int k"
  using octet_high_all assms by auto

lemma push_or_octet:
  "push_bit 8 (int (n div 256)) OR uint (of_nat (n mod 256) :: byte) = int n"
proof -
  have u: "uint (of_nat (n mod 256) :: byte) = int (n mod 256)"
    by (simp add: uint_word_of_int_eq unsigned_of_nat take_bit_nat_eq_self)
  have "push_bit 8 (int (n div 256)) AND int (n mod 256) = 0"
  proof (rule bit_eqI)
    fix k
    have "\<not> bit (int (n mod 256)) k" if "8 \<le> k"
    proof -
      have "int (n mod 256) < 2 ^ 8" by simp
      also have "(2::int) ^ 8 \<le> 2 ^ k" using that by (intro power_increasing) auto
      finally show ?thesis by (simp add: bit_iff_odd zdiv_eq_0_iff)
    qed
    then show "bit (push_bit 8 (int (n div 256)) AND int (n mod 256)) k = bit (0::int) k"
      by (auto simp: bit_and_iff bit_push_bit_iff)
  qed
  then have "push_bit 8 (int (n div 256)) OR int (n mod 256) = push_bit 8 (int (n div 256)) + int (n mod 256)"
    using plus_and_or [of "push_bit 8 (int (n div 256))" "int (n mod 256)"] by simp
  also have "\<dots> = int n"
    by (simp add: push_bit_eq_mult zdiv_int zmod_int)
  finally show ?thesis by (simp add: u)
qed

lemma decode_length_octets:
  assumes "n < 16384" "length pre + length (len_octets n) \<le> limit"
  shows "decode_length (pre @ len_octets n @ post) limit (length pre) =
    Some (0, length pre + length (len_octets n), Some (int n))"
proof (cases "n < 128")
  case True
  with assms octet_low [OF True] show ?thesis
    by (simp add: decode_length_def len_octets_def byte_at_append)
next
  case False
  then have "n div 256 < 64" using assms(1) by linarith
  note high = octet_high [OF this]
  have "byte_at (pre @ len_octets n @ post) (length pre + 1) = Some (of_nat (n mod 256))"
    using False by (simp add: byte_at_def len_octets_def nth_append)
  with False assms high push_or_octet [of n] show ?thesis
    by (simp add: decode_length_def len_octets_def byte_at_append)
qed

lemma decode_open_type_octets:
  assumes "length d < 16384" "length pre + length (open_octets d) \<le> limit"
  shows "decode_open_type (pre @ open_octets d @ post) limit (length pre) =
    (let e = (if d = [] then [0] else d); off = length pre + length (len_octets (length e))
     in Some (0, off + length e, Some (off, length e)))"
proof -
  define e where "e = (if d = [] then [0] else d :: byte list)"
  have e: "length e < 16384" "e \<noteq> []" "open_octets d = len_octets (length e) @ e"
    using assms by (auto simp: e_def open_octets_def len_octets_def)
  with assms(2) decode_length_octets [of "length e" pre limit "e @ post"] show ?thesis
    by (simp add: decode_open_type_def e_def [symmetric] Let_def)
qed

section \<open>Bounds\<close>

lemma decode_length_cases:
  assumes "decode_length buf limit len = Some (stat, len', value)"
  obtains (fail) "stat = -1" "len' = len" "value = None"
  | (short) v where "stat = 0" "value = Some v" "0 \<le> v" "v < 16384" "len < len'" "len' \<le> limit"
      "len' \<le> len + 2"
  | (fragment) v where "stat = 1" "value = Some v" "0 \<le> v" "len' = len + 1" "len' \<le> limit"
proof -
  have six: "uint (b AND 0x3F :: byte) < 64" for b
  proof -
    have "uint (b AND 0x3F :: byte) = uint b AND 0x3F" by (simp add: uint_and)
    also have "\<dots> < 64" using AND_upper2 [of "0x3F" "uint b"] by simp
    finally show ?thesis .
  qed
  have "push_bit 8 (uint (b AND 0x3F :: byte)) OR uint (c :: byte) < 2 ^ 14" for b c
    using six [of b] uint_lt2p [of c]
    by (intro OR_upper) (auto simp: push_bit_eq_mult)
  moreover have "uint (b :: byte) < 2 ^ 14" for b
    using uint_lt2p [of b] by simp
  ultimately show thesis
    using assms
    by (auto simp: decode_length_def bind_eq_Some_conv split: if_splits intro: that)
qed

lemma decode_length_defined: "limit \<le> length buf \<Longrightarrow> decode_length buf limit len \<noteq> None"
  by (auto simp: decode_length_def byte_at_def)

lemma decode_open_type_defined: "limit \<le> length buf \<Longrightarrow> decode_open_type buf limit len \<noteq> None"
  using decode_length_defined [of limit buf len]
  by (auto simp: decode_open_type_def Let_def split: option.splits)

lemma decode_open_type_cases:
  assumes "decode_open_type buf limit len = Some (stat, len', obj)"
  obtains (fail) "stat = -1" "obj = None"
  | (empty) "stat = 0" "obj = None" "len < len'" "len' \<le> limit"
  | (object) off n where "stat = 0" "obj = Some (off, n)" "0 < n" "n < 16384"
      "len < off" "off + n = len'" "len' \<le> limit"
proof -
  obtain st l v where d: "decode_length buf limit len = Some (st, l, v)"
    using assms by (cases "decode_length buf limit len") (auto simp: decode_open_type_def)
  from d show thesis
  proof (cases rule: decode_length_cases)
    case (short w)
    with assms d show thesis
      by (cases "w > 0"; cases "l + nat w > limit")
        (auto simp: decode_open_type_def Let_def intro: that)
  qed (use assms d in \<open>auto simp: decode_open_type_def intro: that\<close>)
qed

lemma encode_length_bounds:
  "encode_length buflen out v = Some (out', r) \<Longrightarrow>
   length out' \<le> buflen \<and> (\<exists>bs. out' = out @ bs \<and> 0 < length bs \<and> length bs \<le> 2)"
  by (auto simp: encode_length_def put_byte_def Let_def bind_eq_Some_conv split: if_splits)

lemma encode_fragments_bounds:
  "encode_fragments buflen out data n = Some (out', r) \<Longrightarrow>
   length out' \<le> buflen \<and> (\<exists>bs. out' = out @ bs \<and> 0 < length bs) \<and> (r = 0 \<or> r = -1)"
proof (induction buflen out data n rule: encode_fragments.induct)
  case (1 buflen out data n)
  obtain o1 enclen where e: "encode_length buflen out n = Some (o1, enclen)"
    using "1.prems" by (cases "encode_length buflen out n") (auto simp: encode_fragments.simps)
  obtain bs where bs: "o1 = out @ bs" "0 < length bs" "length o1 \<le> buflen"
    using encode_length_bounds [OF e] by blast
  show ?case
  proof (cases "enclen < 0 \<or> enclen + int (length o1) > int buflen \<or> nat enclen > length data \<or> enclen \<ge> n")
    case True
    with "1.prems" e bs show ?thesis
      by (subst (asm) encode_fragments.simps) (auto simp: Let_def split: if_splits)
  next
    case False
    then have "encode_fragments buflen (o1 @ take (nat enclen) data) (drop (nat enclen) data) (n - enclen)
        = Some (out', r)"
      using "1.prems" e by (subst (asm) encode_fragments.simps) (simp add: Let_def)
    with "1.IH" [OF e refl] False bs show ?thesis by fastforce
  qed
qed

section \<open>Properties\<close>

text \<open>
  C34. Encoding an object of 1 to 16383 octets and decoding it at the same position gives the
  object back and ends where the encoder stopped, whatever follows in the array.
\<close>

theorem open_type_roundtrip:
  assumes "d \<noteq> []" and "length d < 16384"
    and "encode_open_type buflen out d (int (length d)) = Some (out', 0)" and "length out' \<le> limit"
  shows "\<exists>off. decode_open_type (out' @ post) limit (length out) = Some (0, length out', Some (off, length d))
    \<and> take (length d) (drop off (out' @ post)) = d"
proof -
  have out': "out' = out @ open_octets d"
    using assms(2,3) by (auto simp: encode_open_type_octets split: if_splits)
  with assms decode_open_type_octets [of d out limit post] show ?thesis
    by (simp add: open_octets_def Let_def)
qed

theorem open_type_roundtrip_witness:
  "\<exists>off. decode_open_type [9, 3, 5, 6, 7, 0] 6 1 = Some (0, 5, Some (off, 3))"
  using open_type_roundtrip [of "[5, 6, 7]" 10 "[9]" "[9, 3, 5, 6, 7]" 6 "[0]"]
  by (auto simp: encode_open_type_octets [of "[5, 6, 7]", simplified] open_octets_def len_octets_def)

text \<open>
  On any array that contains the received octets the decoder of an object stays inside the
  received part: it reads no octet outside the array, and an object it reports lies between
  the current position and the limit and has at most 16383 octets.
\<close>

theorem decode_open_type_in_bounds:
  assumes "limit \<le> length buf"
  shows "\<exists>stat len' obj. decode_open_type buf limit len = Some (stat, len', obj) \<and> (stat = 0 \<or> stat = -1)
    \<and> (case obj of None \<Rightarrow> True
       | Some (off, n) \<Rightarrow> stat = 0 \<and> len < off \<and> off + n = len' \<and> len' \<le> limit \<and> 0 < n \<and> n < 16384)"
proof -
  obtain stat len' obj where d: "decode_open_type buf limit len = Some (stat, len', obj)"
    using decode_open_type_defined [OF assms, of len] by (cases "decode_open_type buf limit len") auto
  from d show ?thesis
    by (cases rule: decode_open_type_cases) (use d in auto)
qed

theorem decode_open_type_in_bounds_witness:
  "\<exists>stat len' obj. decode_open_type [3, 5, 6, 7] 4 0 = Some (stat, len', obj) \<and> (stat = 0 \<or> stat = -1)
    \<and> (case obj of None \<Rightarrow> True
       | Some (off, n) \<Rightarrow> stat = 0 \<and> 0 < off \<and> off + n = len' \<and> len' \<le> 4 \<and> 0 < n \<and> n < 16384)"
  using decode_open_type_in_bounds [of 4 "[3, 5, 6, 7]" 0] by simp

text \<open>
  An object of 16384 or more octets is encoded in fragments, and the decoder refuses what
  the encoder produced for it.
\<close>

theorem fragmented_open_type_rejected:
  assumes "16384 \<le> length d"
    and "encode_open_type buflen out d (int (length d)) = Some (out', 0)" and "length out' \<le> limit"
  shows "\<exists>len'. decode_open_type (out' @ post) limit (length out) = Some (-1, len', None)"
proof -
  let ?n = "int (length d)"
  define m where "m = (if ?n < 0x10000 then drop_bit 14 ?n else 4)"
  have m: "0 < m" "m \<le> 4"
    using assms(1) by (auto simp: m_def drop_bit_eq_div)
  then have "m \<in> {1, 2, 3, 4}" by auto
  then have byte: "(word_of_int (0xC0 OR m) :: byte) AND 0x80 \<noteq> 0"
    "(word_of_int (0xC0 OR m) :: byte) AND 0x40 \<noteq> 0"
    by auto
  have "encode_fragments buflen out d ?n = Some (out', 0)"
    using assms(1,2) by (cases "d = []") (simp_all add: encode_open_type_def)
  moreover have "encode_length buflen out ?n =
      (if length out < buflen then Some (out @ [word_of_int (0xC0 OR m)], push_bit 14 m) else None)"
    using assms(1) by (simp add: encode_length_def Let_def put_byte_def m_def)
  ultimately have "\<exists>bs. out' = out @ [word_of_int (0xC0 OR m)] @ bs"
    by (subst (asm) encode_fragments.simps)
      (auto simp: Let_def split: if_splits dest!: encode_fragments_bounds)
  then obtain bs where "out' = out @ word_of_int (0xC0 OR m) # bs" by auto
  with assms(3) byte show ?thesis
    by (simp add: decode_open_type_def decode_length_def byte_at_def nth_append)
qed

lemma encode_16384:
  "length d = 16384 \<Longrightarrow> encode_open_type 20000 [] d (int (length d)) = Some (0xC1 # d, 0)"
  by (simp add: encode_open_type_def encode_fragments.simps [of _ _ d] encode_length_def
      put_byte_def Let_def drop_bit_eq_div push_bit_eq_mult)

theorem fragmented_open_type_rejected_witness:
  "\<exists>len'. decode_open_type ((0xC1 # replicate 16384 7) @ []) 16385 0 = Some (-1, len', None)"
proof -
  let ?d = "replicate 16384 (7 :: byte)"
  have "length ?d = 16384" by (rule length_replicate)
  from fragmented_open_type_rejected [OF eq_imp_le [OF this [symmetric]] encode_16384 [OF this], of 16385 "[]"]
  show ?thesis by simp
qed

end
