(* ===== verification/Udptl.thy ===== *)
theory Udptl
  imports Udptl_Codec
begin

text \<open>
  UDPTL, the transport of T.38 fax over UDP: the packet builder and the packet receiver of
  \<open>main/udptl.c\<close>, with their two schemes of error recovery.

  \<^item> \<open>ast_udptl\<close> keeps the fields of the struct that the operations of the file read; the
    fields that nothing reads (\<open>resp\<close>, \<open>lasteventseqn\<close>, \<open>flags\<close>, \<open>far\<close>) are left out. The
    circular buffers \<open>tx\<close> and \<open>rx\<close> are lists of 16 slots.
  \<^item> The receiver returns the new state, the C return value, and the frames chained from
    \<open>s->f[0]\<close>, each with the octets its data pointer designates on return. \<open>None\<close> stands
    for an access outside an array, a copy from a null pointer, or the use of an
    uninitialised variable. A \<open>memcpy\<close> of no octets does nothing.
  \<^item> The loops that walk the circular buffer until an index is hit are \<open>ring_walk\<close>, with fuel;
    the walk is shown to end within the fuel it is given.
\<close>

section \<open>Data\<close>

definition LOCAL_FAX_MAX_DATAGRAM :: nat where "LOCAL_FAX_MAX_DATAGRAM = 1400"
definition MAX_FEC_ENTRIES :: int where "MAX_FEC_ENTRIES = 5"
definition MAX_FEC_SPAN :: int where "MAX_FEC_SPAN = 5"
definition UDPTL_BUF_MASK :: int where "UDPTL_BUF_MASK = 15"

lemmas udptl_consts = LOCAL_FAX_MAX_DATAGRAM_def MAX_FEC_ENTRIES_def MAX_FEC_SPAN_def UDPTL_BUF_MASK_def

datatype udptl_error_correction =
    UDPTL_ERROR_CORRECTION_NONE
  | UDPTL_ERROR_CORRECTION_FEC
  | UDPTL_ERROR_CORRECTION_REDUNDANCY

record udptl_fec_tx_buffer =
  tx_buf_len :: int
  tx_buf :: "byte list"

record udptl_fec_rx_buffer =
  rx_buf_len :: int
  rx_buf :: "byte list"
  rx_fec_len :: "int list"
  rx_fec :: "byte list list"
  rx_fec_span :: int
  rx_fec_entries :: int

record sockaddr_in =
  sin_addr :: "32 word"
  sin_port :: "16 word"

record ast_udptl =
  u_fd :: int
  u_nat :: bool
  u_us :: sockaddr_in
  u_them :: sockaddr_in
  u_ioid :: bool
  udptl_offered_from_local :: int
  error_correction_scheme :: udptl_error_correction
  error_correction_entries :: int
  error_correction_span :: int
  far_max_datagram_size :: int
  local_max_datagram_size :: int
  tx_seq_no :: int
  rx_seq_no :: int
  u_tx :: "udptl_fec_tx_buffer list"
  u_rx :: "udptl_fec_rx_buffer list"

text \<open>The T.38 frames handed to the caller.\<close>

record t38_frame =
  t_seqno :: int
  t_datalen :: int
  t_data :: "byte list"

section \<open>Walking the circular buffer\<close>

text \<open>
  The values of \<open>k\<close> in \<open>for (k = start; k != limit; k = (k + step) & UDPTL_BUF_MASK)\<close>.
\<close>

fun ring_walk :: "nat \<Rightarrow> int \<Rightarrow> int \<Rightarrow> int \<Rightarrow> int list option" where
  "ring_walk 0 step k limit = None"
| "ring_walk (Suc fuel) step k limit =
     (if k = limit then Some []
      else map_option ((#) k) (ring_walk fuel step ((k + step) AND UDPTL_BUF_MASK) limit))"

section \<open>Receiving: secondary packets\<close>

text \<open>The inner \<open>for\<close> loop: \<open>n\<close> more entries; an entry of zero length leaves its slot unset.\<close>

fun read_entries ::
    "byte list \<Rightarrow> nat \<Rightarrow> nat \<Rightarrow> nat \<Rightarrow> (nat \<times> nat) option list
      \<Rightarrow> (int \<times> nat \<times> (nat \<times> nat) option list) option" where
  "read_entries buf len ptr 0 entries = Some (0, ptr, entries)"
| "read_entries buf len ptr (Suc n) entries =
     (case decode_open_type buf len ptr of
        None \<Rightarrow> None
      | Some (stat, ptr, obj) \<Rightarrow>
          if stat \<noteq> 0 then Some (-1, ptr, entries)
          else read_entries buf len ptr n (entries @ [obj]))"

lemma read_entries_ptr:
  "read_entries buf len ptr n es = Some (stat, ptr', es') \<Longrightarrow> stat = 0 \<Longrightarrow> ptr \<le> ptr'"
proof (induction n arbitrary: ptr es)
  case (Suc n)
  obtain st p obj where d: "decode_open_type buf len ptr = Some (st, p, obj)"
    using Suc.prems by (cases "decode_open_type buf len ptr") auto
  then have "ptr \<le> p" if "st = 0"
    using that by (cases rule: decode_open_type_cases) auto
  with Suc d show ?case
    by (auto split: if_splits intro: le_trans)
qed simp

text \<open>The \<open>do ... while\<close> loop; there are 15 slots for secondary packets.\<close>

function read_secondary ::
    "byte list \<Rightarrow> nat \<Rightarrow> nat \<Rightarrow> (nat \<times> nat) option list
      \<Rightarrow> (int \<times> (nat \<times> nat) option list) option" where
  "read_secondary buf len ptr entries =
     (case decode_length buf len ptr of
        None \<Rightarrow> None
      | Some (stat2, ptr, value) \<Rightarrow>
          if stat2 < 0 then Some (-1, entries)
          else
            let count = (case value of None \<Rightarrow> 0 | Some v \<Rightarrow> nat v) in
            case read_entries buf len ptr (min count (15 - length entries)) entries of
              None \<Rightarrow> None
            | Some (stat, ptr, entries) \<Rightarrow>
                if stat \<noteq> 0 then Some (-1, entries)
                else if stat2 > 0 \<and> length entries < 15 then read_secondary buf len ptr entries
                else Some (0, entries))"
  by pat_completeness auto
termination
proof (relation "measure (\<lambda>(_, len, ptr, _). len - ptr)", goal_cases)
  case (2 buf len ptr entries r stat2 r1 ptr1 val count r2 stat r3 ptr2 entries')
  then have "decode_length buf len ptr = Some (stat2, ptr1, val)" "0 \<le> stat2" by auto
  then have "ptr < ptr1 \<and> ptr1 \<le> len"
    by (cases rule: decode_length_cases) auto
  moreover have "ptr1 \<le> ptr2"
    using 2 by (intro read_entries_ptr) auto
  ultimately show ?case by auto
qed simp

declare read_secondary.simps [simp del]

text \<open>The frame for the object at an offset of the packet.\<close>

definition t38_of :: "byte list \<Rightarrow> int \<Rightarrow> nat \<times> nat \<Rightarrow> t38_frame" where
  "t38_of buf seqno obj =
     (case obj of (off, n) \<Rightarrow>
        \<lparr> t_seqno = seqno, t_datalen = int n, t_data = take n (drop off buf) \<rparr>)"

text \<open>Stepping through the secondary packets in reverse order.\<close>

fun play_secondary ::
    "byte list \<Rightarrow> int \<Rightarrow> int \<Rightarrow> (nat \<times> nat) option list \<Rightarrow> nat \<Rightarrow> t38_frame list option" where
  "play_secondary buf seq_no rx_no entries 0 = Some []"
| "play_secondary buf seq_no rx_no entries (Suc i) =
     (if seq_no - int (Suc i) \<ge> rx_no then
        case entries ! i of
          None \<Rightarrow> None
        | Some obj \<Rightarrow>
            map_option ((#) (t38_of buf (seq_no - int (Suc i)) obj))
              (play_secondary buf seq_no rx_no entries i)
      else play_secondary buf seq_no rx_no entries i)"

text \<open>The end of the receiver: the primary packet.\<close>

definition rx_primary ::
    "ast_udptl \<Rightarrow> byte list \<Rightarrow> int \<Rightarrow> (nat \<times> nat) option \<Rightarrow> t38_frame list
      \<Rightarrow> ast_udptl \<times> int \<times> t38_frame list" where
  "rx_primary s buf seq_no ifp frames =
     (let frames =
        (if seq_no \<ge> rx_seq_no s
         then frames @ [case ifp of
             None \<Rightarrow> \<lparr> t_seqno = seq_no, t_datalen = 0, t_data = [] \<rparr>
           | Some obj \<Rightarrow> t38_of buf seq_no obj]
         else frames)
      in (s\<lparr> rx_seq_no := seq_no + 1 \<rparr>, int (length frames), frames))"

definition rx_secondary ::
    "ast_udptl \<Rightarrow> byte list \<Rightarrow> nat \<Rightarrow> nat \<Rightarrow> int \<Rightarrow> (nat \<times> nat) option
      \<Rightarrow> (ast_udptl \<times> int \<times> t38_frame list) option" where
  "rx_secondary s buf len ptr seq_no ifp =
     (if seq_no > rx_seq_no s then
        do {
          (stat, entries) \<leftarrow> read_secondary buf len ptr [];
          if stat \<noteq> 0 then Some (s, -1, [])
          else do {
            frames \<leftarrow> play_secondary buf seq_no (rx_seq_no s) entries (length entries);
            Some (rx_primary s buf seq_no ifp frames)
          }
        }
      else Some (rx_primary s buf seq_no ifp []))"

section \<open>Receiving: forward error correction\<close>

text \<open>Marking the slots of the packets between \<open>rx_seq_no\<close> and the packet received as missing.\<close>

fun mark_missed ::
    "nat \<Rightarrow> udptl_fec_rx_buffer list \<Rightarrow> int \<Rightarrow> udptl_fec_rx_buffer list \<times> int" where
  "mark_missed 0 rx rx_no = (rx, rx_no)"
| "mark_missed (Suc n) rx rx_no =
     (let x = nat (rx_no AND UDPTL_BUF_MASK)
      in mark_missed n
           (rx[x := (rx ! x)\<lparr> rx_buf_len := -1, rx_fec_len := (rx_fec_len (rx ! x))[0 := 0],
                               rx_fec_span := 0, rx_fec_entries := 0 \<rparr>])
           (rx_no + 1))"

definition memcpy_from :: "byte list \<Rightarrow> nat option \<Rightarrow> int \<Rightarrow> byte list \<Rightarrow> byte list option" where
  "memcpy_from buf src n dst =
     (if n = 0 then Some dst
      else if n < 0 then None
      else case src of
          None \<Rightarrow> None
        | Some off \<Rightarrow>
            if off + nat n \<le> length buf \<and> nat n \<le> length dst
            then Some (take (nat n) (drop off buf) @ drop (nat n) dst) else None)"

text \<open>
  Decoding the FEC elements \<open>i\<close>, \<open>i + 1\<close>, \<open>...\<close> (\<open>n\<close> of them) into the slot. An element of
  zero length leaves \<open>data\<close> and \<open>fec_len[i]\<close> as they were.
\<close>

fun read_fec ::
    "byte list \<Rightarrow> nat \<Rightarrow> nat \<Rightarrow> nat \<Rightarrow> nat \<Rightarrow> nat option \<Rightarrow> udptl_fec_rx_buffer
      \<Rightarrow> (int \<times> udptl_fec_rx_buffer) option" where
  "read_fec buf len 0 i ptr data b = Some (0, b)"
| "read_fec buf len (Suc n) i ptr data b =
     (case decode_open_type buf len ptr of
        None \<Rightarrow> None
      | Some (stat, ptr, obj) \<Rightarrow>
          if stat \<noteq> 0 then Some (-1, b)
          else
            let data = (case obj of None \<Rightarrow> data | Some (off, k) \<Rightarrow> Some off);
                b = (case obj of None \<Rightarrow> b
                     | Some (off, k) \<Rightarrow> b\<lparr> rx_fec_len := (rx_fec_len b)[i := int k] \<rparr>)
            in if rx_fec_len b ! i > int LOCAL_FAX_MAX_DATAGRAM then Some (-1, b)
               else case memcpy_from buf data (rx_fec_len b ! i) (rx_fec b ! i) of
                   None \<Rightarrow> None
                 | Some fec \<Rightarrow> read_fec buf len n (i + 1) ptr data (b\<lparr> rx_fec := (rx_fec b)[i := fec] \<rparr>))"

text \<open>
  The slot a FEC element can repair: \<open>-1\<close> when nothing of the group is missing, \<open>-2\<close> when
  more than one packet is.
\<close>

definition fec_which :: "udptl_fec_rx_buffer list \<Rightarrow> int list \<Rightarrow> int" where
  "fec_which rx ks =
     foldl (\<lambda>which k. if rx_buf_len (rx ! nat k) \<le> 0 then if which = -1 then k else -2 else which)
       (-1) ks"

text \<open>
  Octet \<open>j\<close> of the repaired packet. The slot under repair has \<open>buf_len \<le> 0\<close>, so that it
  contributes nothing although it is a member of the group.
\<close>

definition fec_byte :: "udptl_fec_rx_buffer list \<Rightarrow> int list \<Rightarrow> byte list \<Rightarrow> nat \<Rightarrow> byte" where
  "fec_byte rx ks fec j =
     foldl (\<lambda>v k. v XOR (if rx_buf_len (rx ! nat k) > int j then rx_buf (rx ! nat k) ! j else 0))
       (fec ! j) ks"

definition repair_entry ::
    "udptl_fec_rx_buffer list \<times> bool list \<Rightarrow> int \<Rightarrow> nat
      \<Rightarrow> (udptl_fec_rx_buffer list \<times> bool list) option" where
  "repair_entry rr l m =
     (case rr of (rx, repaired) \<Rightarrow>
      let b = rx ! nat l;
          limit = (l + int m) AND UDPTL_BUF_MASK;
          start = (limit - rx_fec_span b * rx_fec_entries b) AND UDPTL_BUF_MASK
      in do {
        ks \<leftarrow> ring_walk 256 (rx_fec_entries b) start limit;
        let which = fec_which rx ks;
        let n = rx_fec_len b ! m;
        if which \<ge> 0 then
          if n > int LOCAL_FAX_MAX_DATAGRAM then None
          else
            let w = nat which;
                new = map (fec_byte rx ks (rx_fec b ! m)) [0..<nat n] @ drop (nat n) (rx_buf (rx ! w))
            in Some (rx[w := (rx ! w)\<lparr> rx_buf := new, rx_buf_len := n \<rparr>], repaired[w := True])
        else Some (rx, repaired)
      })"

fun repair_entries ::
    "nat \<Rightarrow> nat \<Rightarrow> int \<Rightarrow> udptl_fec_rx_buffer list \<times> bool list
      \<Rightarrow> (udptl_fec_rx_buffer list \<times> bool list) option" where
  "repair_entries 0 m l rr = Some rr"
| "repair_entries (Suc n) m l rr =
     (case repair_entry rr l m of None \<Rightarrow> None | Some rr \<Rightarrow> repair_entries n (m + 1) l rr)"

fun repair_slots ::
    "int list \<Rightarrow> udptl_fec_rx_buffer list \<times> bool list
      \<Rightarrow> (udptl_fec_rx_buffer list \<times> bool list) option" where
  "repair_slots [] rr = Some rr"
| "repair_slots (l # ls) rr =
     (if rx_fec_len (fst rr ! nat l) ! 0 \<le> 0 then repair_slots ls rr
      else case repair_entries (nat (rx_fec_entries (fst rr ! nat l))) 0 l rr of
          None \<Rightarrow> None
        | Some rr \<Rightarrow> repair_slots ls rr)"

definition play_repaired ::
    "udptl_fec_rx_buffer list \<Rightarrow> bool list \<Rightarrow> int \<Rightarrow> int list \<Rightarrow> t38_frame list" where
  "play_repaired rx repaired seq_no ls =
     map (\<lambda>(l, j). \<lparr> t_seqno = j, t_datalen = rx_buf_len (rx ! nat l),
                     t_data = take (nat (rx_buf_len (rx ! nat l))) (rx_buf (rx ! nat l)) \<rparr>)
       (filter (\<lambda>(l, j). repaired ! nat l)
         (zip ls (map (\<lambda>i. seq_no - UDPTL_BUF_MASK + int i) [0..<length ls])))"

text \<open>The header of the FEC part: span and number of entries, with the early returns.\<close>

definition read_fec_part ::
    "byte list \<Rightarrow> nat \<Rightarrow> nat \<Rightarrow> udptl_fec_rx_buffer
      \<Rightarrow> (int \<times> int \<times> int \<times> udptl_fec_rx_buffer) option" where
  "read_fec_part buf len ptr b =
     (if ptr + 2 > len then Some (-1, 0, 0, b)
      else do {
        one \<leftarrow> byte_at buf ptr;
        if one \<noteq> 1 then Some (-1, 0, 0, b)
        else do {
          sp \<leftarrow> byte_at buf (ptr + 1);
          let span = uint sp;
          let b = b\<lparr> rx_fec_span := span \<rparr>;
          if ptr + 3 > len then Some (-1, span, 0, b)
          else do {
            en \<leftarrow> byte_at buf (ptr + 2);
            let entries = uint en;
            if entries > MAX_FEC_ENTRIES then Some (-1, span, entries, b)
            else do {
              (stat, b) \<leftarrow> read_fec buf len (nat entries) 0 (ptr + 3) None
                             (b\<lparr> rx_fec_entries := entries \<rparr>);
              Some (stat, span, entries, b)
            }
          }
        }
      })"

definition rx_fec_mode ::
    "ast_udptl \<Rightarrow> byte list \<Rightarrow> nat \<Rightarrow> nat \<Rightarrow> int \<Rightarrow> (nat \<times> nat) option
      \<Rightarrow> (ast_udptl \<times> int \<times> t38_frame list) option" where
  "rx_fec_mode s buf len ptr seq_no ifp =
     (let ifp_len = (case ifp of None \<Rightarrow> 0 | Some (off, n) \<Rightarrow> int n) in
      if ifp_len > int LOCAL_FAX_MAX_DATAGRAM then Some (s, -1, [])
      else
        let (rx, rx_no) = mark_missed (nat (seq_no - rx_seq_no s)) (u_rx s) (rx_seq_no s);
            x = seq_no AND UDPTL_BUF_MASK
        in do {
          saved \<leftarrow> memcpy_from buf (map_option fst ifp) ifp_len (rx_buf (rx ! nat x));
          (stat, span, entries, b) \<leftarrow> read_fec_part buf len ptr
             ((rx ! nat x)\<lparr> rx_buf := saved, rx_buf_len := ifp_len \<rparr>);
          let rx = rx[nat x := b];
          if stat \<noteq> 0 then Some (s\<lparr> u_rx := rx, rx_seq_no := rx_no \<rparr>, -1, [])
          else do {
            ls \<leftarrow> ring_walk 256 (-1) x ((x - (16 - span * entries)) AND UDPTL_BUF_MASK);
            (rx, repaired) \<leftarrow> repair_slots ls (rx, (replicate 16 False)[nat x := True]);
            ps \<leftarrow> ring_walk 256 1 ((x + 1) AND UDPTL_BUF_MASK) x;
            Some (rx_primary (s\<lparr> u_rx := rx, rx_seq_no := rx_no \<rparr>) buf seq_no ifp
                    (play_repaired rx repaired seq_no ps))
          }
        })"

definition udptl_rx_packet ::
    "ast_udptl \<Rightarrow> byte list \<Rightarrow> nat \<Rightarrow> (ast_udptl \<times> int \<times> t38_frame list) option" where
  "udptl_rx_packet s buf len =
     (if 2 > len then Some (s, -1, [])
      else do {
        b0 \<leftarrow> byte_at buf 0;
        b1 \<leftarrow> byte_at buf 1;
        let seq_no = push_bit 8 (uint b0) OR uint b1;
        (stat, ptr, ifp) \<leftarrow> decode_open_type buf len 2;
        if stat \<noteq> 0 then Some (s, -1, [])
        else if ptr + 1 > len then Some (s, -1, [])
        else do {
          recovery \<leftarrow> byte_at buf ptr;
          if recovery AND 0x80 = 0 then rx_secondary s buf len (ptr + 1) seq_no ifp
          else rx_fec_mode s buf len (ptr + 1) seq_no ifp
        }
      })"

section \<open>Transmitting\<close>

text \<open>
  One step of the loop that accumulates a FEC entry: \<open>fec\<close> is the part of the array below
  \<open>high_tide\<close>. A slot that was never filled has \<open>buf_len = -1\<close> and adds nothing.
\<close>

definition fec_mix :: "byte list \<Rightarrow> byte list \<Rightarrow> byte list" where
  "fec_mix fec d =
     (if length fec < length d then map2 (XOR) fec (take (length fec) d) @ drop (length fec) d
      else map2 (XOR) (take (length d) fec) d @ drop (length d) fec)"

definition tx_data :: "udptl_fec_tx_buffer \<Rightarrow> byte list" where
  "tx_data b = take (nat (tx_buf_len b)) (tx_buf b)"

definition fec_build :: "udptl_fec_tx_buffer list \<Rightarrow> int list \<Rightarrow> byte list" where
  "fec_build tx ks = foldl (\<lambda>fec k. fec_mix fec (tx_data (tx ! nat k))) [] ks"

fun encode_secondary ::
    "nat \<Rightarrow> udptl_fec_tx_buffer list \<Rightarrow> int \<Rightarrow> nat \<Rightarrow> nat \<Rightarrow> byte list \<Rightarrow> (byte list \<times> int) option" where
  "encode_secondary buflen tx entry 0 i out = Some (out, 0)"
| "encode_secondary buflen tx entry (Suc n) i out =
     (let b = tx ! nat ((entry - int i - 1) AND UDPTL_BUF_MASK) in
      case encode_open_type buflen out (tx_buf b) (tx_buf_len b) of
        None \<Rightarrow> None
      | Some (out, r) \<Rightarrow>
          if r < 0 then Some (out, -1) else encode_secondary buflen tx entry n (i + 1) out)"

fun encode_fec ::
    "nat \<Rightarrow> udptl_fec_tx_buffer list \<Rightarrow> int \<Rightarrow> int \<Rightarrow> int \<Rightarrow> nat \<Rightarrow> nat \<Rightarrow> byte list
      \<Rightarrow> (byte list \<times> int) option" where
  "encode_fec buflen tx entry span entries 0 m out = Some (out, 0)"
| "encode_fec buflen tx entry span entries (Suc n) m out =
     (let limit = (entry + int m) AND UDPTL_BUF_MASK in
      case ring_walk 256 entries ((limit - span * entries) AND UDPTL_BUF_MASK) limit of
        None \<Rightarrow> None
      | Some ks \<Rightarrow>
          let fec = fec_build tx ks in
          case encode_open_type buflen out fec (int (length fec)) of
            None \<Rightarrow> None
          | Some (out, r) \<Rightarrow>
              if r < 0 then Some (out, -1)
              else encode_fec buflen tx entry span entries n (m + 1) out)"

text \<open>The error recovery part for each scheme.\<close>

definition encode_recovery :: "ast_udptl \<Rightarrow> nat \<Rightarrow> int \<Rightarrow> byte list \<Rightarrow> (byte list \<times> int) option" where
  "encode_recovery s buflen seq out =
     (let entry = seq AND UDPTL_BUF_MASK in
      case error_correction_scheme s of
        UDPTL_ERROR_CORRECTION_NONE \<Rightarrow>
          do {
            out \<leftarrow> put_byte buflen out 0x00;
            (out, r) \<leftarrow> encode_length buflen out 0;
            Some (out, if r < 0 then -1 else 0)
          }
      | UDPTL_ERROR_CORRECTION_REDUNDANCY \<Rightarrow>
          do {
            out \<leftarrow> put_byte buflen out 0x00;
            let entries = (if tx_seq_no s > error_correction_entries s
                           then error_correction_entries s else tx_seq_no s);
            (out, r) \<leftarrow> encode_length buflen out entries;
            if r < 0 then Some (out, -1)
            else encode_secondary buflen (u_tx s) entry (nat entries) 0 out
          }
      | UDPTL_ERROR_CORRECTION_FEC \<Rightarrow>
          let wind = (seq < error_correction_span s * error_correction_entries s);
              entries = (if wind then seq sdiv error_correction_span s
                         else error_correction_entries s);
              span = (if wind \<and> seq < error_correction_span s then 0 else error_correction_span s)
          in do {
            out \<leftarrow> put_byte buflen out 0x80;
            out \<leftarrow> put_byte buflen out 1;
            out \<leftarrow> put_byte buflen out span;
            out \<leftarrow> put_byte buflen out entries;
            encode_fec buflen (u_tx s) entry span entries (nat entries) 0 out
          })"

text \<open>
  \<open>udptl_build_packet\<close>; \<open>ifp\<close> holds at least \<open>ifp_len\<close> octets. The last component is the
  packet, of which the return value is the length.
\<close>

definition udptl_build_packet ::
    "ast_udptl \<Rightarrow> nat \<Rightarrow> byte list \<Rightarrow> int \<Rightarrow> (ast_udptl \<times> int \<times> byte list) option" where
  "udptl_build_packet s buflen ifp ifp_len =
     (let seq = tx_seq_no s AND 0xFFFF;
          entry = nat (seq AND UDPTL_BUF_MASK)
      in do {
        saved \<leftarrow> memcpy_from ifp (Some 0) ifp_len (tx_buf (u_tx s ! entry));
        let s = s\<lparr> u_tx := (u_tx s)[entry := \<lparr> tx_buf_len = ifp_len, tx_buf = saved \<rparr>] \<rparr>;
        out \<leftarrow> put_byte buflen [] (drop_bit 8 seq AND 0xFF);
        out \<leftarrow> put_byte buflen out (seq AND 0xFF);
        (out, r) \<leftarrow> encode_open_type buflen out ifp ifp_len;
        if r < 0 then Some (s, -1, out)
        else do {
          (out, r) \<leftarrow> encode_recovery s buflen seq out;
          if r < 0 then Some (s, -1, out)
          else Some (s\<lparr> tx_seq_no := tx_seq_no s + 1 \<rparr>, int (length out), out)
        }
      })"

section \<open>The walks end\<close>

lemma mask_mod [simp]: "(x AND UDPTL_BUF_MASK) = x mod 16"
  by (simp add: UDPTL_BUF_MASK_def int_and_15)

lemma ring_walk_total:
  assumes "0 \<le> k" "k < 16" "0 \<le> limit" "limit < 16" "(k + int n * step) mod 16 = limit" "n < fuel"
  shows "\<exists>ks. ring_walk fuel step k limit = Some ks \<and> length ks \<le> n
    \<and> set ks \<subseteq> {0..<16} \<and> limit \<notin> set ks"
  using assms
proof (induction n arbitrary: k fuel)
  case 0
  then obtain f where "fuel = Suc f" by (cases fuel) auto
  with 0 show ?case by simp
next
  case (Suc n)
  then obtain f where f: "fuel = Suc f" by (cases fuel) auto
  show ?case
  proof (cases "k = limit")
    case False
    have "((k + step) mod 16 + int n * step) mod 16 = (k + int (Suc n) * step) mod 16"
      by (simp add: mod_simps algebra_simps)
    with Suc.prems f have "((k + step) mod 16 + int n * step) mod 16 = limit" by simp
    with Suc.IH [of "(k + step) mod 16" f] Suc.prems f obtain ks where
      "ring_walk f step ((k + step) mod 16) limit = Some ks" "length ks \<le> n"
      "set ks \<subseteq> {0..<16}" "limit \<notin> set ks"
      by auto
    with False f Suc.prems show ?thesis by (auto simp: mod_simps)
  qed (simp add: f)
qed

text \<open>The walk over a FEC group takes at most \<open>span\<close> steps.\<close>

lemma fec_walk_total:
  assumes "0 \<le> limit" "limit < 16" "0 \<le> span" "span < 256"
  shows "\<exists>ks. ring_walk 256 entries ((limit - span * entries) mod 16) limit = Some ks
    \<and> length ks \<le> nat span \<and> set ks \<subseteq> {0..<16} \<and> limit \<notin> set ks"
proof (rule ring_walk_total)
  have "((limit - span * entries) mod 16 + int (nat span) * entries) mod 16 =
      (limit - span * entries + span * entries) mod 16"
    using assms by (simp add: mod_simps)
  then show "((limit - span * entries) mod 16 + int (nat span) * entries) mod 16 = limit"
    using assms by simp
qed (use assms in auto)

lemma back_walk_total:
  assumes "0 \<le> x" "x < 16"
  shows "\<exists>ks. ring_walk 256 (-1) x ((x - d) mod 16) = Some ks \<and> length ks \<le> 15
    \<and> set ks \<subseteq> {0..<16} \<and> (x - d) mod 16 \<notin> set ks"
proof -
  let ?n = "nat (d mod 16)"
  have "?n \<le> 15" by simp
  moreover have "(x + int ?n * -1) mod 16 = (x - d) mod 16"
    by (simp add: mod_simps)
  ultimately show ?thesis
    using ring_walk_total [of x "(x - d) mod 16" ?n "-1" 256] assms by fastforce
qed

lemma forward_walk_total:
  assumes "0 \<le> x" "x < 16"
  shows "\<exists>ks. ring_walk 256 1 ((x + 1) mod 16) x = Some ks \<and> length ks \<le> 15
    \<and> set ks \<subseteq> {0..<16} \<and> x \<notin> set ks"
proof (rule ring_walk_total)
  show "((x + 1) mod 16 + int 15 * 1) mod 16 = x"
    using assms by (simp add: mod_simps)
qed (use assms in auto)

section \<open>Redundancy packets\<close>

definition seq_octets :: "nat \<Rightarrow> byte list" where
  "seq_octets n = [of_nat (n div 256), of_nat (n mod 256)]"

definition red_packet :: "nat \<Rightarrow> byte list \<Rightarrow> byte list list \<Rightarrow> byte list" where
  "red_packet n ifp secs =
     seq_octets n @ open_octets ifp @ [0] @ len_octets (length secs) @ concat (map open_octets secs)"

text \<open>A packet body: at least one octet, and short enough for the buffers.\<close>

definition ifp_ok :: "byte list \<Rightarrow> bool" where
  "ifp_ok d \<longleftrightarrow> d \<noteq> [] \<and> length d \<le> LOCAL_FAX_MAX_DATAGRAM"

lemma ifp_okD: "ifp_ok d \<Longrightarrow> d \<noteq> [] \<and> length d \<le> 1400 \<and> length d < 16384"
  by (simp add: ifp_ok_def LOCAL_FAX_MAX_DATAGRAM_def)

text \<open>An entry found by the receiver designates the octets \<open>d\<close>.\<close>

definition entry_is :: "byte list \<Rightarrow> (nat \<times> nat) option \<Rightarrow> byte list \<Rightarrow> bool" where
  "entry_is buf obj d \<longleftrightarrow> (\<exists>off. obj = Some (off, length d) \<and> take (length d) (drop off buf) = d)"

lemma decode_open_type_entry:
  assumes "ifp_ok d" "length pre + length (open_octets d) \<le> limit" "buf = pre @ open_octets d @ post"
  shows "\<exists>obj. decode_open_type buf limit (length pre) = Some (0, length pre + length (open_octets d), obj)
    \<and> entry_is buf obj d"
  using ifp_okD [OF assms(1)] assms(2,3) decode_open_type_octets [of d pre limit post]
  by (auto simp: entry_is_def open_octets_def Let_def)

lemma read_entries_octets:
  assumes "list_all ifp_ok ds" "buf = pre @ concat (map open_octets ds) @ post"
    "length pre + length (concat (map open_octets ds)) \<le> len"
  shows "\<exists>es. read_entries buf len (length pre) (length ds) acc =
      Some (0, length pre + length (concat (map open_octets ds)), acc @ es) \<and> list_all2 (entry_is buf) es ds"
  using assms
proof (induction ds arbitrary: pre acc)
  case (Cons d ds)
  obtain obj where obj: "entry_is buf obj d"
    "decode_open_type buf len (length pre) = Some (0, length pre + length (open_octets d), obj)"
    using decode_open_type_entry [of d pre len buf "concat (map open_octets ds) @ post"] Cons.prems by auto
  obtain es where "read_entries buf len (length (pre @ open_octets d)) (length ds) (acc @ [obj]) =
      Some (0, length (pre @ open_octets d) + length (concat (map open_octets ds)), (acc @ [obj]) @ es)"
    "list_all2 (entry_is buf) es ds"
    using Cons.IH [of "pre @ open_octets d" "acc @ [obj]"] Cons.prems by auto
  with obj show ?case by (intro exI [of _ "obj # es"]) (simp add: add.assoc)
qed simp

definition t38 :: "nat \<Rightarrow> byte list \<Rightarrow> t38_frame" where
  "t38 q d = \<lparr> t_seqno = int q, t_datalen = int (length d), t_data = d \<rparr>"

lemma t38_of_entry: "entry_is buf (Some obj) d \<Longrightarrow> t38_of buf (int q) obj = t38 q d"
  by (auto simp: entry_is_def t38_of_def t38_def)

lemma play_secondary_entries:
  assumes "list_all2 (entry_is buf) es ds" "i \<le> length ds" "length ds \<le> n"
  shows "play_secondary buf (int n) (int k) es i =
    Some (map (\<lambda>q. t38 q (ds ! (n - q - 1))) [max k (n - i)..<n])"
  using assms(2)
proof (induction i)
  case (Suc i)
  then have IH: "play_secondary buf (int n) (int k) es i =
      Some (map (\<lambda>q. t38 q (ds ! (n - q - 1))) [max k (n - i)..<n])" by simp
  have len: "length es = length ds" using assms(1) by (rule list_all2_lengthD)
  then have e: "entry_is buf (es ! i) (ds ! i)"
    using assms(1) Suc.prems by (simp add: list_all2_nthD)
  then obtain obj where obj: "es ! i = Some obj" by (auto simp: entry_is_def)
  have n: "n - Suc i < n" "int n - int (Suc i) = int (n - Suc i)" using Suc.prems assms(3) by auto
  show ?case
  proof (cases "k \<le> n - Suc i")
    case True
    then have "max k (n - Suc i) = n - Suc i" "max k (n - i) = Suc (n - Suc i)"
      using n by auto
    moreover have "[n - Suc i..<n] = (n - Suc i) # [Suc (n - Suc i)..<n]"
      using n by (intro upt_conv_Cons) simp
    moreover have "n - (n - Suc i) - 1 = i" using Suc.prems assms(3) by simp
    moreover have "int k \<le> int n - int (Suc i)" using True n by linarith
    moreover have "t38_of buf (int n - int (Suc i)) obj = t38 (n - Suc i) (ds ! i)"
      unfolding n(2) using e obj by (intro t38_of_entry) simp
    ultimately show ?thesis
      using IH obj by (simp del: upt_Suc of_nat_Suc)
  next
    case False
    then have "max k (n - Suc i) = k" "max k (n - i) = k" by auto
    moreover have "\<not> int k \<le> int n - int (Suc i)" using False n by linarith
    ultimately show ?thesis
      using IH by (simp del: of_nat_Suc)
  qed
qed (simp add: max_def)

lemma seq_octets_value:
  "n < 65536 \<Longrightarrow> push_bit 8 (uint (of_nat (n div 256) :: byte)) OR uint (of_nat (n mod 256) :: byte) = int n"
proof -
  assume n: "n < 65536"
  then have "uint (of_nat (n div 256) :: byte) = int (n div 256)"
    by (simp add: uint_word_of_int_eq unsigned_of_nat take_bit_nat_eq_self less_mult_imp_div_less)
  with push_or_octet [of n] show ?thesis by simp
qed

lemma read_secondary_octets:
  assumes "list_all ifp_ok ds" "length ds \<le> 15"
    "buf = pre @ len_octets (length ds) @ concat (map open_octets ds)"
  shows "\<exists>es. read_secondary buf (length buf) (length pre) [] = Some (0, es) \<and> list_all2 (entry_is buf) es ds"
proof -
  have "decode_length buf (length buf) (length pre) =
      Some (0, length (pre @ len_octets (length ds)), Some (int (length ds)))"
    unfolding assms(3) using assms(2) by (subst decode_length_octets) simp_all
  moreover obtain es where
    "read_entries buf (length buf) (length (pre @ len_octets (length ds))) (length ds) [] =
      Some (0, length (pre @ len_octets (length ds)) + length (concat (map open_octets ds)), [] @ es)"
    "list_all2 (entry_is buf) es ds"
    using read_entries_octets [OF assms(1), of buf "pre @ len_octets (length ds)" "[]" "length buf" "[]"]
      assms(3) by auto
  ultimately show ?thesis
    using assms(2) by (subst read_secondary.simps) (simp add: min_absorb1)
qed

lemma rx_red_packet:
  assumes "ifp_ok ifp" "list_all ifp_ok secs" "length secs \<le> 15" "length secs \<le> n" "n < 65536"
    and "rx_seq_no s = int k" "k \<le> n"
  shows "udptl_rx_packet s (red_packet n ifp secs) (length (red_packet n ifp secs)) =
    Some (s\<lparr> rx_seq_no := int n + 1 \<rparr>, int (n + 1 - max k (n - length secs)),
      map (\<lambda>q. t38 q ((ifp # secs) ! (n - q))) [max k (n - length secs)..<n + 1])"
proof -
  define buf where "buf = red_packet n ifp secs"
  define tail where "tail = len_octets (length secs) @ concat (map open_octets secs)"
  define ptr where "ptr = length (seq_octets n @ open_octets ifp)"
  have buf: "buf = seq_octets n @ open_octets ifp @ 0 # tail"
    by (simp add: buf_def red_packet_def tail_def)
  have b01: "byte_at buf 0 = Some (of_nat (n div 256))" "byte_at buf 1 = Some (of_nat (n mod 256))"
    by (simp_all add: buf seq_octets_def byte_at_def)
  obtain obj where obj: "decode_open_type buf (length buf) 2 = Some (0, ptr, obj)" "entry_is buf obj ifp"
    using decode_open_type_entry [OF assms(1), of "seq_octets n" "length buf" buf "0 # tail"]
    by (auto simp: buf ptr_def seq_octets_def numeral_2_eq_2)
  have ptr: "byte_at buf ptr = Some 0" "ptr + 1 \<le> length buf" "\<not> length buf < 2"
    by (simp_all add: buf ptr_def byte_at_def nth_append seq_octets_def)
  obtain es where es: "read_secondary buf (length buf) (ptr + 1) [] = Some (0, es)"
    "list_all2 (entry_is buf) es secs"
    using read_secondary_octets [OF assms(2,3), of buf "seq_octets n @ open_octets ifp @ [0]"]
    by (auto simp: buf tail_def ptr_def)
  obtain o1 where o1: "obj = Some o1" "t38_of buf (int n) o1 = t38 n ifp"
    using obj(2) t38_of_entry by (auto simp: entry_is_def)
  define m where "m = max k (n - length secs)"
  have m: "m \<le> n" using assms(7) by (simp add: m_def)
  have play: "play_secondary buf (int n) (int k) es (length es) =
      Some (map (\<lambda>q. t38 q ((ifp # secs) ! (n - q))) [m..<n])"
    using play_secondary_entries [OF es(2), of "length secs" n k] assms(4) list_all2_lengthD [OF es(2)]
    by (simp add: m_def nth_Cons' cong: map_cong)
  have prim: "rx_primary s buf (int n) obj (map (\<lambda>q. t38 q ((ifp # secs) ! (n - q))) [m..<n]) =
      (s\<lparr> rx_seq_no := int n + 1 \<rparr>, int (n + 1 - m), map (\<lambda>q. t38 q ((ifp # secs) ! (n - q))) [m..<n + 1])"
    using assms(6,7) o1 m by (simp add: rx_primary_def Let_def)
  have "rx_secondary s buf (length buf) (ptr + 1) (int n) obj =
      Some (s\<lparr> rx_seq_no := int n + 1 \<rparr>, int (n + 1 - m), map (\<lambda>q. t38 q ((ifp # secs) ! (n - q))) [m..<n + 1])"
  proof (cases "k < n")
    case True
    with es(1) play prim assms(6) show ?thesis by (simp add: rx_secondary_def)
  next
    case False
    then have "m = n" using assms(7) m by (simp add: m_def)
    with False prim assms(6) show ?thesis by (simp add: rx_secondary_def)
  qed
  then show ?thesis
    unfolding buf_def [symmetric] m_def [symmetric] udptl_rx_packet_def
    using b01 obj(1) ptr seq_octets_value [OF assms(5)] by (simp add: seq_octets_def)
qed

section \<open>Building redundancy packets\<close>

lemma encode_open_type_take:
  assumes "n \<le> length d" "n < 16384"
  shows "encode_open_type buflen out d (int n) = encode_open_type buflen out (take n d) (int n)"
proof (cases "n = 0")
  case False
  then show ?thesis
    using assms
    by (simp add: encode_open_type_def encode_fragments.simps [of _ _ _ "int n"] encode_length_octets Let_def)
qed (simp add: encode_open_type_def)

text \<open>A slot of the transmit buffer that holds the packet body \<open>d\<close>.\<close>

definition slot_holds :: "udptl_fec_tx_buffer \<Rightarrow> byte list \<Rightarrow> bool" where
  "slot_holds b d \<longleftrightarrow> tx_buf_len b = int (length d) \<and> length (tx_buf b) = 1400
     \<and> length d \<le> 1400 \<and> tx_data b = d"

lemma encode_slot:
  assumes "slot_holds b d" "encode_open_type buflen out (tx_buf b) (tx_buf_len b) = Some (out', r)" "r \<ge> 0"
  shows "out' = out @ open_octets d"
proof -
  have "take (length d) (tx_buf b) = d"
    using assms(1) by (metis nat_int slot_holds_def tx_data_def)
  then have "encode_open_type buflen out d (int (length d)) = Some (out', r)"
    using assms encode_open_type_take [of "length d" "tx_buf b" buflen out] by (simp add: slot_holds_def)
  with assms show ?thesis
    by (auto simp: encode_open_type_octets slot_holds_def split: if_splits)
qed

lemma encode_secondary_octets:
  assumes "encode_secondary buflen tx entry n i out = Some (out', r)" "r \<ge> 0"
    and "\<And>j. i \<le> j \<Longrightarrow> j < i + n \<Longrightarrow> slot_holds (tx ! nat ((entry - int j - 1) mod 16)) (d j)"
  shows "out' = out @ concat (map (\<lambda>j. open_octets (d j)) [i..<i + n])"
  using assms
proof (induction n arbitrary: i out)
  case (Suc n)
  let ?b = "tx ! nat ((entry - int i - 1) mod 16)"
  obtain o1 r1 where o1: "encode_open_type buflen out (tx_buf ?b) (tx_buf_len ?b) = Some (o1, r1)"
    using Suc.prems(1) by (cases "encode_open_type buflen out (tx_buf ?b) (tx_buf_len ?b)") (auto simp: Let_def)
  with Suc.prems(1,2) have r1: "r1 \<ge> 0" and rest: "encode_secondary buflen tx entry n (i + 1) o1 = Some (out', r)"
    by (auto simp: Let_def split: if_splits)
  have "o1 = out @ open_octets (d i)"
    using Suc.prems(3) [of i] by (intro encode_slot [OF _ o1 r1]) simp
  moreover have "out' = o1 @ concat (map (\<lambda>j. open_octets (d j)) [i + 1..<i + 1 + n])"
    by (rule Suc.IH [OF rest Suc.prems(2)]) (use Suc.prems(3) in auto)
  moreover have "[i..<i + Suc n] = i # [i + 1..<i + 1 + n]"
    using upt_conv_Cons [of i "i + Suc n"] by simp
  ultimately show ?case by simp
qed simp

text \<open>The transmit buffer after the packet bodies \<open>h\<close>: the last 16 of them, by sequence number.\<close>

definition tx_holds :: "ast_udptl \<Rightarrow> byte list list \<Rightarrow> bool" where
  "tx_holds s h \<longleftrightarrow> tx_seq_no s = int (length h) \<and> length (u_tx s) = 16
     \<and> (\<forall>b\<in>set (u_tx s). length (tx_buf b) = 1400)
     \<and> (\<forall>q < length h. length h \<le> q + 16 \<longrightarrow> slot_holds (u_tx s ! (q mod 16)) (h ! q))"

lemma seq_and_65535: "int n AND 0xFFFF = int (n mod 65536)"
  using take_bit_eq_mask [of 16 "int n"] by (simp add: take_bit_eq_mod mask_eq_exp_minus_1 zmod_int)

lemma seq_slot: "int (n mod 65536) mod 16 = int n mod 16"
  by (simp add: zmod_int mod_mod_cancel)

lemma seq_octets_put:
  "drop_bit 8 (int n) AND 0xFF = int (n div 256 mod 256)" "int n AND 0xFF = int (n mod 256)"
  using take_bit_eq_mask [of 8 "int (n div 256)"] take_bit_eq_mask [of 8 "int n"]
  by (simp_all add: take_bit_eq_mod mask_eq_exp_minus_1 zmod_int zdiv_int drop_bit_eq_div)

lemma slot_holds_saved:
  "length d \<le> 1400 \<Longrightarrow> length b = 1400 \<Longrightarrow>
   slot_holds \<lparr> tx_buf_len = int (length d), tx_buf = d @ drop (length d) b \<rparr> d"
  by (simp add: slot_holds_def tx_data_def)

lemma mod16_apart: "(q::nat) < n \<Longrightarrow> n < q + 16 \<Longrightarrow> q mod 16 \<noteq> n mod 16"
  by (metis add.commute add_less_cancel_left le_add_diff_inverse less_imp_le mod_eq_dvd_iff_nat
      nat_dvd_not_less zero_less_diff)

lemma tx_holds_save:
  assumes "tx_holds s h" "length d \<le> 1400" "e = length h mod 16"
    and "u_tx s' = (u_tx s)[e := \<lparr> tx_buf_len = int (length d), tx_buf = d @ drop (length d) (tx_buf (u_tx s ! e)) \<rparr>]"
    and "tx_seq_no s' = int (length h) + 1"
  shows "tx_holds s' (h @ [d])"
proof -
  have e: "e < length (u_tx s)" "length (tx_buf (u_tx s ! e)) = 1400" "length (u_tx s) = 16"
    using assms(1,3) by (auto simp: tx_holds_def)
  have "slot_holds (u_tx s' ! (q mod 16)) ((h @ [d]) ! q)"
    if q: "q < length (h @ [d])" "length (h @ [d]) \<le> q + 16" for q
  proof (cases "q = length h")
    case True
    with e assms show ?thesis by (simp add: slot_holds_saved)
  next
    case False
    then have "q < length h" "length h < q + 16" using q by auto
    moreover have "q mod 16 \<noteq> length h mod 16"
      using calculation by (intro mod16_apart)
    ultimately show ?thesis
      using assms by (simp add: tx_holds_def nth_append)
  qed
  moreover have "\<forall>b\<in>set (u_tx s'). length (tx_buf b) = 1400"
    unfolding assms(4) using assms(1,2) e by (intro all_list_update) (simp_all add: tx_holds_def)
  ultimately show ?thesis
    using assms e by (simp add: tx_holds_def)
qed

text \<open>The secondary packets of packet \<open>n\<close>: the bodies before it, latest first.\<close>

definition secondaries :: "nat \<Rightarrow> byte list list \<Rightarrow> byte list list" where
  "secondaries e h = map (\<lambda>j. h ! (length h - 1 - j)) [0..<min e (length h)]"

lemma udptl_build_packet_steps:
  assumes "udptl_build_packet s buflen d n = Some (s', r, p)" "r \<ge> 0"
    and "seq = tx_seq_no s AND 0xFFFF" "en = nat (seq AND UDPTL_BUF_MASK)"
  obtains saved o1 o2 o3 r3 r4 where
    "memcpy_from d (Some 0) n (tx_buf (u_tx s ! en)) = Some saved"
    "put_byte buflen [] (drop_bit 8 seq AND 0xFF) = Some o1" "put_byte buflen o1 (seq AND 0xFF) = Some o2"
    "encode_open_type buflen o2 d n = Some (o3, r3)" "r3 \<ge> 0"
    "encode_recovery (s\<lparr> u_tx := (u_tx s)[en := \<lparr> tx_buf_len = n, tx_buf = saved \<rparr>] \<rparr>) buflen seq o3 = Some (p, r4)"
    "r4 \<ge> 0"
    "s' = s\<lparr> u_tx := (u_tx s)[en := \<lparr> tx_buf_len = n, tx_buf = saved \<rparr>], tx_seq_no := tx_seq_no s + 1 \<rparr>"
  using assms(1,2) unfolding udptl_build_packet_def assms(3) [symmetric] Let_def assms(4) [symmetric]
  by (auto simp del: mask_mod simp: bind_eq_Some_conv split: if_splits)

lemma encode_recovery_red:
  assumes "error_correction_scheme s = UDPTL_ERROR_CORRECTION_REDUNDANCY"
    and "(if tx_seq_no s > error_correction_entries s then error_correction_entries s else tx_seq_no s) = int k"
    and "k < 16384" and "encode_recovery s buflen seq out = Some (out', r)"
  shows "encode_secondary buflen (u_tx s) (seq mod 16) k 0 (out @ [0] @ len_octets k) = Some (out', r)"
  using assms(4) unfolding encode_recovery_def Let_def assms(1,2)
  using assms(3)
  by (cases "length out < buflen"; cases "length out + 1 + length (len_octets k) \<le> buflen")
    (simp_all add: put_byte_def encode_length_octets)

lemma tx_slot_of_secondary:
  assumes "tx_holds s (h @ [d])" "j < length h" "j < 15"
  shows "slot_holds (u_tx s ! nat ((int (length h) mod 16 - int j - 1) mod 16)) (h ! (length h - 1 - j))"
proof -
  let ?n = "length h"
  have "(int ?n mod 16 - int j - 1) mod 16 = int (?n - 1 - j) mod 16"
    using assms(2) by (simp add: mod_simps of_nat_diff diff_diff_eq add.commute)
  then have "nat ((int ?n mod 16 - int j - 1) mod 16) = (?n - 1 - j) mod 16"
    by (simp add: nat_mod_as_int)
  moreover have "slot_holds (u_tx s ! ((?n - 1 - j) mod 16)) ((h @ [d]) ! (?n - 1 - j))"
    using assms by (simp add: tx_holds_def)
  moreover have "?n - 1 - j < ?n" using assms(2) by linarith
  ultimately show ?thesis
    by (simp add: nth_append)
qed

lemma build_red_packet:
  assumes h: "tx_holds s h" and d: "length d \<le> 1400"
    and ec: "error_correction_scheme s = UDPTL_ERROR_CORRECTION_REDUNDANCY"
      "error_correction_entries s = int e" "e \<le> 15"
    and built: "udptl_build_packet s buflen d (int (length d)) = Some (s', r, p)" "r \<ge> 0"
  shows "p = red_packet (length h mod 65536) d (secondaries e h)" and "tx_holds s' (h @ [d])"
    and "error_correction_scheme s' = UDPTL_ERROR_CORRECTION_REDUNDANCY"
    and "error_correction_entries s' = int e"
proof -
  let ?n = "length h" let ?q = "length h mod 65536"
  define en where "en = nat (int ?n mod 16)"
  define s1 where "s1 = s\<lparr> u_tx := (u_tx s)[en :=
      \<lparr> tx_buf_len = int (length d), tx_buf = d @ drop (length d) (tx_buf (u_tx s ! en)) \<rparr>] \<rparr>"
  have en: "en = ?n mod 16" by (simp add: en_def nat_mod_as_int)
  have seq: "tx_seq_no s AND 0xFFFF = int ?q" "?q div 256 mod 256 = ?q div 256" "int ?q mod 16 = int ?n mod 16"
    using h by (simp_all add: tx_holds_def seq_and_65535 less_mult_imp_div_less seq_slot)
  have "length (tx_buf (u_tx s ! en)) = 1400"
    using h en by (simp add: tx_holds_def)
  then have saved: "memcpy_from d (Some 0) (int (length d)) (tx_buf (u_tx s ! en)) =
      Some (d @ drop (length d) (tx_buf (u_tx s ! en)))"
    using d by (simp add: memcpy_from_def)
  obtain o1 o2 o3 r3 o4 r4 where steps:
    "put_byte buflen [] (int (?q div 256)) = Some o1" "put_byte buflen o1 (int (?q mod 256)) = Some o2"
    "encode_open_type buflen o2 d (int (length d)) = Some (o3, r3)" "r3 \<ge> 0"
    "encode_recovery s1 buflen (int ?q) o3 = Some (o4, r4)" "r4 \<ge> 0"
    "s' = s1\<lparr> tx_seq_no := tx_seq_no s1 + 1 \<rparr>" "p = o4"
  proof (rule udptl_build_packet_steps [OF built seq(1) [symmetric], of en])
    show "en = nat (int ?q AND UDPTL_BUF_MASK)" unfolding mask_mod seq(3) en_def ..
  next
    fix sv o1 o2 o3 r3 r4
    assume *: "memcpy_from d (Some 0) (int (length d)) (tx_buf (u_tx s ! en)) = Some sv"
    then have sv: "sv = d @ drop (length d) (tx_buf (u_tx s ! en))"
      using saved by simp
    assume "put_byte buflen [] (drop_bit 8 (int ?q) AND 0xFF) = Some o1"
      "put_byte buflen o1 (int ?q AND 0xFF) = Some o2"
      "encode_open_type buflen o2 d (int (length d)) = Some (o3, r3)" "0 \<le> r3"
      "encode_recovery (s\<lparr> u_tx := (u_tx s)[en := \<lparr> tx_buf_len = int (length d), tx_buf = sv \<rparr>] \<rparr>)
         buflen (int ?q) o3 = Some (p, r4)" "0 \<le> r4"
      "s' = s\<lparr> u_tx := (u_tx s)[en := \<lparr> tx_buf_len = int (length d), tx_buf = sv \<rparr>],
         tx_seq_no := tx_seq_no s + 1 \<rparr>"
    then show thesis
      unfolding sv seq_octets_put seq(2) by (intro that [of o1 o2 o3 r3 p r4]) (simp_all add: s1_def)
  qed
  have o3: "o3 = seq_octets ?q @ open_octets d"
    using steps(1-4) d by (auto simp: put_byte_def seq_octets_def encode_open_type_octets split: if_splits)
  have hold: "tx_holds s' (h @ [d])"
    using h by (intro tx_holds_save [OF h d en]) (simp_all add: steps s1_def tx_holds_def)
  define k where "k = min e ?n"
  have entries: "(if tx_seq_no s1 > error_correction_entries s1 then error_correction_entries s1
      else tx_seq_no s1) = int k"
    using h ec by (simp add: s1_def tx_holds_def k_def)
  define o5 where "o5 = o3 @ [0] @ len_octets k"
  have o5: "encode_secondary buflen (u_tx s1) (int ?n mod 16) k 0 o5 = Some (o4, r4)"
    using encode_recovery_red [OF _ entries _ steps(5)] ec seq(3) by (simp add: s1_def k_def o5_def)
  have "o4 = o5 @ concat (map (\<lambda>j. open_octets (h ! (?n - 1 - j))) [0..<0 + k])"
  proof (rule encode_secondary_octets [OF o5 steps(6)])
    fix j assume j: "0 \<le> j" "j < 0 + k"
    then have "slot_holds (u_tx s' ! nat ((int ?n mod 16 - int j - 1) mod 16)) (h ! (?n - 1 - j))"
      using ec(3) by (intro tx_slot_of_secondary [OF hold]) (auto simp: k_def)
    then show "slot_holds (u_tx s1 ! nat ((int ?n mod 16 - int j - 1) mod 16)) (h ! (?n - 1 - j))"
      by (simp add: steps)
  qed
  then show "p = red_packet (length h mod 65536) d (secondaries e h)"
    using steps(8) o3 by (simp add: o5_def red_packet_def secondaries_def k_def comp_def)
  show "tx_holds s' (h @ [d])" by (rule hold)
  show "error_correction_scheme s' = UDPTL_ERROR_CORRECTION_REDUNDANCY"
    "error_correction_entries s' = int e"
    using ec by (simp_all add: steps s1_def)
qed

text \<open>The builder succeeds whenever the packet fits.\<close>

lemma encode_slot_fits:
  assumes "slot_holds b d" "length out + length (open_octets d) \<le> buflen"
  shows "encode_open_type buflen out (tx_buf b) (tx_buf_len b) = Some (out @ open_octets d, 0)"
proof -
  have "take (length d) (tx_buf b) = d"
    using assms(1) by (metis nat_int slot_holds_def tx_data_def)
  then have "encode_open_type buflen out (tx_buf b) (tx_buf_len b) =
      encode_open_type buflen out d (int (length d))"
    using assms encode_open_type_take [of "length d" "tx_buf b" buflen out] by (simp add: slot_holds_def)
  with assms show ?thesis
    by (simp add: encode_open_type_octets slot_holds_def)
qed

lemma encode_secondary_fits:
  assumes "length out + length (concat (map (\<lambda>j. open_octets (d j)) [i..<i + n])) \<le> buflen"
    and "\<And>j. i \<le> j \<Longrightarrow> j < i + n \<Longrightarrow> slot_holds (tx ! nat ((entry - int j - 1) mod 16)) (d j)"
  shows "encode_secondary buflen tx entry n i out =
    Some (out @ concat (map (\<lambda>j. open_octets (d j)) [i..<i + n]), 0)"
  using assms
proof (induction n arbitrary: i out)
  case (Suc n)
  have split: "[i..<i + Suc n] = i # [i + 1..<i + 1 + n]"
    using upt_conv_Cons [of i "i + Suc n"] by simp
  have len: "length out + length (open_octets (d i))
      + length (concat (map (\<lambda>j. open_octets (d j)) [i + 1..<i + 1 + n])) \<le> buflen"
    using Suc.prems(1) unfolding split by simp
  have 1: "encode_open_type buflen out (tx_buf (tx ! nat ((entry - int i - 1) mod 16)))
      (tx_buf_len (tx ! nat ((entry - int i - 1) mod 16))) = Some (out @ open_octets (d i), 0)"
    using Suc.prems(2) [of i] len by (intro encode_slot_fits) auto
  have 2: "encode_secondary buflen tx entry n (i + 1) (out @ open_octets (d i)) =
      Some ((out @ open_octets (d i)) @ concat (map (\<lambda>j. open_octets (d j)) [i + 1..<i + 1 + n]), 0)"
    using Suc.prems(2) len by (intro Suc.IH) auto
  show ?case
    unfolding split using 1 2 by (simp add: Let_def)
qed simp

lemma encode_recovery_red_fits:
  assumes "error_correction_scheme s = UDPTL_ERROR_CORRECTION_REDUNDANCY"
    and "(if tx_seq_no s > error_correction_entries s then error_correction_entries s else tx_seq_no s) = int k"
    and "k < 16384" and "length out + 1 + length (len_octets k) \<le> buflen"
  shows "encode_recovery s buflen seq out =
    encode_secondary buflen (u_tx s) (seq mod 16) k 0 (out @ [0] @ len_octets k)"
  unfolding encode_recovery_def Let_def assms(1,2) using assms(3,4)
  by (simp add: put_byte_def encode_length_octets)

lemma build_red_packet_fits:
  assumes h: "tx_holds s h" and d: "length d \<le> 1400"
    and ec: "error_correction_scheme s = UDPTL_ERROR_CORRECTION_REDUNDANCY"
      "error_correction_entries s = int e" "e \<le> 15"
    and fits: "length (red_packet (length h mod 65536) d (secondaries e h)) \<le> buflen"
  shows "\<exists>s'. udptl_build_packet s buflen d (int (length d)) =
    Some (s', int (length (red_packet (length h mod 65536) d (secondaries e h))), red_packet (length h mod 65536) d (secondaries e h))"
proof -
  let ?n = "length h" let ?q = "length h mod 65536"
  define en where "en = nat (int ?n mod 16)"
  define s1 where "s1 = s\<lparr> u_tx := (u_tx s)[en :=
      \<lparr> tx_buf_len = int (length d), tx_buf = d @ drop (length d) (tx_buf (u_tx s ! en)) \<rparr>] \<rparr>"
  have en: "en = ?n mod 16" by (simp add: en_def nat_mod_as_int)
  have seq: "tx_seq_no s AND 0xFFFF = int ?q" "?q div 256 mod 256 = ?q div 256" "int ?q mod 16 = int ?n mod 16"
    using h by (simp_all add: tx_holds_def seq_and_65535 less_mult_imp_div_less seq_slot)
  have "length (tx_buf (u_tx s ! en)) = 1400"
    using h en by (simp add: tx_holds_def)
  then have saved: "memcpy_from d (Some 0) (int (length d)) (tx_buf (u_tx s ! en)) =
      Some (d @ drop (length d) (tx_buf (u_tx s ! en)))"
    using d by (simp add: memcpy_from_def)
  define k where "k = min e ?n"
  define o3 where "o3 = seq_octets ?q @ open_octets d"
  define secs where "secs = concat (map (\<lambda>j. open_octets (h ! (?n - 1 - j))) [0..<0 + k])"
  have p: "red_packet ?q d (secondaries e h) = (o3 @ [0] @ len_octets k) @ secs"
    by (simp add: red_packet_def o3_def secs_def secondaries_def k_def comp_def)
  have entries: "(if tx_seq_no s1 > error_correction_entries s1 then error_correction_entries s1
      else tx_seq_no s1) = int k"
    using h ec by (simp add: s1_def tx_holds_def k_def)
  have hold: "tx_holds (s1\<lparr> tx_seq_no := tx_seq_no s1 + 1 \<rparr>) (h @ [d])"
    using h by (intro tx_holds_save [OF h d en]) (simp_all add: s1_def tx_holds_def)
  have "encode_recovery s1 buflen (int ?q) o3 =
      encode_secondary buflen (u_tx s1) (int ?n mod 16) k 0 (o3 @ [0] @ len_octets k)"
    using fits ec unfolding p seq(3) [symmetric] by (intro encode_recovery_red_fits entries) (simp_all add: s1_def k_def)
  also have "\<dots> = Some ((o3 @ [0] @ len_octets k) @ secs, 0)"
    unfolding secs_def using fits tx_slot_of_secondary [OF hold] ec(3)
    by (intro encode_secondary_fits) (auto simp: p secs_def k_def)
  finally have rec: "encode_recovery s1 buflen (int ?q) o3 = Some ((o3 @ [0] @ len_octets k) @ secs, 0)" .
  have put: "put_byte buflen [] (int (?q div 256)) = Some [of_nat (?q div 256)]"
    "put_byte buflen [of_nat (?q div 256)] (int (?q mod 256)) = Some (seq_octets ?q)"
    using fits by (simp_all add: p o3_def put_byte_def seq_octets_def)
  have open': "encode_open_type buflen (seq_octets ?q) d (int (length d)) = Some (o3, 0)"
    using fits d by (simp add: p o3_def encode_open_type_octets)
  show ?thesis
    unfolding udptl_build_packet_def Let_def seq(1) mask_mod seq(3) en_def [symmetric] seq_octets_put seq(2) saved p
    by (simp add: put open' rec s1_def [symmetric])
qed

section \<open>Sessions\<close>

text \<open>A run of the transmitter over packet bodies, and of the receiver over packets.\<close>

fun send_all :: "nat \<Rightarrow> ast_udptl \<Rightarrow> byte list list \<Rightarrow> (ast_udptl \<times> byte list list) option" where
  "send_all buflen s [] = Some (s, [])"
| "send_all buflen s (d # ds) =
     (case udptl_build_packet s buflen d (int (length d)) of
        None \<Rightarrow> None
      | Some (s, r, p) \<Rightarrow>
          if r < 0 then None
          else map_option (\<lambda>(s, ps). (s, p # ps)) (send_all buflen s ds))"

fun recv_all :: "ast_udptl \<Rightarrow> byte list list \<Rightarrow> (ast_udptl \<times> t38_frame list) option" where
  "recv_all s [] = Some (s, [])"
| "recv_all s (p # ps) =
     (case udptl_rx_packet s p (length p) of
        None \<Rightarrow> None
      | Some (s, r, fs) \<Rightarrow> map_option (\<lambda>(s, fs'). (s, fs @ fs')) (recv_all s ps))"

lemma send_all_packets:
  assumes "send_all buflen s ds = Some (s', ps)" "tx_holds s h"
    and "\<forall>d\<in>set ds. length d \<le> 1400"
    and "error_correction_scheme s = UDPTL_ERROR_CORRECTION_REDUNDANCY"
    and "error_correction_entries s = int e" "e \<le> 15"
  shows "length ps = length ds
    \<and> (\<forall>i<length ds. ps ! i = red_packet ((length h + i) mod 65536) (ds ! i) (secondaries e (h @ take i ds)))"
  using assms
proof (induction ds arbitrary: s h ps)
  case (Cons d ds)
  obtain s1 r p where b: "udptl_build_packet s buflen d (int (length d)) = Some (s1, r, p)" "r \<ge> 0"
    using Cons.prems(1) by (auto split: option.splits if_splits)
  obtain ps1 where ps: "ps = p # ps1" "send_all buflen s1 ds = Some (s', ps1)"
    using Cons.prems(1) b by (auto split: if_splits)
  have "length d \<le> 1400" using Cons.prems by auto
  note p = build_red_packet [OF Cons.prems(2) this Cons.prems(4-6) b]
  have IH: "length ps1 = length ds"
    "i < length ds \<Longrightarrow> ps1 ! i =
       red_packet ((length (h @ [d]) + i) mod 65536) (ds ! i) (secondaries e ((h @ [d]) @ take i ds))" for i
    using Cons.IH [OF ps(2) p(2)] p(3,4) Cons.prems by auto
  then show ?case
    using ps(1) p(1) by (auto simp: nth_Cons less_Suc_eq_0_disj split: nat.splits)
qed simp

lemma send_all_fits:
  assumes "tx_holds s h" "\<forall>d\<in>set ds. length d \<le> 1400"
    and "error_correction_scheme s = UDPTL_ERROR_CORRECTION_REDUNDANCY"
    and "error_correction_entries s = int e" "e \<le> 15"
    and "\<forall>i<length ds. length (red_packet ((length h + i) mod 65536) (ds ! i) (secondaries e (h @ take i ds))) \<le> buflen"
  shows "send_all buflen s ds \<noteq> None"
  using assms
proof (induction ds arbitrary: s h)
  case (Cons d ds)
  have *: "length d \<le> 1400"
    "length (red_packet (length h mod 65536) d (secondaries e h)) \<le> buflen"
    using Cons.prems by auto
  obtain s1 p where b: "udptl_build_packet s buflen d (int (length d)) = Some (s1, int (length p), p)"
    using build_red_packet_fits [OF Cons.prems(1) *(1) Cons.prems(3-5) *(2)] by blast
  note p = build_red_packet [OF Cons.prems(1) *(1) Cons.prems(3-5) b]
  have "send_all buflen s1 ds \<noteq> None"
  proof (rule Cons.IH [OF p(2)])
    show "\<forall>i<length ds. length (red_packet ((length (h @ [d]) + i) mod 65536) (ds ! i)
        (secondaries e ((h @ [d]) @ take i ds))) \<le> buflen"
      using Cons.prems(6) by (auto dest: spec [of _ "Suc _"])
  qed (use Cons.prems p in simp_all)
  with b show ?case by auto
qed simp

text \<open>
  Which packets arrive: \<open>arrivals_ok e k ns\<close> says that the packets \<open>ns\<close> arrive in sending
  order, none of them before \<open>k\<close>, and that at most \<open>e\<close> packets in a row are lost.
\<close>

fun arrivals_ok :: "nat \<Rightarrow> nat \<Rightarrow> nat list \<Rightarrow> bool" where
  "arrivals_ok e k [] = True"
| "arrivals_ok e k (n # ns) = (k \<le> n \<and> n \<le> k + e \<and> arrivals_ok e (n + 1) ns)"

lemma secondaries_nth:
  "j < min e (length h) \<Longrightarrow> secondaries e h ! j = h ! (length h - 1 - j)"
  "length (secondaries e h) = min e (length h)"
  by (simp_all add: secondaries_def)

lemma rx_nth_packet:
  assumes "ifps_ok = list_all ifp_ok ifps" ifps_ok and "length ifps \<le> 65536" "e \<le> 15" "n < length ifps"
    and "rx_seq_no s = int k" "k \<le> n" "n \<le> k + e"
  shows "udptl_rx_packet s (red_packet n (ifps ! n) (secondaries e (take n ifps)))
      (length (red_packet n (ifps ! n) (secondaries e (take n ifps)))) =
    Some (s\<lparr> rx_seq_no := int n + 1 \<rparr>, int (n + 1 - k), map (\<lambda>q. t38 q (ifps ! q)) [k..<n + 1])"
proof -
  let ?secs = "secondaries e (take n ifps)"
  have len: "length ?secs = min e n" using assms(5) by (simp add: secondaries_nth)
  have "list_all ifp_ok ?secs" "ifp_ok (ifps ! n)"
    using assms(1,2,5) by (auto simp: list_all_iff secondaries_def)
  then have "udptl_rx_packet s (red_packet n (ifps ! n) ?secs) (length (red_packet n (ifps ! n) ?secs)) =
    Some (s\<lparr> rx_seq_no := int n + 1 \<rparr>, int (n + 1 - max k (n - length ?secs)),
      map (\<lambda>q. t38 q ((ifps ! n # ?secs) ! (n - q))) [max k (n - length ?secs)..<n + 1])"
    using assms len by (intro rx_red_packet) auto
  moreover have "max k (n - length ?secs) = k"
    using assms(7,8) unfolding len by linarith
  moreover have "(ifps ! n # ?secs) ! (n - q) = ifps ! q" if "q \<in> set [k..<n + 1]" for q
  proof (cases "q = n")
    case False
    with that have q: "k \<le> q" "q < n" by auto
    then have "?secs ! (n - q - 1) = take n ifps ! (length (take n ifps) - 1 - (n - q - 1))"
      using assms(5,8) by (intro secondaries_nth) auto
    with q assms(5) show ?thesis by (simp add: nth_Cons')
  qed simp
  ultimately show ?thesis by (simp cong: map_cong)
qed

lemma arrivals_ok_last: "arrivals_ok e k ns \<Longrightarrow> k \<le> last (k # map Suc ns)"
proof (induction ns arbitrary: k)
  case (Cons n ns)
  then have "n + 1 \<le> last ((n + 1) # map Suc ns)" "k \<le> n" using Cons.IH [of "n + 1"] by simp_all
  then show ?case by simp
qed simp

lemma recv_all_arrivals:
  assumes "list_all ifp_ok ifps" "length ifps \<le> 65536" "e \<le> 15"
    and "\<forall>i<length ifps. ps ! i = red_packet i (ifps ! i) (secondaries e (take i ifps))"
    and "\<forall>n\<in>set ns. n < length ifps" "arrivals_ok e k ns" "rx_seq_no s = int k"
  shows "\<exists>s'. recv_all s (map ((!) ps) ns) = Some (s', map (\<lambda>q. t38 q (ifps ! q)) [k..<last (k # map Suc ns)]) \<and>
    rx_seq_no s' = int (last (k # map Suc ns))"
  using assms(5-)
proof (induction ns arbitrary: k s)
  case (Cons n ns)
  have rx: "udptl_rx_packet s (ps ! n) (length (ps ! n)) =
    Some (s\<lparr> rx_seq_no := int n + 1 \<rparr>, int (n + 1 - k), map (\<lambda>q. t38 q (ifps ! q)) [k..<n + 1])"
    using rx_nth_packet [OF refl assms(1-3), of n s k] assms(4) Cons.prems by simp
  obtain s' where s': "recv_all (s\<lparr> rx_seq_no := int n + 1 \<rparr>) (map ((!) ps) ns) =
      Some (s', map (\<lambda>q. t38 q (ifps ! q)) [n + 1..<last ((n + 1) # map Suc ns)])"
    "rx_seq_no s' = int (last ((n + 1) # map Suc ns))"
    using Cons.IH [of "n + 1" "s\<lparr> rx_seq_no := int n + 1 \<rparr>"] Cons.prems by auto
  have "n + 1 \<le> last ((n + 1) # map Suc ns)"
    using arrivals_ok_last [of e "n + 1" ns] Cons.prems(2) by simp
  then have "[k..<n + 1] @ [n + 1..<last ((n + 1) # map Suc ns)] = [k..<last (k # map Suc (n # ns))]"
    using Cons.prems(2) upt_add_eq_append [of k "n + 1" "last ((n + 1) # map Suc ns) - (n + 1)"] by simp
  with rx s' show ?case
    by (simp del: upt_Suc flip: map_append)
qed simp

lemma rx_late_packet:
  assumes "ifp_ok ifp" "n < 65536" "rx_seq_no s = int k" "n < k"
  shows "udptl_rx_packet s (red_packet n ifp secs) (length (red_packet n ifp secs)) =
    Some (s\<lparr> rx_seq_no := int n + 1 \<rparr>, 0, [])"
proof -
  define buf where "buf = red_packet n ifp secs"
  define tail where "tail = len_octets (length secs) @ concat (map open_octets secs)"
  define ptr where "ptr = length (seq_octets n @ open_octets ifp)"
  have buf: "buf = seq_octets n @ open_octets ifp @ 0 # tail"
    by (simp add: buf_def red_packet_def tail_def)
  have "byte_at buf 0 = Some (of_nat (n div 256))" "byte_at buf 1 = Some (of_nat (n mod 256))"
    by (simp_all add: buf seq_octets_def byte_at_def)
  moreover obtain obj where "decode_open_type buf (length buf) 2 = Some (0, ptr, obj)"
    using decode_open_type_entry [OF assms(1), of "seq_octets n" "length buf" buf "0 # tail"]
    by (auto simp: buf ptr_def seq_octets_def numeral_2_eq_2)
  moreover have "byte_at buf ptr = Some 0" "ptr + 1 \<le> length buf" "\<not> length buf < 2"
    by (simp_all add: buf ptr_def byte_at_def nth_append seq_octets_def)
  ultimately show ?thesis
    unfolding buf_def [symmetric] udptl_rx_packet_def using seq_octets_value [OF assms(2)] assms(3,4)
    by (simp add: rx_secondary_def rx_primary_def)
qed

lemma recv_all_append:
  "recv_all s (ps @ qs) =
    (case recv_all s ps of None \<Rightarrow> None | Some (s, fs) \<Rightarrow> map_option (\<lambda>(s, fs'). (s, fs @ fs')) (recv_all s qs))"
  by (induction ps arbitrary: s) (auto simp: map_option_case split: option.splits)

lemma arrivals_ok_upt: "arrivals_ok e k [k..<k + n]"
proof (induction n arbitrary: k)
  case (Suc n)
  then show ?case using upt_conv_Cons [of k "k + Suc n"] Suc.IH [of "k + 1"] by simp
qed simp

section \<open>What the receiver returns\<close>

lemma read_entries_length:
  "read_entries buf len ptr n es = Some (stat, ptr', es') \<Longrightarrow> length es' \<le> length es + n"
proof (induction n arbitrary: ptr es)
  case (Suc n)
  obtain st p obj where d: "decode_open_type buf len ptr = Some (st, p, obj)"
    using Suc.prems by (cases "decode_open_type buf len ptr") auto
  show ?case
  proof (cases "st = 0")
    case True
    with Suc.prems d have "read_entries buf len p n (es @ [obj]) = Some (stat, ptr', es')" by simp
    from Suc.IH [OF this] show ?thesis by simp
  qed (use Suc.prems d in simp)
qed simp

lemma read_secondary_length:
  "read_secondary buf len ptr es = Some (stat, es') \<Longrightarrow> length es \<le> 15 \<Longrightarrow> length es' \<le> 15"
proof (induction buf len ptr es rule: read_secondary.induct)
  case (1 buf len ptr es)
  obtain stat2 ptr1 v where d: "decode_length buf len ptr = Some (stat2, ptr1, v)"
    using "1.prems"(1) by (subst (asm) read_secondary.simps) (auto split: option.splits)
  let ?n = "min (case v of None \<Rightarrow> 0 | Some v \<Rightarrow> nat v) (15 - length es)"
  show ?case
  proof (cases "stat2 < 0")
    case True
    with "1.prems" d show ?thesis by (subst (asm) read_secondary.simps) simp
  next
    case False
    obtain st ptr2 es1 where r: "read_entries buf len ptr1 ?n es = Some (st, ptr2, es1)"
      using "1.prems"(1) d False
      by (subst (asm) read_secondary.simps) (auto simp: Let_def split: option.splits)
    have "length es1 \<le> 15"
      using read_entries_length [OF r] "1.prems"(2) by linarith
    moreover have "read_secondary buf len ptr es =
        (if st \<noteq> 0 then Some (-1, es1)
         else if stat2 > 0 \<and> length es1 < 15 then read_secondary buf len ptr2 es1 else Some (0, es1))"
      by (subst read_secondary.simps) (simp add: d False r)
    ultimately show ?thesis
      using "1.prems" "1.IH" [OF d refl refl False refl r refl refl] by (auto split: if_splits)
  qed
qed

definition frames_below :: "int \<Rightarrow> t38_frame list \<Rightarrow> bool" where
  "frames_below n fs \<longleftrightarrow> sorted_wrt (<) (map t_seqno fs) \<and> (\<forall>f\<in>set fs. t_seqno f < n)"

lemma play_secondary_shape:
  "play_secondary buf n k es i = Some fs \<Longrightarrow>
   length fs \<le> i \<and> sorted_wrt (<) (map t_seqno fs) \<and> (\<forall>f\<in>set fs. n - int i \<le> t_seqno f \<and> t_seqno f < n)"
proof (induction i arbitrary: fs)
  case (Suc i)
  show ?case
  proof (cases "n - int (Suc i) \<ge> k")
    case True
    then obtain obj fs' where f: "fs = t38_of buf (n - int (Suc i)) obj # fs'"
      "play_secondary buf n k es i = Some fs'"
      using Suc.prems by (auto split: option.splits)
    have "t_seqno (t38_of buf (n - int (Suc i)) obj) = n - int (Suc i)"
      by (simp add: t38_of_def split: prod.splits)
    with f Suc.IH [OF f(2)] show ?thesis by fastforce
  next
    case False
    then show ?thesis
      using Suc by fastforce
  qed
qed simp

lemma play_repaired_shape:
  assumes "length ls \<le> 15"
  shows "length (play_repaired rx rep n ls) \<le> 15" "frames_below n (play_repaired rx rep n ls)"
proof -
  define js where "js = map (\<lambda>i. n - UDPTL_BUF_MASK + int i) [0..<length ls]"
  have len: "length js = length ls" by (simp add: js_def)
  define zs where "zs = filter (\<lambda>(l, j). rep ! nat l) (zip ls js)"
  have sorted: "sorted_wrt (\<lambda>a b. snd a < snd b) (zip ls js)"
    by (auto simp: sorted_wrt_iff_nth_less js_def)
  then have "sorted_wrt (\<lambda>a b. snd a < snd b) zs"
    unfolding zs_def by (rule sorted_wrt_filter)
  moreover have "snd z < n" if "z \<in> set zs" for z
    using that assms by (auto simp: zs_def js_def UDPTL_BUF_MASK_def dest!: set_zip_rightD)
  moreover have seq: "map t_seqno (play_repaired rx rep n ls) = map snd zs"
    by (simp add: play_repaired_def zs_def js_def case_prod_beta comp_def)
  ultimately have "sorted_wrt (<) (map t_seqno (play_repaired rx rep n ls))"
    "\<forall>j\<in>set (map t_seqno (play_repaired rx rep n ls)). j < n"
    unfolding seq by (auto simp: sorted_wrt_map)
  then show "frames_below n (play_repaired rx rep n ls)"
    by (simp add: frames_below_def)
  have "length zs \<le> 15"
    using length_filter_le [of "\<lambda>(l, j). rep ! nat l" "zip ls js"] assms len by (simp add: zs_def)
  then show "length (play_repaired rx rep n ls) \<le> 15"
    using arg_cong [OF seq, of length] by simp
qed

lemma rx_primary_shape:
  assumes "rx_primary s buf n ifp fs = (s', r, fs')" "length fs \<le> 15" "frames_below n fs"
  shows "r = int (length fs') \<and> length fs' \<le> 16 \<and> sorted_wrt (<) (map t_seqno fs')"
proof -
  have "t_seqno (case ifp of None \<Rightarrow> \<lparr> t_seqno = n, t_datalen = 0, t_data = [] \<rparr>
      | Some obj \<Rightarrow> t38_of buf n obj) = n"
    by (simp add: t38_of_def split: option.splits prod.splits)
  with assms show ?thesis
    by (auto simp: rx_primary_def Let_def frames_below_def sorted_wrt_append)
qed


lemma rx_secondary_shape:
  assumes "rx_secondary s buf len ptr n ifp = Some (s', r, fs)"
  shows "(r = -1 \<and> fs = [] \<or> r = int (length fs)) \<and> length fs \<le> 16 \<and> sorted_wrt (<) (map t_seqno fs)"
proof (cases "n > rx_seq_no s")
  case True
  obtain stat es where es: "read_secondary buf len ptr [] = Some (stat, es)"
    using assms True by (cases "read_secondary buf len ptr []") (auto simp: rx_secondary_def)
  show ?thesis
  proof (cases "stat = 0")
    case True
    obtain gs where gs: "play_secondary buf n (rx_seq_no s) es (length es) = Some gs"
      "rx_primary s buf n ifp gs = (s', r, fs)"
      using assms es True \<open>n > rx_seq_no s\<close>
      by (cases "play_secondary buf n (rx_seq_no s) es (length es)") (auto simp: rx_secondary_def)
    have "length gs \<le> 15" "frames_below n gs"
      using play_secondary_shape [OF gs(1)] read_secondary_length [OF es] by (auto simp: frames_below_def)
    from rx_primary_shape [OF gs(2) this] show ?thesis by simp
  qed (use assms es \<open>n > rx_seq_no s\<close> in \<open>simp add: rx_secondary_def\<close>)
next
  case False
  then show ?thesis
    using assms rx_primary_shape [of s buf n ifp "[]" s' r fs]
    by (simp add: rx_secondary_def frames_below_def)
qed

lemma forward_walk_length:
  "ring_walk 256 1 ((x + 1) mod 16) x = Some ks \<Longrightarrow> 0 \<le> x \<Longrightarrow> x < 16 \<Longrightarrow> length ks \<le> 15"
  using forward_walk_total [of x] by auto

lemma rx_fec_mode_shape:
  assumes "rx_fec_mode s buf len ptr n ifp = Some (s', r, fs)"
  shows "(r = -1 \<and> fs = [] \<or> r = int (length fs)) \<and> length fs \<le> 16 \<and> sorted_wrt (<) (map t_seqno fs)"
proof -
  from assms consider "r = -1" "fs = []"
    | s1 rx rep ps where "ring_walk 256 1 ((n mod 16 + 1) mod 16) (n mod 16) = Some ps"
        "rx_primary s1 buf n ifp (play_repaired rx rep n ps) = (s', r, fs)"
    by (fastforce simp: rx_fec_mode_def Let_def bind_eq_Some_conv split: if_splits prod.splits)
  then show ?thesis
  proof cases
    case 2
    then have "length ps \<le> 15" by (intro forward_walk_length) auto
    from rx_primary_shape [OF 2(2) play_repaired_shape [OF this]] show ?thesis by simp
  qed simp
qed

section \<open>Properties\<close>

text \<open>An unused slot, and the state of an endpoint before any packet, as \<open>ast_udptl_new_with_bindaddr\<close> leaves it.\<close>

definition rx_blank :: udptl_fec_rx_buffer where
  "rx_blank = \<lparr> rx_buf_len = -1, rx_buf = replicate LOCAL_FAX_MAX_DATAGRAM 0,
     rx_fec_len = replicate 5 0, rx_fec = replicate 5 (replicate LOCAL_FAX_MAX_DATAGRAM 0),
     rx_fec_span = 0, rx_fec_entries = 0 \<rparr>"

definition fresh_udptl :: "udptl_error_correction \<Rightarrow> int \<Rightarrow> int \<Rightarrow> ast_udptl" where
  "fresh_udptl ec entries span =
     \<lparr> u_fd = 7, u_nat = False, u_us = \<lparr> sin_addr = 0, sin_port = 0 \<rparr>,
       u_them = \<lparr> sin_addr = 0, sin_port = 0 \<rparr>, u_ioid = False, udptl_offered_from_local = 0,
       error_correction_scheme = ec, error_correction_entries = entries,
       error_correction_span = span, far_max_datagram_size = 400, local_max_datagram_size = 400,
       tx_seq_no = 0, rx_seq_no = 0,
       u_tx = replicate 16 \<lparr> tx_buf_len = -1, tx_buf = replicate LOCAL_FAX_MAX_DATAGRAM 0 \<rparr>,
       u_rx = replicate 16 rx_blank \<rparr>"

lemma fresh_tx_holds: "tx_holds (fresh_udptl ec entries span) []"
  by (simp add: tx_holds_def fresh_udptl_def LOCAL_FAX_MAX_DATAGRAM_def)

text \<open>
  C7. Redundancy end to end. A fresh endpoint with at most 15 redundancy entries, \<open>e\<close>, sends at most
  65536 packet bodies of 1 to 1400 octets, as many as there are sequence numbers; of its packets some
  are lost, never more than \<open>e\<close> in a row, and the others arrive in order at an endpoint that expects
  packet 0. Then the receiver delivers every body up to the last packet that arrived, once, in order,
  with its sequence number and its exact octets. (The next body is lost in any case, as
  \<open>sequence_wrap_drops\<close> shows.)
\<close>

theorem redundancy_tolerates_loss:
  assumes "send_all buflen (fresh_udptl UDPTL_ERROR_CORRECTION_REDUNDANCY (int e) span) ifps = Some (s', ps)"
    and "list_all ifp_ok ifps" "length ifps \<le> 65536" "e \<le> 15"
    and "\<forall>n\<in>set ns. n < length ifps" "arrivals_ok e 0 ns" "rx_seq_no s = 0"
  shows "\<exists>s''. recv_all s (map ((!) ps) ns) =
    Some (s'', map (\<lambda>q. t38 q (ifps ! q)) [0..<last (0 # map Suc ns)])"
proof -
  have "\<forall>i<length ifps. ps ! i = red_packet i (ifps ! i) (secondaries e (take i ifps))"
    using send_all_packets [OF assms(1) fresh_tx_holds, of e] assms(2-4)
    by (auto simp: fresh_udptl_def list_all_iff dest: ifp_okD)
  moreover have "rx_seq_no s = int 0" using assms(7) by simp
  ultimately show ?thesis using recv_all_arrivals [OF assms(2-4) _ assms(5,6)] by blast
qed

text \<open>
  The bound is that of the sequence numbers. They have 16 bits in a packet, while the receiver counts on: with 65537 bodies
  and no loss at all, the last one travels as number 0, which the receiver takes for a late packet and drops.
\<close>

lemma sequence_wrap_drops:
  assumes "send_all buflen (fresh_udptl UDPTL_ERROR_CORRECTION_REDUNDANCY (int e) span) ifps = Some (s', ps)"
    and "list_all ifp_ok ifps" "length ifps = 65537" "e \<le> 15" "rx_seq_no s = 0"
  shows "\<exists>s''. recv_all s ps = Some (s'', map (\<lambda>q. t38 q (ifps ! q)) [0..<65536])"
proof -
  have ps: "length ps = 65537" "\<forall>i<65537. ps ! i = red_packet (i mod 65536) (ifps ! i) (secondaries e (take i ifps))"
    using send_all_packets [OF assms(1) fresh_tx_holds, of e] assms(2-4)
    by (auto simp: fresh_udptl_def list_all_iff dest: ifp_okD)
  let ?ifps = "take 65536 ifps"
  have ok: "list_all ifp_ok ?ifps" "length ?ifps = 65536" "\<forall>n\<in>set [0..<65536]. n < length ?ifps" using assms(2,3) by (auto simp: list_all_iff dest: in_set_takeD)
  have last: "last (0 # map Suc [0..<65536]) = 65536" by (simp add: last_map)
  have "\<forall>i<length ?ifps. ps ! i = red_packet i (?ifps ! i) (secondaries e (take i ?ifps))" using ps(2) ok(2) by (simp add: min_def)
  then obtain s1 where s1: "recv_all s (map ((!) ps) [0..<65536]) = Some (s1, map (\<lambda>q. t38 q (?ifps ! q)) [0..<65536])"
    "rx_seq_no s1 = 65536"
    using recv_all_arrivals [OF ok(1) _ assms(4) _ ok(3), of ps 0 s] ok(2) assms(5) arrivals_ok_upt [of e 0 65536] unfolding last by auto
  have "ps = map ((!) ps) [0..<65537]" using ps(1) map_nth [of ps] by simp
  also have "[0..<65537] = [0..<65536] @ [65536]" using upt_Suc_append [of 0 65536] by simp
  finally have split: "ps = map ((!) ps) [0..<65536] @ [ps ! 65536]" by simp
  have "ifp_ok (ifps ! 65536)" using assms(2,3) by (simp add: list_all_iff)
  then have "recv_all s1 [ps ! 65536] = Some (s1\<lparr> rx_seq_no := 1 \<rparr>, [])"
    using rx_late_packet [of "ifps ! 65536" 0 s1 65536] s1(2) ps(2) by simp
  moreover have "map (\<lambda>q. t38 q (?ifps ! q)) [0..<65536] = map (\<lambda>q. t38 q (ifps ! q)) [0..<65536]" by simp
  ultimately show ?thesis by (subst split) (simp add: recv_all_append s1(1) del: upt_rec_numeral)
qed

lemma red_example:
  "\<exists>s' ps. send_all 2800 (fresh_udptl UDPTL_ERROR_CORRECTION_REDUNDANCY (int 2) 0)
     [[1], [2, 3], [4], [5]] = Some (s', ps)"
proof -
  have "send_all 2800 (fresh_udptl UDPTL_ERROR_CORRECTION_REDUNDANCY (int 2) 0)
      [[1], [2, 3], [4], [5]] \<noteq> None"
    by (rule send_all_fits [OF fresh_tx_holds, where e = 2])
      (auto simp: fresh_udptl_def less_Suc_eq red_packet_def seq_octets_def open_octets_def
        len_octets_def secondaries_def upt_rec numeral_2_eq_2)
  then show ?thesis by fastforce
qed

theorem redundancy_tolerates_loss_witness:
  "\<exists>s' ps s''. send_all 2800 (fresh_udptl UDPTL_ERROR_CORRECTION_REDUNDANCY (int 2) 0)
       [[1], [2, 3], [4], [5]] = Some (s', ps)
     \<and> recv_all (fresh_udptl UDPTL_ERROR_CORRECTION_NONE 0 0) [ps ! 0, ps ! 3] =
         Some (s'', [t38 0 [1], t38 1 [2, 3], t38 2 [4], t38 3 [5]])"
proof -
  obtain s' ps where *: "send_all 2800 (fresh_udptl UDPTL_ERROR_CORRECTION_REDUNDANCY (int 2) 0)
       [[1], [2, 3], [4], [5]] = Some (s', ps)"
    using red_example by blast
  have "list_all ifp_ok [[1], [2, 3], [4], [5]]" "rx_seq_no (fresh_udptl UDPTL_ERROR_CORRECTION_NONE 0 0) = 0"
    by (simp_all add: ifp_ok_def LOCAL_FAX_MAX_DATAGRAM_def fresh_udptl_def)
  then have "\<exists>s''. recv_all (fresh_udptl UDPTL_ERROR_CORRECTION_NONE 0 0) (map ((!) ps) [0, 3]) =
      Some (s'', map (\<lambda>q. t38 q ([[1], [2, 3], [4], [5]] ! q)) [0..<last (0 # map Suc [0, 3])])"
    by (intro redundancy_tolerates_loss [OF *]) simp_all
  moreover have "[0..<last (0 # map Suc [0, 3])] = [0, 1, 2, 3]"
    by (simp add: upt_rec)
  ultimately have "\<exists>s''. recv_all (fresh_udptl UDPTL_ERROR_CORRECTION_NONE 0 0) [ps ! 0, ps ! 3] =
      Some (s'', [t38 0 [1], t38 1 [2, 3], t38 2 [4], t38 3 [5]])"
    by (simp only: list.map nth_Cons_0 nth_Cons_numeral) simp
  with * show ?thesis by blast
qed

text \<open>
  Whatever the packet contains, the receiver returns either \<open>-1\<close> and no frame, or the number
  of frames it chained: at most the 16 that the array \<open>s->f\<close> has room for, with strictly
  increasing sequence numbers.
\<close>

theorem udptl_rx_frames_bounded:
  assumes "udptl_rx_packet s buf len = Some (s', r, fs)"
  shows "(r = -1 \<and> fs = [] \<or> r = int (length fs)) \<and> length fs \<le> 16 \<and> sorted_wrt (<) (map t_seqno fs)"
proof -
  from assms consider "r = -1" "fs = []"
    | ptr n ifp where "rx_secondary s buf len ptr n ifp = Some (s', r, fs)"
    | ptr n ifp where "rx_fec_mode s buf len ptr n ifp = Some (s', r, fs)"
    by (fastforce simp: udptl_rx_packet_def Let_def bind_eq_Some_conv split: if_splits)
  then show ?thesis
    by cases (simp, erule rx_secondary_shape, erule rx_fec_mode_shape)
qed

theorem udptl_rx_frames_bounded_witness:
  "\<exists>s' r fs. udptl_rx_packet (fresh_udptl UDPTL_ERROR_CORRECTION_NONE 0 0) [0, 0, 1, 1, 0, 0] 6 = Some (s', r, fs)
     \<and> length fs \<le> 16"
proof -
  have "udptl_rx_packet (fresh_udptl UDPTL_ERROR_CORRECTION_NONE 0 0) [0, 0, 1, 1, 0, 0] 6 \<noteq> None"
    by (simp add: udptl_rx_packet_def byte_at_def decode_open_type_def decode_length_def rx_secondary_def
        fresh_udptl_def)
  then obtain s' r fs where
    *: "udptl_rx_packet (fresh_udptl UDPTL_ERROR_CORRECTION_NONE 0 0) [0, 0, 1, 1, 0, 0] 6 = Some (s', r, fs)"
    by (cases "udptl_rx_packet (fresh_udptl UDPTL_ERROR_CORRECTION_NONE 0 0) [0, 0, 1, 1, 0, 0] 6") auto
  from udptl_rx_frames_bounded [OF this] * show ?thesis by auto
qed

text \<open>
  Reordering makes the receiver deliver a packet twice. With one redundancy entry, when
  packet 1 overtakes packet 0, packet 1 delivers both bodies, the late packet 0 sets the
  expected sequence number back, and packet 2 delivers body 1 again.
\<close>

theorem reordering_delivers_twice:
  assumes "ifp_ok a" "ifp_ok b" "ifp_ok c" "rx_seq_no s = 0"
  shows "\<exists>s'. recv_all s [red_packet 1 b [a], red_packet 0 a [], red_packet 2 c [b]] =
    Some (s', [t38 0 a, t38 1 b, t38 1 b, t38 2 c])"
proof -
  have 1: "udptl_rx_packet s (red_packet 1 b [a]) (length (red_packet 1 b [a])) =
      Some (s\<lparr> rx_seq_no := 2 \<rparr>, 2, [t38 0 a, t38 1 b])"
    using rx_red_packet [of b "[a]" 1 s 0] assms by (simp add: upt_rec)
  have 2: "udptl_rx_packet (s\<lparr> rx_seq_no := 2 \<rparr>) (red_packet 0 a []) (length (red_packet 0 a [])) =
      Some (s\<lparr> rx_seq_no := 1 \<rparr>, 0, [])"
    using rx_late_packet [of a 0 "s\<lparr> rx_seq_no := 2 \<rparr>" 2] assms by simp
  have 3: "udptl_rx_packet (s\<lparr> rx_seq_no := 1 \<rparr>) (red_packet 2 c [b]) (length (red_packet 2 c [b])) =
      Some (s\<lparr> rx_seq_no := 3 \<rparr>, 2, [t38 1 b, t38 2 c])"
    using rx_red_packet [of c "[b]" 2 "s\<lparr> rx_seq_no := 1 \<rparr>" 1] assms by (simp add: upt_rec numeral_2_eq_2)
  show ?thesis by (simp add: 1 2 3 del: One_nat_def)
qed

theorem reordering_delivers_twice_witness:
  "\<exists>s'. recv_all (fresh_udptl UDPTL_ERROR_CORRECTION_NONE 0 0)
      [red_packet 1 [6] [[5]], red_packet 0 [5] [], red_packet 2 [7] [[6]]] =
    Some (s', [t38 0 [5], t38 1 [6], t38 1 [6], t38 2 [7]])"
  using reordering_delivers_twice [of "[5]" "[6]" "[7]" "fresh_udptl UDPTL_ERROR_CORRECTION_NONE 0 0"]
  by (simp add: ifp_ok_def LOCAL_FAX_MAX_DATAGRAM_def fresh_udptl_def)

end
