(* ===== verification/Udptl_Fec.thy ===== *)
theory Udptl_Fec
  imports Udptl
begin

text \<open>
  Forward error correction of UDPTL: a FEC element is the exclusive or of a group of packet
  bodies, and the receiver repairs the one body of the group that is missing. The theory
  also holds the invariant under which the receiver stays inside its buffers, and the one
  path of the code that leaves it.
\<close>

section \<open>Exclusive or of padded bodies\<close>

definition pad :: "byte list \<Rightarrow> nat \<Rightarrow> byte" where
  "pad d j = (if j < length d then d ! j else 0)"

definition rx_data :: "udptl_fec_rx_buffer \<Rightarrow> byte list" where
  "rx_data b = take (nat (rx_buf_len b)) (rx_buf b)"

lemma fec_mix_length: "length (fec_mix a b) = max (length a) (length b)"
  by (simp add: fec_mix_def)

lemma fec_mix_pad: "pad (fec_mix a b) j = pad a j XOR pad b j"
  by (auto simp: fec_mix_def pad_def nth_append)

definition xors :: "('k \<Rightarrow> byte) \<Rightarrow> 'k list \<Rightarrow> byte" where
  "xors f ks = foldr (\<lambda>k v. f k XOR v) ks 0"

lemma xors_simps [simp]: "xors f [] = 0" "xors f (k # ks) = f k XOR xors f ks"
  by (simp_all add: xors_def)

lemma foldl_xor: "foldl (\<lambda>v k. v XOR f k) a ks = a XOR xors f ks"
  by (induction ks arbitrary: a) (simp_all add: xor.assoc)

lemma foldl_fec_mix_pad:
  "pad (foldl (\<lambda>fec k. fec_mix fec (g k)) a ks) j = pad a j XOR xors (\<lambda>k. pad (g k) j) ks"
  by (induction ks arbitrary: a) (simp_all add: fec_mix_pad xor.assoc)

lemma fec_build_pad: "pad (fec_build tx ks) j = xors (\<lambda>k. pad (tx_data (tx ! nat k)) j) ks"
  by (simp add: fec_build_def foldl_fec_mix_pad) (simp add: pad_def)

lemma foldl_fec_mix_length:
  "length a \<le> length (foldl (\<lambda>fec k. fec_mix fec (g k)) a ks)
   \<and> (\<forall>k\<in>set ks. length (g k) \<le> length (foldl (\<lambda>fec k. fec_mix fec (g k)) a ks))"
proof (induction ks arbitrary: a)
  case (Cons k ks)
  from Cons [of "fec_mix a (g k)"] show ?case by (auto simp: fec_mix_length)
qed simp

lemma fec_build_length: "k \<in> set ks \<Longrightarrow> length (tx_data (tx ! nat k)) \<le> length (fec_build tx ks)"
  using foldl_fec_mix_length [of "[]" "\<lambda>k. tx_data (tx ! nat k)" ks] by (simp add: fec_build_def)

lemma xors_cong: "(\<And>k. k \<in> set ks \<Longrightarrow> f k = g k) \<Longrightarrow> xors f ks = xors g ks"
  by (induction ks) simp_all

lemma xors_cancel:
  assumes "distinct ks" "w \<in> set ks" "\<And>k. k \<in> set ks \<Longrightarrow> k \<noteq> w \<Longrightarrow> f k = g k" "g w = 0"
  shows "xors f ks XOR xors g ks = f w"
  using assms
proof (induction ks)
  case (Cons k ks)
  show ?case
  proof (cases "k = w")
    case True
    then have "xors f ks = xors g ks" using Cons.prems by (intro xors_cong) auto
    with True Cons.prems show ?thesis by (simp add: xor.assoc)
  next
    case False
    then have "xors f ks XOR xors g ks = f w" "f k = g k"
      using Cons.IH Cons.prems by auto
    then show ?thesis
      by (simp add: xor.left_commute xor.assoc flip: xor.assoc [of "g k" "g k"])
  qed
qed simp

section \<open>The walk visits a slot once\<close>

lemma ring_walk_det:
  "ring_walk f1 st k limit = Some a \<Longrightarrow> ring_walk f2 st k limit = Some b \<Longrightarrow> a = b"
proof (induction f1 arbitrary: f2 k a b)
  case (Suc f1)
  then show ?case by (cases f2) (auto split: if_splits)
qed simp

lemma ring_walk_suffix:
  "ring_walk f st k limit = Some ks \<Longrightarrow> k' \<in> set ks \<Longrightarrow>
   \<exists>f2 zs. ring_walk f2 st k' limit = Some zs \<and> length zs \<le> length ks"
proof (induction f arbitrary: k ks)
  case (Suc f)
  from Suc.prems obtain ks' where *: "k \<noteq> limit" "ks = k # ks'"
    "ring_walk f st ((k + st) AND UDPTL_BUF_MASK) limit = Some ks'"
    by (auto split: if_splits)
  show ?case
  proof (cases "k' = k")
    case True
    with Suc.prems(1) show ?thesis by blast
  next
    case False
    then have "k' \<in> set ks'" using Suc.prems * by simp
    from Suc.IH [OF *(3) this] * show ?thesis by fastforce
  qed
qed simp

lemma ring_walk_distinct: "ring_walk f st k limit = Some ks \<Longrightarrow> distinct ks"
proof (induction f arbitrary: k ks)
  case (Suc f)
  show ?case
  proof (cases "k = limit")
    case False
    with Suc.prems obtain ks' where *: "ks = k # ks'"
      "ring_walk f st ((k + st) AND UDPTL_BUF_MASK) limit = Some ks'"
      by auto
    have "k \<notin> set ks'"
    proof
      assume "k \<in> set ks'"
      from ring_walk_suffix [OF *(2) this] obtain f2 zs where
        "ring_walk f2 st k limit = Some zs" "length zs \<le> length ks'"
        by blast
      with ring_walk_det [OF Suc.prems] * show False by fastforce
    qed
    with Suc.IH [OF *(2)] * show ?thesis by simp
  qed (use Suc.prems in simp)
qed simp

section \<open>Repair\<close>

lemma fec_which_single:
  assumes "distinct ks" "w \<in> set ks" "0 \<le> w" "rx_buf_len (rx ! nat w) \<le> 0"
    and "\<And>k. k \<in> set ks \<Longrightarrow> k \<noteq> w \<Longrightarrow> rx_buf_len (rx ! nat k) > 0"
  shows "fec_which rx ks = w"
proof -
  let ?step = "\<lambda>which k. if rx_buf_len (rx ! nat k) \<le> 0 then if which = -1 then k else -2 else which"
  have keep: "foldl ?step v ks = v" if "\<forall>k\<in>set ks. \<not> rx_buf_len (rx ! nat k) \<le> 0" for ks v
    using that by (induction ks arbitrary: v) simp_all
  obtain as bs where ks: "ks = as @ w # bs"
    using split_list [OF assms(2)] by blast
  have "\<forall>k\<in>set as. \<not> rx_buf_len (rx ! nat k) \<le> 0" "\<forall>k\<in>set bs. \<not> rx_buf_len (rx ! nat k) \<le> 0"
    using assms(1,5) ks by (auto simp: not_le)
  then show ?thesis
    using assms(4) by (simp add: fec_which_def ks keep)
qed

lemma fec_byte_pad:
  assumes "\<And>k. k \<in> set ks \<Longrightarrow> rx_buf_len (rx ! nat k) \<le> int (length (rx_buf (rx ! nat k)))"
  shows "fec_byte rx ks fec j = fec ! j XOR xors (\<lambda>k. pad (rx_data (rx ! nat k)) j) ks"
proof -
  let ?b = "\<lambda>k. if rx_buf_len (rx ! nat k) > int j then rx_buf (rx ! nat k) ! j else 0"
  have "fec_byte rx ks fec j = fec ! j XOR xors ?b ks"
    unfolding fec_byte_def by (rule foldl_xor)
  moreover have "xors ?b ks = xors (\<lambda>k. pad (rx_data (rx ! nat k)) j) ks"
  proof (rule xors_cong)
    fix k assume "k \<in> set ks"
    from assms [OF this] have "int j < rx_buf_len (rx ! nat k) \<longleftrightarrow> j < length (rx_data (rx ! nat k))"
      by (auto simp: rx_data_def)
    then show "?b k = pad (rx_data (rx ! nat k)) j"
      by (simp add: pad_def rx_data_def)
  qed
  ultimately show ?thesis by simp
qed

lemma pad_nth_replicate:
  "length d \<le> n \<Longrightarrow> map (pad d) [0..<n] = d @ replicate (n - length d) 0"
  by (rule nth_equalityI) (auto simp: pad_def nth_append)

section \<open>The invariant of the receive buffer\<close>

definition rx_slot_ok :: "udptl_fec_rx_buffer \<Rightarrow> bool" where
  "rx_slot_ok b \<longleftrightarrow> length (rx_buf b) = 1400 \<and> rx_buf_len b \<le> 1400
     \<and> length (rx_fec_len b) = 5 \<and> (\<forall>n\<in>set (rx_fec_len b). 0 \<le> n \<and> n \<le> 1400)
     \<and> length (rx_fec b) = 5 \<and> (\<forall>f\<in>set (rx_fec b). length f = 1400)
     \<and> 0 \<le> rx_fec_span b \<and> rx_fec_span b < 256
     \<and> 0 \<le> rx_fec_entries b \<and> rx_fec_entries b \<le> 5"

definition rx_all_ok :: "udptl_fec_rx_buffer list \<Rightarrow> bool" where
  "rx_all_ok rx \<longleftrightarrow> length rx = 16 \<and> (\<forall>b\<in>set rx. rx_slot_ok b)"

lemma rx_all_ok_nth: "rx_all_ok rx \<Longrightarrow> k < 16 \<Longrightarrow> rx_slot_ok (rx ! k)"
  by (simp add: rx_all_ok_def)

lemma rx_all_ok_update: "rx_all_ok rx \<Longrightarrow> rx_slot_ok b \<Longrightarrow> rx_all_ok (rx[k := b])"
  unfolding rx_all_ok_def by (intro conjI all_list_update) auto

lemma rx_slot_ok_missed:
  assumes "rx_slot_ok b"
  shows "rx_slot_ok (b\<lparr> rx_buf_len := -1, rx_fec_len := (rx_fec_len b)[0 := 0],
      rx_fec_span := 0, rx_fec_entries := 0 \<rparr>)"
proof -
  have "\<forall>n\<in>set ((rx_fec_len b)[0 := 0]). 0 \<le> n \<and> n \<le> 1400"
    using assms unfolding rx_slot_ok_def by (intro all_list_update) simp_all
  with assms show ?thesis by (simp add: rx_slot_ok_def)
qed

lemma rx_slot_ok_element:
  assumes "rx_slot_ok b" "k \<le> 1400" "length fec = 1400"
  shows "rx_slot_ok (b\<lparr> rx_fec_len := (rx_fec_len b)[i := int k], rx_fec := (rx_fec b)[i := fec] \<rparr>)"
proof -
  have "\<forall>n\<in>set ((rx_fec_len b)[i := int k]). 0 \<le> n \<and> n \<le> 1400"
    "\<forall>f\<in>set ((rx_fec b)[i := fec]). length f = 1400"
    using assms unfolding rx_slot_ok_def by (intro all_list_update; simp)+
  with assms show ?thesis by (simp add: rx_slot_ok_def)
qed

lemma mark_missed_ok: "rx_all_ok rx \<Longrightarrow> rx_all_ok (fst (mark_missed n rx r))"
proof (induction n arbitrary: rx r)
  case (Suc n)
  let ?x = "nat (r AND UDPTL_BUF_MASK)"
  have "rx_slot_ok (rx ! ?x)"
    using Suc.prems by (intro rx_all_ok_nth) simp_all
  from Suc.IH [OF rx_all_ok_update [OF Suc.prems rx_slot_ok_missed [OF this]]] show ?case
    by (simp only: mark_missed.simps Let_def)
qed simp

lemma mark_missed_no: "snd (mark_missed n rx r) = r + int n"
  by (induction n arbitrary: rx r) (simp_all add: Let_def)

lemma memcpy_from_ok:
  assumes "length dst = 1400" "0 \<le> n" "n \<le> 1400" "n > 0 \<Longrightarrow> \<exists>off. src = Some off \<and> off + nat n \<le> length buf"
  shows "\<exists>d. memcpy_from buf src n dst = Some d \<and> length d = 1400"
  using assms by (cases "n = 0") (auto simp: memcpy_from_def)

section \<open>Repair of one body\<close>

lemma repair_entry_ok:
  assumes "rx_all_ok rx" "0 \<le> l" "l < 16" "m < 5" "length rep = 16"
  shows "\<exists>rx' rep'. repair_entry (rx, rep) l m = Some (rx', rep') \<and> rx_all_ok rx' \<and> length rep' = 16"
proof -
  define b where "b = rx ! nat l"
  define limit where "limit = (l + int m) mod 16"
  have b: "rx_slot_ok b" using assms by (simp add: b_def rx_all_ok_nth)
  then obtain ks where ks:
    "ring_walk 256 (rx_fec_entries b) ((limit - rx_fec_span b * rx_fec_entries b) mod 16) limit = Some ks"
    using fec_walk_total [of limit "rx_fec_span b" "rx_fec_entries b"] by (auto simp: rx_slot_ok_def limit_def)
  define n where "n = rx_fec_len b ! m"
  have n: "0 \<le> n" "n \<le> 1400" using b assms(4) by (simp_all add: rx_slot_ok_def n_def)
  define w where "w = nat (fec_which rx ks)"
  define new where "new = map (fec_byte rx ks (rx_fec b ! m)) [0..<nat n] @ drop (nat n) (rx_buf (rx ! w))"
  have "repair_entry (rx, rep) l m =
     (if fec_which rx ks \<ge> 0
      then Some (rx[w := (rx ! w)\<lparr> rx_buf := new, rx_buf_len := n \<rparr>], rep[w := True])
      else Some (rx, rep))"
    using n unfolding repair_entry_def prod.case Let_def b_def [symmetric] mask_mod limit_def [symmetric] ks
      n_def [symmetric]
    by (simp add: w_def new_def LOCAL_FAX_MAX_DATAGRAM_def)
  moreover have "rx_all_ok (rx[w := (rx ! w)\<lparr> rx_buf := new, rx_buf_len := n \<rparr>])"
  proof (cases "w < 16")
    case True
    then have "rx_slot_ok (rx ! w)" by (rule rx_all_ok_nth [OF assms(1)])
    then have "rx_slot_ok ((rx ! w)\<lparr> rx_buf := new, rx_buf_len := n \<rparr>)"
      using n by (simp add: rx_slot_ok_def new_def)
    then show ?thesis by (rule rx_all_ok_update [OF assms(1)])
  next
    case False
    then show ?thesis using assms(1) by (simp add: rx_all_ok_def list_update_beyond)
  qed
  ultimately show ?thesis using assms by simp
qed

lemma repair_entries_ok:
  assumes "rx_all_ok (fst rr)" "length (snd rr) = 16" "0 \<le> l" "l < 16" "m + n \<le> 5"
  shows "\<exists>rr'. repair_entries n m l rr = Some rr' \<and> rx_all_ok (fst rr') \<and> length (snd rr') = 16"
  using assms
proof (induction n arbitrary: m rr)
  case (Suc n)
  obtain rx' rep' where r: "repair_entry rr l m = Some (rx', rep')" "rx_all_ok rx'" "length rep' = 16"
    using repair_entry_ok [of "fst rr" l m "snd rr"] Suc.prems by auto
  with Suc.IH [of "(rx', rep')" "m + 1"] Suc.prems show ?case by auto
qed simp

lemma repair_slots_ok:
  assumes "rx_all_ok (fst rr)" "length (snd rr) = 16" "set ls \<subseteq> {0..<16}"
  shows "\<exists>rr'. repair_slots ls rr = Some rr' \<and> rx_all_ok (fst rr') \<and> length (snd rr') = 16"
  using assms
proof (induction ls arbitrary: rr)
  case (Cons l ls)
  show ?case
  proof (cases "rx_fec_len (fst rr ! nat l) ! 0 \<le> 0")
    case False
    have "rx_slot_ok (fst rr ! nat l)"
      using Cons.prems by (intro rx_all_ok_nth) auto
    then have "nat (rx_fec_entries (fst rr ! nat l)) \<le> 5"
      unfolding rx_slot_ok_def nat_le_iff by simp
    with Cons.prems obtain rr1 where
      "repair_entries (nat (rx_fec_entries (fst rr ! nat l))) 0 l rr = Some rr1"
      "rx_all_ok (fst rr1)" "length (snd rr1) = 16"
      using repair_entries_ok [of rr l 0 "nat (rx_fec_entries (fst rr ! nat l))"] by auto
    with Cons.IH [of rr1] Cons.prems False show ?thesis by simp
  qed (use Cons in simp)
qed simp

section \<open>Reading the FEC part\<close>

text \<open>The next \<open>n\<close> elements from \<open>ptr\<close> on are not empty, as far as they can be decoded.\<close>

fun nonempty_elements :: "byte list \<Rightarrow> nat \<Rightarrow> nat \<Rightarrow> nat \<Rightarrow> bool" where
  "nonempty_elements buf len 0 ptr = True"
| "nonempty_elements buf len (Suc n) ptr =
     (case decode_open_type buf len ptr of
        None \<Rightarrow> True
      | Some (stat, ptr, obj) \<Rightarrow> stat \<noteq> 0 \<or> obj \<noteq> None \<and> nonempty_elements buf len n ptr)"

lemma read_fec_ok:
  assumes "rx_slot_ok b" "len \<le> length buf" "nonempty_elements buf len n ptr" "i + n \<le> 5"
  shows "\<exists>stat b'. read_fec buf len n i ptr data b = Some (stat, b') \<and> (stat = 0 \<longrightarrow> rx_slot_ok b')"
  using assms
proof (induction n arbitrary: i ptr data b)
  case (Suc n)
  obtain st p obj where d: "decode_open_type buf len ptr = Some (st, p, obj)"
    using decode_open_type_defined [OF Suc.prems(2), of ptr] by (cases "decode_open_type buf len ptr") auto
  from d show ?case
  proof (cases rule: decode_open_type_cases)
    case (object off k)
    define b1 where "b1 = b\<lparr> rx_fec_len := (rx_fec_len b)[i := int k] \<rparr>"
    have i: "i < 5" "length (rx_fec_len b) = 5" "length (rx_fec b ! i) = 1400"
      using Suc.prems by (auto simp: rx_slot_ok_def)
    then have k: "rx_fec_len b1 ! i = int k" "rx_fec b1 = rx_fec b" by (simp_all add: b1_def)
    show ?thesis
    proof (cases "k > 1400")
      case True
      with d object k show ?thesis
        by (simp add: b1_def [symmetric] LOCAL_FAX_MAX_DATAGRAM_def)
    next
      case False
      obtain fec where fec: "memcpy_from buf (Some off) (int k) (rx_fec b ! i) = Some fec" "length fec = 1400"
        using memcpy_from_ok [of "rx_fec b ! i" "int k" "Some off" buf] i False object Suc.prems(2) by auto
      have "rx_slot_ok (b1\<lparr> rx_fec := (rx_fec b1)[i := fec] \<rparr>)"
        using rx_slot_ok_element [OF Suc.prems(1) _ fec(2), of k i] False by (simp add: b1_def)
      from Suc.IH [OF this Suc.prems(2), of p "i + 1" "Some off"] Suc.prems(3,4) d object
      obtain stat b' where "read_fec buf len n (i + 1) p (Some off) (b1\<lparr> rx_fec := (rx_fec b1)[i := fec] \<rparr>)
          = Some (stat, b')" "stat = 0 \<longrightarrow> rx_slot_ok b'"
        by auto
      with d object k fec False show ?thesis
        by (simp add: b1_def [symmetric] LOCAL_FAX_MAX_DATAGRAM_def)
    qed
  qed (use Suc.prems d in auto)
qed simp

lemma rx_slot_ok_upd:
  "rx_slot_ok b \<Longrightarrow> rx_slot_ok (b\<lparr> rx_fec_span := uint (v :: byte) \<rparr>)"
  "rx_slot_ok b \<Longrightarrow> 0 \<le> e \<Longrightarrow> e \<le> 5 \<Longrightarrow> rx_slot_ok (b\<lparr> rx_fec_entries := e \<rparr>)"
  "rx_slot_ok b \<Longrightarrow> length d = 1400 \<Longrightarrow> n \<le> 1400 \<Longrightarrow> rx_slot_ok (b\<lparr> rx_buf := d, rx_buf_len := n \<rparr>)"
  using uint_lt2p [of v] by (simp_all add: rx_slot_ok_def)

lemma read_fec_part_ok:
  assumes "rx_slot_ok b" "len \<le> length buf" "nonempty_elements buf len 5 (ptr + 3)"
  shows "\<exists>stat span entries b'. read_fec_part buf len ptr b = Some (stat, span, entries, b')
    \<and> (stat = 0 \<longrightarrow> rx_slot_ok b')"
proof -
  have mono: "nonempty_elements buf len n p" if "nonempty_elements buf len m p" "n \<le> m" for n m p
    using that
  proof (induction n arbitrary: m p)
    case (Suc n)
    then obtain k where "m = Suc k" "n \<le> k" by (cases m) auto
    with Suc show ?case by (auto split: option.splits)
  qed simp
  show ?thesis
  proof (cases "ptr + 3 \<le> len \<and> buf ! ptr = 1 \<and> uint (buf ! (ptr + 2)) \<le> 5")
    case True
    define e where "e = uint (buf ! (ptr + 2))"
    have e: "0 \<le> e" "e \<le> 5" using True by (simp_all add: e_def)
    then have "nonempty_elements buf len (nat e) (ptr + 3)"
      by (intro mono [OF assms(3)]) (simp add: nat_le_iff)
    moreover have "rx_slot_ok (b\<lparr> rx_fec_span := uint (buf ! (ptr + 1)), rx_fec_entries := e \<rparr>)"
      using e assms(1) by (intro rx_slot_ok_upd)
    ultimately obtain stat b' where "read_fec buf len (nat e) 0 (ptr + 3) None
        (b\<lparr> rx_fec_span := uint (buf ! (ptr + 1)), rx_fec_entries := e \<rparr>) = Some (stat, b')"
      "stat = 0 \<longrightarrow> rx_slot_ok b'"
      using read_fec_ok [OF _ assms(2), of _ "nat e" "ptr + 3" 0 None] e by (fastforce simp: nat_le_iff)
    with True assms(2) show ?thesis
      by (simp add: read_fec_part_def byte_at_def e_def Let_def MAX_FEC_ENTRIES_def)
  qed (use assms in \<open>auto simp: read_fec_part_def byte_at_def Let_def MAX_FEC_ENTRIES_def\<close>)
qed

lemma rx_fec_mode_safe:
  assumes "rx_all_ok (u_rx s)" "len \<le> length buf" "nonempty_elements buf len 5 (ptr + 3)"
    and "case ifp of None \<Rightarrow> True | Some (off, n) \<Rightarrow> off + n \<le> length buf"
  shows "\<exists>s' r fs. rx_fec_mode s buf len ptr seq ifp = Some (s', r, fs) \<and> (r \<noteq> -1 \<longrightarrow> rx_all_ok (u_rx s'))"
proof (cases "(case ifp of None \<Rightarrow> 0 | Some (off, n) \<Rightarrow> int n) > int LOCAL_FAX_MAX_DATAGRAM")
  case True
  then show ?thesis by (simp add: rx_fec_mode_def)
next
  case False
  define il where "il = (case ifp of None \<Rightarrow> 0 | Some (off, n) \<Rightarrow> int n)"
  have il: "0 \<le> il" "il \<le> 1400"
    using False by (auto simp: il_def LOCAL_FAX_MAX_DATAGRAM_def split: option.splits)
  obtain rx no where m: "mark_missed (nat (seq - rx_seq_no s)) (u_rx s) (rx_seq_no s) = (rx, no)"
    by fastforce
  have rx: "rx_all_ok rx" using mark_missed_ok [OF assms(1)] m by (metis fst_conv)
  define x where "x = seq mod 16"
  have x: "0 \<le> x" "x < 16" "nat x < 16" by (simp_all add: x_def nat_less_iff)
  have bx: "rx_slot_ok (rx ! nat x)" using rx x(3) by (rule rx_all_ok_nth)
  then obtain saved where saved: "memcpy_from buf (map_option fst ifp) il (rx_buf (rx ! nat x)) = Some saved"
    "length saved = 1400"
    using memcpy_from_ok [of "rx_buf (rx ! nat x)" il "map_option fst ifp" buf] il assms(4)
    by (auto simp: rx_slot_ok_def il_def split: option.splits)
  obtain stat span entries b where b: "read_fec_part buf len ptr
      ((rx ! nat x)\<lparr> rx_buf := saved, rx_buf_len := il \<rparr>) = Some (stat, span, entries, b)"
    "stat = 0 \<longrightarrow> rx_slot_ok b"
    using read_fec_part_ok [OF rx_slot_ok_upd(3) [OF bx saved(2) il(2)] assms(2,3)] by blast
  note unf = rx_fec_mode_def Let_def il_def [symmetric] m prod.case mask_mod x_def [symmetric] saved(1) b(1)
  show ?thesis
  proof (cases "stat = 0")
    case True
    with b(2) have rx1: "rx_all_ok (rx[nat x := b])" by (intro rx_all_ok_update [OF rx]) simp
    obtain ls where ls: "ring_walk 256 (-1) x ((x - (16 - span * entries)) mod 16) = Some ls"
      "set ls \<subseteq> {0..<16}"
      using back_walk_total [OF x(1,2)] by blast
    obtain rx2 rep2 where r: "repair_slots ls (rx[nat x := b], (replicate 16 False)[nat x := True]) =
        Some (rx2, rep2)" "rx_all_ok rx2"
      using repair_slots_ok [of "(rx[nat x := b], (replicate 16 False)[nat x := True])" ls] rx1 ls(2) by auto
    obtain ps where ps: "ring_walk 256 1 ((x + 1) mod 16) x = Some ps"
      using forward_walk_total [OF x(1,2)] by blast
    show ?thesis
      unfolding unf using False True ls(1) r ps by (simp add: b(1) rx_primary_def Let_def il_def [symmetric])
  next
    case stat: False
    show ?thesis
      unfolding unf using False stat by (simp add: b(1) il_def [symmetric])
  qed
qed

text \<open>
  The elements of the packet that the receiver decodes are not empty: the secondary packets, or
  the first five objects behind the FEC header.
\<close>

definition packet_elements_ok :: "byte list \<Rightarrow> nat \<Rightarrow> bool" where
  "packet_elements_ok buf len =
     (case decode_open_type buf len 2 of
        None \<Rightarrow> True
      | Some (stat, ptr, _) \<Rightarrow>
          if buf ! ptr AND 0x80 = 0
          then (case read_secondary buf len (ptr + 1) [] of
                  None \<Rightarrow> True | Some (_, es) \<Rightarrow> None \<notin> set es)
          else nonempty_elements buf len 5 (ptr + 4))"

lemma read_entries_defined: "len \<le> length buf \<Longrightarrow> read_entries buf len ptr n es \<noteq> None"
proof (induction n arbitrary: ptr es)
  case (Suc n)
  obtain st p obj where "decode_open_type buf len ptr = Some (st, p, obj)"
    using decode_open_type_defined [OF Suc.prems, of ptr] by (cases "decode_open_type buf len ptr") auto
  with Suc show ?case by simp
qed simp

lemma read_secondary_defined: "len \<le> length buf \<Longrightarrow> read_secondary buf len ptr es \<noteq> None"
proof (induction buf len ptr es rule: read_secondary.induct)
  case (1 buf len ptr es)
  obtain stat2 ptr1 v where d: "decode_length buf len ptr = Some (stat2, ptr1, v)"
    using decode_length_defined [OF "1.prems", of ptr] by (cases "decode_length buf len ptr") auto
  let ?n = "min (case v of None \<Rightarrow> 0 | Some v \<Rightarrow> nat v) (15 - length es)"
  obtain st ptr2 es1 where r: "read_entries buf len ptr1 ?n es = Some (st, ptr2, es1)"
    using read_entries_defined [OF "1.prems", of ptr1 ?n es] by (cases "read_entries buf len ptr1 ?n es") auto
  show ?case
  proof (cases "stat2 < 0")
    case True
    then show ?thesis by (subst read_secondary.simps) (simp add: d)
  next
    case False
    then show ?thesis
      using "1.IH" [OF d refl refl False refl r refl refl] "1.prems"
      by (subst read_secondary.simps) (simp add: d r)
  qed
qed

lemma play_secondary_defined: "None \<notin> set es \<Longrightarrow> i \<le> length es \<Longrightarrow> play_secondary buf n k es i \<noteq> None"
proof (induction i)
  case (Suc i)
  then have "es ! i \<noteq> None" by (metis Suc_le_lessD nth_mem)
  with Suc show ?case by (auto split: option.splits)
qed simp

lemma rx_secondary_safe:
  assumes "len \<le> length buf" "\<And>st es. read_secondary buf len ptr [] = Some (st, es) \<Longrightarrow> None \<notin> set es"
  shows "\<exists>s' r fs. rx_secondary s buf len ptr seq ifp = Some (s', r, fs) \<and> u_rx s' = u_rx s"
proof -
  obtain st es where es: "read_secondary buf len ptr [] = Some (st, es)"
    using read_secondary_defined [OF assms(1), of ptr "[]"] by (cases "read_secondary buf len ptr []") auto
  then obtain fs where "play_secondary buf seq (rx_seq_no s) es (length es) = Some fs"
    using play_secondary_defined [of es "length es" buf seq "rx_seq_no s"] assms(2) by blast
  with es show ?thesis by (simp add: rx_secondary_def rx_primary_def Let_def)
qed

section \<open>FEC packets\<close>

lemma rx_fec_dispatch:
  assumes "ifp_ok ifp" "n < 65536" "buf = seq_octets n @ open_octets ifp @ 0x80 # tail"
  shows "\<exists>off. udptl_rx_packet s buf (length buf) =
      rx_fec_mode s buf (length buf) (length (seq_octets n @ open_octets ifp @ [0x80 :: byte])) (int n)
        (Some (off, length ifp))
    \<and> off + length ifp \<le> length buf \<and> take (length ifp) (drop off buf) = ifp"
proof -
  define ptr where "ptr = length (seq_octets n @ open_octets ifp)"
  have "byte_at buf 0 = Some (of_nat (n div 256))" "byte_at buf 1 = Some (of_nat (n mod 256))"
    by (simp_all add: assms(3) seq_octets_def byte_at_def)
  moreover obtain obj where obj: "decode_open_type buf (length buf) 2 = Some (0, ptr, obj)" "entry_is buf obj ifp"
    using decode_open_type_entry [OF assms(1), of "seq_octets n" "length buf" buf "0x80 # tail"]
    by (auto simp: assms(3) ptr_def seq_octets_def numeral_2_eq_2)
  moreover have "byte_at buf ptr = Some 0x80" "ptr + 1 \<le> length buf" "\<not> length buf < 2"
    by (simp_all add: assms(3) ptr_def byte_at_def nth_append seq_octets_def)
  ultimately have "udptl_rx_packet s buf (length buf) = rx_fec_mode s buf (length buf) (ptr + 1) (int n) obj"
    unfolding udptl_rx_packet_def using seq_octets_value [OF assms(2)] by simp
  moreover obtain off where "obj = Some (off, length ifp)" "take (length ifp) (drop off buf) = ifp"
    using obj(2) by (auto simp: entry_is_def)
  moreover from this have "off + length ifp \<le> length buf"
    using obj(1) decode_open_type_cases [OF obj(1)] by fastforce
  ultimately show ?thesis by (auto simp: ptr_def)
qed

text \<open>A packet in FEC mode with span 1 and one element.\<close>

definition fec_packet_1 :: "nat \<Rightarrow> byte list \<Rightarrow> byte list \<Rightarrow> byte list" where
  "fec_packet_1 n ifp d = seq_octets n @ open_octets ifp @ 0x80 # [1, 1, 1] @ open_octets d"

lemma read_fec_part_1:
  assumes "0 < length d" "length d < 16384" "length (rx_fec_len b) = 5" "length (rx_fec b ! 0) = 1400"
    and "buf = fec_packet_1 n ifp d" "ptr = length (seq_octets n @ open_octets ifp @ [0x80 :: byte])"
  shows "read_fec_part buf (length buf) ptr b =
    (let b1 = b\<lparr> rx_fec_span := 1, rx_fec_entries := 1, rx_fec_len := (rx_fec_len b)[0 := int (length d)] \<rparr>
     in if length d > 1400 then Some (-1, 1, 1, b1)
        else Some (0, 1, 1, b1\<lparr> rx_fec := (rx_fec b)[0 := d @ drop (length d) (rx_fec b ! 0)] \<rparr>))"
proof -
  define pre where "pre = seq_octets n @ open_octets ifp @ [0x80, 1, 1, 1 :: byte]"
  have buf: "buf = pre @ open_octets d @ []" by (simp add: assms(5) fec_packet_1_def pre_def)
  have ptr: "ptr + 3 = length pre" "ptr + 3 \<le> length buf"
    by (simp_all add: assms(6) pre_def buf)
  have bytes: "byte_at buf ptr = Some 1" "byte_at buf (ptr + 1) = Some 1" "byte_at buf (ptr + 2) = Some 1"
    by (simp_all add: assms(6) buf pre_def byte_at_def nth_append)
  obtain off where d: "decode_open_type buf (length buf) (ptr + 3) =
      Some (0, length buf, Some (off, length d))" "off + length d = length buf" "drop off buf = d"
    using decode_open_type_octets [of d pre "length buf" "[]"] assms(1,2)
    by (auto simp: ptr(1) buf open_octets_def Let_def split: if_splits)
  have rf: "read_fec buf (length buf) (Suc 0) 0 (ptr + 3) None (b\<lparr> rx_fec_span := 1, rx_fec_entries := 1 \<rparr>) =
    (let b1 = b\<lparr> rx_fec_span := 1, rx_fec_entries := 1, rx_fec_len := (rx_fec_len b)[0 := int (length d)] \<rparr>
     in if length d > 1400 then Some (-1, b1)
        else Some (0, b1\<lparr> rx_fec := (rx_fec b)[0 := d @ drop (length d) (rx_fec b ! 0)] \<rparr>))"
    using assms(1-4) d
    by (simp add: Let_def LOCAL_FAX_MAX_DATAGRAM_def memcpy_from_def)
  have "read_fec_part buf (length buf) ptr b =
      read_fec buf (length buf) (Suc 0) 0 (ptr + 3) None (b\<lparr> rx_fec_span := 1, rx_fec_entries := 1 \<rparr>)
        \<bind> (\<lambda>(stat, b). Some (stat, 1, 1, b))"
    using ptr(2) unfolding read_fec_part_def Let_def MAX_FEC_ENTRIES_def
    by (simp add: bytes [simplified] del: read_fec.simps)
  then show ?thesis
    unfolding rf by (simp add: Let_def)
qed

lemma rx_blank_ok: "rx_all_ok (replicate 16 rx_blank)"
  by (simp add: rx_all_ok_def rx_slot_ok_def rx_blank_def LOCAL_FAX_MAX_DATAGRAM_def)

lemma rx_blank_missed:
  "rx_blank\<lparr> rx_buf_len := -1, rx_fec_len := (rx_fec_len rx_blank)[0 := 0], rx_fec_span := 0,
     rx_fec_entries := 0 \<rparr> = rx_blank"
  by (simp add: rx_blank_def list_update_same_conv [THEN iffD2])

lemma mark_missed_blank:
  "mark_missed n (replicate 16 rx_blank) r = (replicate 16 rx_blank, r + int n)"
proof (induction n arbitrary: r)
  case (Suc n)
  have "nat (r mod 16) < 16" by (simp add: nat_less_iff)
  then have "(replicate 16 rx_blank) ! nat (r mod 16) = rx_blank"
    "(replicate 16 rx_blank)[nat (r mod 16) := rx_blank] = replicate 16 rx_blank"
    by (simp_all add: list_update_same_conv)
  with Suc show ?case by (simp add: Let_def rx_blank_missed)
qed simp

lemma ring_walk_step:
  "0 < fuel \<Longrightarrow> ring_walk fuel st k limit =
     (if k = limit then Some [] else map_option ((#) k) (ring_walk (fuel - 1) st ((k + st) mod 16) limit))"
  by (cases fuel) simp_all

lemma ring_walk_examples:
  "ring_walk 256 (-1) 1 2 = Some [1, 0, 15, 14, 13, 12, 11, 10, 9, 8, 7, 6, 5, 4, 3]"
  "ring_walk 256 1 0 1 = Some [0]" "ring_walk 256 1 2 3 = Some [2]"
  by (simp_all add: ring_walk_step)

text \<open>The receiver after a packet 3 whose FEC element has 1401 octets.\<close>

definition rx_overlong :: "byte list \<Rightarrow> udptl_fec_rx_buffer" where
  "rx_overlong ifp = rx_blank\<lparr> rx_buf := ifp @ drop (length ifp) (rx_buf rx_blank),
     rx_buf_len := int (length ifp), rx_fec_span := 1, rx_fec_entries := 1, rx_fec_len := [1401, 0, 0, 0, 0] \<rparr>"

lemma rx_overlong_stored:
  assumes "ifp_ok ifp" "length d = 1401" "u_rx s = replicate 16 rx_blank" "rx_seq_no s = 0"
  shows "udptl_rx_packet s (fec_packet_1 3 ifp d) (length (fec_packet_1 3 ifp d)) =
    Some (s\<lparr> u_rx := (replicate 16 rx_blank)[3 := rx_overlong ifp], rx_seq_no := 3 \<rparr>, -1, [])"
proof -
  let ?p = "fec_packet_1 3 ifp d"
  define ptr where "ptr = length (seq_octets 3 @ open_octets ifp @ [0x80 :: byte])"
  obtain off where off: "udptl_rx_packet s ?p (length ?p) =
      rx_fec_mode s ?p (length ?p) ptr 3 (Some (off, length ifp))"
    "off + length ifp \<le> length ?p" "take (length ifp) (drop off ?p) = ifp"
    using rx_fec_dispatch [OF assms(1), of 3 ?p "[1, 1, 1] @ open_octets d" s]
    by (auto simp: fec_packet_1_def ptr_def)
  have ifp: "0 < length ifp" "length ifp \<le> 1400" using ifp_okD [OF assms(1)] by auto
  have len: "length (rx_buf rx_blank) = 1400" "length (rx_fec_len rx_blank) = 5" "length (rx_fec rx_blank ! 0) = 1400"
    "rx_fec_len rx_blank = [0, 0, 0, 0, 0]"
    by (simp_all add: rx_blank_def LOCAL_FAX_MAX_DATAGRAM_def numeral_eq_Suc)
  define b where "b = rx_blank\<lparr> rx_buf := ifp @ drop (length ifp) (rx_buf rx_blank), rx_buf_len := int (length ifp) \<rparr>"
  have saved: "memcpy_from ?p (Some off) (int (length ifp)) (rx_buf rx_blank) =
      Some (ifp @ drop (length ifp) (rx_buf rx_blank))"
    using off(2,3) ifp len by (simp add: memcpy_from_def)
  have part: "read_fec_part ?p (length ?p) ptr b = Some (-1, 1, 1, rx_overlong ifp)"
    using read_fec_part_1 [OF _ _ _ _ refl ptr_def, of d b] assms(2) len
    by (simp add: b_def rx_overlong_def Let_def)
  have nth: "replicate 16 rx_blank ! 3 = rx_blank" by simp
  show ?thesis
    unfolding off(1) rx_fec_mode_def Let_def option.case prod.case assms(3,4) mark_missed_blank option.map
      fst_conv mask_mod
    using ifp by (simp add: saved nth b_def [symmetric] part LOCAL_FAX_MAX_DATAGRAM_def)
qed

text \<open>The next packet with sequence number 1 reaches the overlong element.\<close>

lemma repair_slots_skip:
  "\<forall>l\<in>set ls. rx_fec_len (fst rr ! nat l) ! 0 \<le> 0 \<Longrightarrow> repair_slots (ls @ ls') rr = repair_slots ls' rr"
  by (induction ls) simp_all

lemma repair_reaches_overlong:
  assumes "rx = [rx_blank, b1, rx_blank, bad] @ replicate 12 rx_blank"
    and "rx_fec_len b1 = [1, 0, 0, 0, 0]" "rx_fec_span b1 = 1" "rx_fec_entries b1 = 1"
    and "rx_fec_len bad = [1401, 0, 0, 0, 0]" "rx_fec_span bad = 1" "rx_fec_entries bad = 1"
  shows "repair_slots [1, 0, 15, 14, 13, 12, 11, 10, 9, 8, 7, 6, 5, 4, 3] (rx, rep) = None"
proof -
  have blank: "rx_buf_len rx_blank = -1" "rx_fec_len rx_blank ! 0 = 0"
    by (simp_all add: rx_blank_def)
  define c where "c = rx_blank\<lparr> rx_buf := map (fec_byte rx [0] (rx_fec b1 ! 0)) [0..<1] @ drop 1 (rx_buf rx_blank),
     rx_buf_len := 1 \<rparr>"
  define rx1 where "rx1 = [c, b1, rx_blank, bad] @ replicate 12 rx_blank"
  have 1: "repair_entry (rx, rep) 1 0 = Some (rx1, rep[0 := True])"
    using assms(2-4) blank
    by (simp add: repair_entry_def assms(1) ring_walk_examples fec_which_def LOCAL_FAX_MAX_DATAGRAM_def
        c_def rx1_def Let_def)
  have 3: "repair_entry (rx1, rep') 3 0 = None" for rep'
    using assms(5-7) blank
    by (simp add: repair_entry_def rx1_def ring_walk_examples fec_which_def LOCAL_FAX_MAX_DATAGRAM_def Let_def)
  have "\<forall>l\<in>set [0, 15, 14, 13, 12, 11, 10, 9, 8, 7, 6, 5, 4]. rx_fec_len (rx1 ! nat l) ! 0 \<le> 0"
    using blank by (simp add: rx1_def c_def nth_append)
  then have "repair_slots ([0, 15, 14, 13, 12, 11, 10, 9, 8, 7, 6, 5, 4] @ [3]) (rx1, rep') =
      repair_slots [3] (rx1, rep')" for rep'
    by (intro repair_slots_skip) simp
  moreover have "repair_slots [3] (rx1, rep') = None" for rep'
    using assms(5,7) 3 [of rep'] by (simp add: rx1_def)
  moreover have "rx ! 1 = b1" by (simp add: assms(1))
  moreover have "repair_slots (1 # ls) (rx, rep) = repair_slots ls (rx1, rep[0 := True])" for ls
    using 1 assms(2,4) \<open>rx ! 1 = b1\<close> by simp
  ultimately show ?thesis
    by (simp only: append.simps)
qed

lemma rx_overlong_used:
  assumes "ifp_ok ifp" "u_rx s = (replicate 16 rx_blank)[3 := rx_overlong jfp]" "rx_seq_no s = 3"
  shows "udptl_rx_packet s (fec_packet_1 1 ifp [9]) (length (fec_packet_1 1 ifp [9])) = None"
proof -
  let ?p = "fec_packet_1 1 ifp [9]"
  define ptr where "ptr = length (seq_octets 1 @ open_octets ifp @ [0x80 :: byte])"
  obtain off where off: "udptl_rx_packet s ?p (length ?p) =
      rx_fec_mode s ?p (length ?p) ptr 1 (Some (off, length ifp))"
    "off + length ifp \<le> length ?p" "take (length ifp) (drop off ?p) = ifp"
    using rx_fec_dispatch [OF assms(1), of 1 ?p "[1, 1, 1] @ open_octets [9]" s]
    by (auto simp: fec_packet_1_def ptr_def)
  have ifp: "0 < length ifp" "length ifp \<le> 1400" using ifp_okD [OF assms(1)] by auto
  have len: "length (rx_buf rx_blank) = 1400" "length (rx_fec_len rx_blank) = 5" "length (rx_fec rx_blank ! 0) = 1400"
    "rx_fec_len rx_blank = [0, 0, 0, 0, 0]"
    by (simp_all add: rx_blank_def LOCAL_FAX_MAX_DATAGRAM_def numeral_eq_Suc)
  define b where "b = rx_blank\<lparr> rx_buf := ifp @ drop (length ifp) (rx_buf rx_blank), rx_buf_len := int (length ifp) \<rparr>"
  have saved: "memcpy_from ?p (Some off) (int (length ifp)) (rx_buf rx_blank) =
      Some (ifp @ drop (length ifp) (rx_buf rx_blank))"
    using off(2,3) ifp len by (simp add: memcpy_from_def)
  obtain b1 where part: "read_fec_part ?p (length ?p) ptr b = Some (0, 1, 1, b1)"
    and b1: "rx_fec_len b1 = [1, 0, 0, 0, 0]" "rx_fec_span b1 = 1" "rx_fec_entries b1 = 1"
    using read_fec_part_1 [OF _ _ _ _ refl ptr_def, of "[9]" b] len by (simp add: b_def Let_def)
  have "(replicate 16 rx_blank)[3 := rx_overlong jfp, 1 := b1] =
      [rx_blank, b1, rx_blank, rx_overlong jfp] @ replicate 12 rx_blank"
    by (simp add: numeral_eq_Suc)
  from repair_reaches_overlong [OF this b1] have
    rep: "repair_slots [1, 0, 15, 14, 13, 12, 11, 10, 9, 8, 7, 6, 5, 4, 3]
      ((replicate 16 rx_blank)[3 := rx_overlong jfp, 1 := b1], rep) = None" for rep
    by (simp add: rx_overlong_def)
  have nth: "(replicate 16 rx_blank)[3 := rx_overlong jfp] ! 1 = rx_blank" by simp
  show ?thesis
    unfolding off(1) rx_fec_mode_def Let_def option.case prod.case assms(2,3) option.map
      fst_conv mask_mod
    using ifp by (simp add: saved nth b_def [symmetric] part ring_walk_examples rep [unfolded One_nat_def]
        LOCAL_FAX_MAX_DATAGRAM_def del: One_nat_def repair_slots.simps)
qed

section \<open>Properties\<close>

text \<open>
  C8. FEC repair. Slot \<open>l\<close> carries the FEC element \<open>m\<close> that the transmitter computed over a group
  of packet bodies, and of that group exactly the body in slot \<open>w\<close> is missing at the receiver.
  Then the repair step fills slot \<open>w\<close> with the exact body, followed by zeros up to the longest body
  of the group, marks it as repaired and leaves every other slot as it is.
\<close>

theorem fec_repairs_single_loss:
  assumes "rx_all_ok rx" "0 \<le> l" "l < 16" "b = rx ! nat l" "limit = (l + int m) mod 16"
    and "ring_walk 256 (rx_fec_entries b) ((limit - rx_fec_span b * rx_fec_entries b) mod 16) limit = Some ks"
    and "rx_fec_len b ! m = int (length (fec_build tx ks))"
    and "take (length (fec_build tx ks)) (rx_fec b ! m) = fec_build tx ks" "length (fec_build tx ks) \<le> 1400"
    and "w \<in> set ks" "0 \<le> w" "w < 16" "rx_buf_len (rx ! nat w) \<le> 0"
    and "\<forall>k\<in>set ks. 0 \<le> k \<and> k < 16 \<and> (k \<noteq> w \<longrightarrow> rx_buf_len (rx ! nat k) > 0
           \<and> rx_data (rx ! nat k) = tx_data (tx ! nat k))"
  shows "\<exists>rx'. repair_entry (rx, rep) l m = Some (rx', rep[nat w := True])
    \<and> rx_data (rx' ! nat w) = tx_data (tx ! nat w)
        @ replicate (length (fec_build tx ks) - length (tx_data (tx ! nat w))) 0
    \<and> (\<forall>k. k \<noteq> nat w \<longrightarrow> rx' ! k = rx ! k)"
proof -
  let ?n = "length (fec_build tx ks)"
  have distinct: "distinct ks" by (rule ring_walk_distinct [OF assms(6)])
  have which: "fec_which rx ks = w"
    by (rule fec_which_single [OF distinct assms(10,11,13)]) (use assms(14) in auto)
  have slot: "rx_slot_ok (rx ! nat k)" if "0 \<le> k" "k < 16" for k
    using that by (intro rx_all_ok_nth [OF assms(1)]) (simp add: nat_less_iff)
  have "fec_byte rx ks (rx_fec b ! m) j = pad (tx_data (tx ! nat w)) j" if "j < ?n" for j
  proof -
    have "fec_byte rx ks (rx_fec b ! m) j = rx_fec b ! m ! j XOR xors (\<lambda>k. pad (rx_data (rx ! nat k)) j) ks"
      using slot assms(14) by (intro fec_byte_pad) (simp add: rx_slot_ok_def)
    also have "rx_fec b ! m ! j = pad (fec_build tx ks) j"
      using that assms(8) by (metis nth_take pad_def)
    also have "\<dots> = xors (\<lambda>k. pad (tx_data (tx ! nat k)) j) ks"
      by (rule fec_build_pad)
    also have "\<dots> XOR xors (\<lambda>k. pad (rx_data (rx ! nat k)) j) ks = pad (tx_data (tx ! nat w)) j"
      using assms(13,14) by (intro xors_cancel [OF distinct assms(10)]) (simp_all add: pad_def rx_data_def)
    finally show ?thesis .
  qed
  then have "map (fec_byte rx ks (rx_fec b ! m)) [0..<?n] = map (pad (tx_data (tx ! nat w))) [0..<?n]"
    by simp
  also have "\<dots> = tx_data (tx ! nat w) @ replicate (?n - length (tx_data (tx ! nat w))) 0"
    using assms(10) by (intro pad_nth_replicate fec_build_length)
  finally have new: "map (fec_byte rx ks (rx_fec b ! m)) [0..<?n] =
      tx_data (tx ! nat w) @ replicate (?n - length (tx_data (tx ! nat w))) 0" .
  define c where "c = (rx ! nat w)\<lparr> rx_buf := map (fec_byte rx ks (rx_fec b ! m)) [0..<?n]
      @ drop ?n (rx_buf (rx ! nat w)), rx_buf_len := int ?n \<rparr>"
  have "repair_entry (rx, rep) l m = Some (rx[nat w := c], rep[nat w := True])"
    unfolding repair_entry_def prod.case Let_def assms(4) [symmetric] mask_mod assms(5) [symmetric] assms(6)
    using assms(7,9,11) by (simp add: which c_def LOCAL_FAX_MAX_DATAGRAM_def)
  moreover have "nat w < length rx" using assms(1,11,12) by (simp add: rx_all_ok_def nat_less_iff)
  moreover have "length (tx_data (tx ! nat w)) \<le> ?n" by (rule fec_build_length [OF assms(10)])
  ultimately show ?thesis
    using new by (simp add: c_def rx_data_def)
qed

definition fec_tx_ex :: "udptl_fec_tx_buffer list" where
  "fec_tx_ex = replicate 16 \<lparr> tx_buf_len = 2, tx_buf = [5, 6] \<rparr>"

lemma fec_ex_walk: "ring_walk 256 1 1 3 = Some [1, 2]"
  by (simp add: ring_walk_step)

lemma fec_ex_build: "fec_build fec_tx_ex [1, 2] = [0, 0]"
  by (simp add: fec_build_def fec_tx_ex_def tx_data_def fec_mix_def)

theorem fec_repairs_single_loss_witness:
  "\<exists>rx rx' rep'. repair_entry (rx, replicate 16 False) 3 0 = Some (rx', rep') \<and> rx_data (rx' ! 2) = [5, 6]"
proof -
  define b where "b = rx_blank\<lparr> rx_fec_len := [2, 0, 0, 0, 0], rx_fec_span := 2, rx_fec_entries := 1 \<rparr>"
  define a where "a = rx_blank\<lparr> rx_buf := [5, 6] @ drop 2 (rx_buf rx_blank), rx_buf_len := 2 \<rparr>"
  define rx where "rx = [rx_blank, a, rx_blank, b] @ replicate 12 rx_blank"
  have ok: "rx_all_ok rx"
    by (auto simp: rx_all_ok_def rx_slot_ok_def rx_def a_def b_def rx_blank_def LOCAL_FAX_MAX_DATAGRAM_def)
  have fec: "take (Suc (Suc 0)) (rx_fec b ! 0) = [0, 0]"
    by (simp add: b_def rx_blank_def LOCAL_FAX_MAX_DATAGRAM_def take_replicate)
  have walk: "ring_walk 256 (rx_fec_entries b) ((3 - rx_fec_span b * rx_fec_entries b) mod 16) 3 = Some [1, 2]"
    by (simp add: b_def fec_ex_walk)
  have data: "rx_data a = [5, 6]" "rx_buf_len a = 2" "rx_buf_len rx_blank = -1" "rx_fec_len b ! 0 = 2"
    by (simp_all add: rx_data_def a_def b_def rx_blank_def)
  have tx: "tx_data (fec_tx_ex ! k) = [5, 6]" if "k < 16" for k
    using that by (simp add: fec_tx_ex_def tx_data_def)
  have "\<exists>rx'. repair_entry (rx, replicate 16 False) 3 0 = Some (rx', (replicate 16 False)[nat 2 := True])
    \<and> rx_data (rx' ! nat 2) = tx_data (fec_tx_ex ! nat 2)
        @ replicate (length (fec_build fec_tx_ex [1, 2]) - length (tx_data (fec_tx_ex ! nat 2))) 0
    \<and> (\<forall>k. k \<noteq> nat 2 \<longrightarrow> rx' ! k = rx ! k)"
    by (rule fec_repairs_single_loss [OF ok, of 3 b 3 0 "[1, 2]" fec_tx_ex 2])
      (simp_all add: walk fec_ex_build fec data tx rx_def)
  then show ?thesis
    by (auto simp: fec_ex_build tx)
qed

text \<open>
  C9. Memory safety of the receiver. When the receive buffer is within its bounds and no element
  that the receiver decodes is empty, the receiver stays inside its arrays for every packet, and
  a packet it accepts leaves the receive buffer within its bounds.
\<close>

theorem udptl_rx_memory_safe:
  assumes "rx_all_ok (u_rx s)" "len \<le> length buf" "packet_elements_ok buf len"
  shows "\<exists>s' r fs. udptl_rx_packet s buf len = Some (s', r, fs) \<and> (r \<noteq> -1 \<longrightarrow> rx_all_ok (u_rx s'))"
proof (cases "len < 2")
  case False
  obtain stat ptr ifp where d: "decode_open_type buf len 2 = Some (stat, ptr, ifp)"
    using decode_open_type_defined [OF assms(2), of 2] by (cases "decode_open_type buf len 2") auto
  show ?thesis
  proof (cases "stat = 0 \<and> ptr + 1 \<le> len")
    case True
    have ifp: "case ifp of None \<Rightarrow> True | Some (off, n) \<Rightarrow> off + n \<le> length buf"
      using d assms(2) by (cases rule: decode_open_type_cases) auto
    have "2 \<le> length buf" "ptr < length buf" using False True assms(2) by auto
    then have "buf \<noteq> []" "Suc 0 < length buf" by auto
    define seq where "seq = push_bit 8 (uint (buf ! 0)) OR uint (buf ! 1)"
    have "udptl_rx_packet s buf len =
      (if buf ! ptr AND 0x80 = 0 then rx_secondary s buf len (ptr + 1) seq ifp
       else rx_fec_mode s buf len (ptr + 1) seq ifp)"
      using False True d \<open>buf \<noteq> []\<close> \<open>Suc 0 < length buf\<close> \<open>ptr < length buf\<close>
      by (simp add: udptl_rx_packet_def byte_at_def seq_def)
    moreover have "\<exists>s' r fs. rx_secondary s buf len (ptr + 1) seq ifp = Some (s', r, fs) \<and> u_rx s' = u_rx s"
      if "buf ! ptr AND 0x80 = 0"
      using assms(3) d that by (intro rx_secondary_safe [OF assms(2)]) (simp add: packet_elements_ok_def)
    moreover have "\<exists>s' r fs. rx_fec_mode s buf len (ptr + 1) seq ifp = Some (s', r, fs)
        \<and> (r \<noteq> -1 \<longrightarrow> rx_all_ok (u_rx s'))"
      if "buf ! ptr AND 0x80 \<noteq> 0"
      using assms(3) d that
      by (intro rx_fec_mode_safe [OF assms(1,2) _ ifp])
        (simp add: packet_elements_ok_def add.commute [of 4] del: nonempty_elements.simps)
    ultimately show ?thesis
      using assms(1) by (cases "buf ! ptr AND 0x80 = 0") auto
  qed (use False assms(2) d in \<open>auto simp: udptl_rx_packet_def byte_at_def Let_def\<close>)
qed (simp add: udptl_rx_packet_def)

theorem udptl_rx_memory_safe_witness:
  "\<exists>s' r fs. udptl_rx_packet (fresh_udptl UDPTL_ERROR_CORRECTION_NONE 0 0) [0, 0, 1, 1, 0x80, 1, 1, 1, 1, 7] 10 =
     Some (s', r, fs) \<and> (r \<noteq> -1 \<longrightarrow> rx_all_ok (u_rx s'))"
proof (rule udptl_rx_memory_safe)
  show "rx_all_ok (u_rx (fresh_udptl UDPTL_ERROR_CORRECTION_NONE 0 0))"
    by (simp add: fresh_udptl_def rx_blank_ok)
  show "packet_elements_ok [0, 0, 1, 1, 0x80, 1, 1, 1, 1, 7] 10"
    by code_simp
qed simp

text \<open>
  C10. A packet that the receiver rejects can break that bound: a FEC element of 1401 octets is
  refused, but its length stays in the receive buffer, and the next, harmless packet then copies
  1401 octets into a buffer of 1400.
\<close>

theorem udptl_rx_overlong_fec_overflows:
  assumes "ifp_ok ifp" "ifp_ok jfp" "length d = 1401"
    and "u_rx s = replicate 16 rx_blank" "rx_seq_no s = 0"
  shows "\<exists>s'. udptl_rx_packet s (fec_packet_1 3 ifp d) (length (fec_packet_1 3 ifp d)) = Some (s', -1, [])
    \<and> udptl_rx_packet s' (fec_packet_1 1 jfp [9]) (length (fec_packet_1 1 jfp [9])) = None"
  using rx_overlong_stored [OF assms(1,3-5)] rx_overlong_used [OF assms(2)] by simp

theorem udptl_rx_overlong_fec_overflows_witness:
  "\<exists>s'. udptl_rx_packet (fresh_udptl UDPTL_ERROR_CORRECTION_NONE 0 0) (fec_packet_1 3 [4] (replicate 1401 8))
      (length (fec_packet_1 3 [4] (replicate 1401 8))) = Some (s', -1, [])
    \<and> udptl_rx_packet s' (fec_packet_1 1 [5] [9]) (length (fec_packet_1 1 [5] [9])) = None"
  by (rule udptl_rx_overlong_fec_overflows)
    (simp_all add: ifp_ok_def LOCAL_FAX_MAX_DATAGRAM_def fresh_udptl_def)

end
