(* ===== verification/Clib.thy ===== *)
theory Clib
  imports Prelude
begin

text \<open>
  The functions of the C library that the components call on character strings, and the
  boolean readers of \<open>main/utils.c\<close> built on them. A C string is a \<open>string\<close> without the
  terminating null character. \<open>atoi\<close> has no defined result when the number leaves the range of
  \<open>int\<close>; the model returns the unbounded number.
\<close>

section \<open>Characters\<close>

definition c_code :: "char \<Rightarrow> nat" where
  "c_code c = of_char c"

definition c_isdigit :: "char \<Rightarrow> bool" where
  "c_isdigit c \<longleftrightarrow> 48 \<le> c_code c \<and> c_code c \<le> 57"

definition c_isspace :: "char \<Rightarrow> bool" where
  "c_isspace c \<longleftrightarrow> c_code c = 32 \<or> (9 \<le> c_code c \<and> c_code c \<le> 13)"

definition c_tolower :: "char \<Rightarrow> char" where
  "c_tolower c = (if 65 \<le> c_code c \<and> c_code c \<le> 90 then char_of (c_code c + 32) else c)"

section \<open>Numbers\<close>

fun atoi_digits :: "int \<Rightarrow> string \<Rightarrow> int" where
  "atoi_digits n [] = n"
| "atoi_digits n (c # cs) =
     (if c_isdigit c then atoi_digits (10 * n + (int (c_code c) - 48)) cs else n)"

definition atoi_sign :: "string \<Rightarrow> int" where
  "atoi_sign s =
     (case s of [] \<Rightarrow> 0
      | c # cs \<Rightarrow> if c = CHR ''-'' then - atoi_digits 0 cs
                 else if c = CHR ''+'' then atoi_digits 0 cs else atoi_digits 0 s)"

definition atoi :: "string \<Rightarrow> int" where
  "atoi s = atoi_sign (dropWhile c_isspace s)"

section \<open>Comparison and truth values\<close>

definition strcaseeq :: "string \<Rightarrow> string \<Rightarrow> bool" where
  "strcaseeq a b \<longleftrightarrow> map c_tolower a = map c_tolower b"

definition ast_true :: "string option \<Rightarrow> bool" where
  "ast_true s =
     (case s of None \<Rightarrow> False
      | Some s \<Rightarrow> s \<noteq> [] \<and>
          (strcaseeq s ''yes'' \<or> strcaseeq s ''true'' \<or> strcaseeq s ''y'' \<or> strcaseeq s ''t''
           \<or> strcaseeq s ''1'' \<or> strcaseeq s ''on''))"

definition ast_false :: "string option \<Rightarrow> bool" where
  "ast_false s =
     (case s of None \<Rightarrow> False
      | Some s \<Rightarrow> s \<noteq> [] \<and>
          (strcaseeq s ''no'' \<or> strcaseeq s ''false'' \<or> strcaseeq s ''n'' \<or> strcaseeq s ''f''
           \<or> strcaseeq s ''0'' \<or> strcaseeq s ''off''))"

lemma strcaseeq_equiv:
  "strcaseeq a a" "strcaseeq a b \<Longrightarrow> strcaseeq b a" "strcaseeq a b \<Longrightarrow> strcaseeq b c \<Longrightarrow> strcaseeq a c"
  by (simp_all add: strcaseeq_def)

text \<open>No string is both true and false.\<close>

lemma ast_true_not_false: "\<not> (ast_true s \<and> ast_false s)"
  by (auto simp: ast_true_def ast_false_def strcaseeq_def c_tolower_def c_code_def split: option.splits)

end
