(* ===== verification/Udptl_Session.thy ===== *)
theory Udptl_Session
  imports Udptl Clib
begin

text \<open>
  The session layer of \<open>main/udptl.c\<close>: configuration, creation of an endpoint with its search
  for a free port, the accessors, reading and writing frames, and the registry of protocols.

  \<^item> The static variables of the file that \<open>ast_udptl_reload\<close> sets are the record \<open>udptl_conf\<close>.
  \<^item> The operating system is a parameter: whether \<open>socket\<close> and \<open>ast_calloc\<close> succeed, what
    \<open>bind\<close> answers for each port, the number \<open>random\<close> returns, what \<open>recvfrom\<close> delivers. A
    configuration file is the lookup function of its section \<open>general\<close>.
  \<^item> \<open>None\<close> at the outer level stands for undefined behaviour (a division by zero, an access
    outside an array) or, for the port search, for a search that does not end.
\<close>

section \<open>Configuration\<close>

record udptl_conf =
  udptlstart :: int
  udptlend :: int
  udptlfectype :: int
  udptlfecentries :: int
  udptlfecspan :: int
  udptlmaxdatagram :: int
  use_even_ports :: bool
  nochecksums :: bool

definition clamp_opt :: "int \<Rightarrow> int \<Rightarrow> int \<Rightarrow> string option \<Rightarrow> int" where
  "clamp_opt dflt lo hi s =
     (case s of None \<Rightarrow> dflt
      | Some s \<Rightarrow>
          let v = atoi s; v = (if v < lo then lo else v)
          in if v > hi then hi else v)"

definition ast_udptl_reload :: "bool \<Rightarrow> (string \<Rightarrow> string option) option \<Rightarrow> udptl_conf" where
  "ast_udptl_reload nochecks cfg =
     (let get = (\<lambda>name. case cfg of None \<Rightarrow> None | Some c \<Rightarrow> c name);
          start = clamp_opt 4500 1024 65535 (get ''udptlstart'');
          end' = clamp_opt 4999 1024 65535 (get ''udptlend'');
          nochecks = (case get ''udptlchecksums'' of None \<Rightarrow> nochecks | s \<Rightarrow> ast_false s);
          fectype = (if get ''T38FaxUdpEC'' = Some ''t38UDPFEC'' then 2
                     else if get ''T38FaxUdpEC'' = Some ''t38UDPRedundancy'' then 1 else 0);
          maxdatagram = clamp_opt 0 100 (int LOCAL_FAX_MAX_DATAGRAM) (get ''T38FaxMaxDatagram'');
          fecentries = clamp_opt 0 1 MAX_FEC_ENTRIES (get ''UDPTLFECentries'');
          fecspan = clamp_opt 0 1 MAX_FEC_SPAN (get ''UDPTLFECspan'');
          even' = ast_true (get ''use_even_ports'');
          (start, end') = (if start \<ge> end' then (4500, 4999) else (start, end'));
          start = (if even' \<and> start AND 1 \<noteq> 0 then start + 1 else start);
          end' = (if even' \<and> end' AND 1 \<noteq> 0 then end' - 1 else end')
      in \<lparr> udptlstart = start, udptlend = end', udptlfectype = fectype,
           udptlfecentries = fecentries, udptlfecspan = fecspan, udptlmaxdatagram = maxdatagram,
           use_even_ports = even', nochecksums = nochecks \<rparr>)"

section \<open>Creating an endpoint\<close>

datatype bind_result = Bind_ok | Bind_in_use | Bind_error

text \<open>
  The loop over the ports: \<open>Some (Some x)\<close> when port \<open>x\<close> was bound, \<open>Some None\<close> when the
  function gives up.
\<close>

fun port_search ::
    "nat \<Rightarrow> (int \<Rightarrow> bind_result) \<Rightarrow> udptl_conf \<Rightarrow> int \<Rightarrow> int \<Rightarrow> int option option" where
  "port_search 0 bnd c startplace x = None"
| "port_search (Suc fuel) bnd c startplace x =
     (case bnd x of
        Bind_ok \<Rightarrow> Some (Some x)
      | Bind_error \<Rightarrow> Some None
      | Bind_in_use \<Rightarrow>
          let x = (if use_even_ports c then x + 2 else x + 1);
              x = (if x > udptlend c then udptlstart c else x)
          in if x = startplace then Some None else port_search fuel bnd c startplace x)"

definition port_first :: "udptl_conf \<Rightarrow> int \<Rightarrow> int option" where
  "port_first c random =
     (if udptlend c - udptlstart c = 0 then None
      else
        let x = random smod (udptlend c - udptlstart c) + udptlstart c
        in Some (if use_even_ports c \<and> x AND 1 \<noteq> 0 then x + 1 else x))"

definition udptl_init :: "udptl_conf \<Rightarrow> ast_udptl" where
  "udptl_init c =
     \<lparr> u_fd = 0, u_nat = False, u_us = \<lparr> sin_addr = 0, sin_port = 0 \<rparr>,
       u_them = \<lparr> sin_addr = 0, sin_port = 0 \<rparr>, u_ioid = False, udptl_offered_from_local = 0,
       error_correction_scheme =
         (if udptlfectype c = 2 then UDPTL_ERROR_CORRECTION_FEC
          else if udptlfectype c = 1 then UDPTL_ERROR_CORRECTION_REDUNDANCY
          else UDPTL_ERROR_CORRECTION_NONE),
       error_correction_entries = udptlfecentries c,
       error_correction_span = udptlfecspan c,
       far_max_datagram_size = udptlmaxdatagram c, local_max_datagram_size = udptlmaxdatagram c,
       tx_seq_no = 0, rx_seq_no = 0,
       u_tx = replicate 16 \<lparr> tx_buf_len = -1, tx_buf = replicate LOCAL_FAX_MAX_DATAGRAM 0 \<rparr>,
       u_rx = replicate 16 rx_blank \<rparr>"

definition ast_udptl_new_with_bindaddr ::
    "nat \<Rightarrow> bool \<Rightarrow> int \<Rightarrow> int \<Rightarrow> (int \<Rightarrow> bind_result) \<Rightarrow> udptl_conf \<Rightarrow> bool \<Rightarrow> 32 word
      \<Rightarrow> ast_udptl option option" where
  "ast_udptl_new_with_bindaddr fuel calloc_ok fd random bnd c callbacks addr =
     (if \<not> calloc_ok then Some None
      else if fd < 0 then Some None
      else do {
        x \<leftarrow> port_first c random;
        found \<leftarrow> port_search fuel bnd c x x;
        Some (map_option (\<lambda>p. (udptl_init c)\<lparr> u_fd := fd,
          u_us := \<lparr> sin_addr = addr, sin_port = word_of_int p \<rparr>, u_ioid := callbacks \<rparr>) found)
      })"

definition ast_udptl_new ::
    "nat \<Rightarrow> bool \<Rightarrow> int \<Rightarrow> int \<Rightarrow> (int \<Rightarrow> bind_result) \<Rightarrow> udptl_conf \<Rightarrow> bool \<Rightarrow> ast_udptl option option" where
  "ast_udptl_new fuel calloc_ok fd random bnd c callbacks =
     ast_udptl_new_with_bindaddr fuel calloc_ok fd random bnd c callbacks 0"

section \<open>Accessors\<close>

text \<open>The pointer argument may be null (\<open>None\<close>); the getters then return \<open>-1\<close>.\<close>

definition ast_udptl_fd :: "ast_udptl \<Rightarrow> int" where
  "ast_udptl_fd u = u_fd u"

definition ast_udptl_setnat :: "ast_udptl \<Rightarrow> bool \<Rightarrow> ast_udptl" where
  "ast_udptl_setnat u nat' = u\<lparr> u_nat := nat' \<rparr>"

definition ast_udptl_offered_from_local :: "ast_udptl option \<Rightarrow> int \<Rightarrow> ast_udptl option" where
  "ast_udptl_offered_from_local u local = map_option (\<lambda>u. u\<lparr> udptl_offered_from_local := local \<rparr>) u"

definition ec_code :: "udptl_error_correction \<Rightarrow> int" where
  "ec_code ec =
     (case ec of UDPTL_ERROR_CORRECTION_NONE \<Rightarrow> 0 | UDPTL_ERROR_CORRECTION_FEC \<Rightarrow> 1
      | UDPTL_ERROR_CORRECTION_REDUNDANCY \<Rightarrow> 2)"

definition ast_udptl_get_error_correction_scheme :: "ast_udptl option \<Rightarrow> int" where
  "ast_udptl_get_error_correction_scheme u =
     (case u of None \<Rightarrow> -1 | Some u \<Rightarrow> ec_code (error_correction_scheme u))"

definition ast_udptl_set_error_correction_scheme :: "ast_udptl option \<Rightarrow> int \<Rightarrow> ast_udptl option" where
  "ast_udptl_set_error_correction_scheme u ec =
     map_option (\<lambda>u.
       if ec = ec_code UDPTL_ERROR_CORRECTION_FEC
       then u\<lparr> error_correction_scheme := UDPTL_ERROR_CORRECTION_FEC \<rparr>
       else if ec = ec_code UDPTL_ERROR_CORRECTION_REDUNDANCY
       then u\<lparr> error_correction_scheme := UDPTL_ERROR_CORRECTION_REDUNDANCY \<rparr>
       else if ec = ec_code UDPTL_ERROR_CORRECTION_NONE
       then u\<lparr> error_correction_scheme := UDPTL_ERROR_CORRECTION_NONE \<rparr>
       else u) u"

definition ast_udptl_get_local_max_datagram :: "ast_udptl option \<Rightarrow> int" where
  "ast_udptl_get_local_max_datagram u = (case u of None \<Rightarrow> -1 | Some u \<Rightarrow> local_max_datagram_size u)"

definition ast_udptl_get_far_max_datagram :: "ast_udptl option \<Rightarrow> int" where
  "ast_udptl_get_far_max_datagram u = (case u of None \<Rightarrow> -1 | Some u \<Rightarrow> far_max_datagram_size u)"

definition ast_udptl_set_local_max_datagram :: "ast_udptl option \<Rightarrow> int \<Rightarrow> ast_udptl option" where
  "ast_udptl_set_local_max_datagram u n = map_option (\<lambda>u. u\<lparr> local_max_datagram_size := n \<rparr>) u"

definition ast_udptl_set_far_max_datagram :: "ast_udptl option \<Rightarrow> int \<Rightarrow> ast_udptl option" where
  "ast_udptl_set_far_max_datagram u n = map_option (\<lambda>u. u\<lparr> far_max_datagram_size := n \<rparr>) u"

definition ast_udptl_set_peer :: "ast_udptl \<Rightarrow> sockaddr_in \<Rightarrow> ast_udptl" where
  "ast_udptl_set_peer u them =
     u\<lparr> u_them := (u_them u)\<lparr> sin_port := sin_port them, sin_addr := sin_addr them \<rparr> \<rparr>"

definition ast_udptl_get_peer :: "ast_udptl \<Rightarrow> sockaddr_in" where
  "ast_udptl_get_peer u = \<lparr> sin_addr = sin_addr (u_them u), sin_port = sin_port (u_them u) \<rparr>"

definition ast_udptl_get_us :: "ast_udptl \<Rightarrow> sockaddr_in" where
  "ast_udptl_get_us u = u_us u"

definition ast_udptl_stop :: "ast_udptl \<Rightarrow> ast_udptl" where
  "ast_udptl_stop u = u\<lparr> u_them := (u_them u)\<lparr> sin_addr := 0, sin_port := 0 \<rparr> \<rparr>"

section \<open>Reading and writing\<close>

text \<open>
  \<open>ast_udptl_read\<close>: \<open>received\<close> is what \<open>recvfrom\<close> stored in the raw buffer, the number of octets
  it returned and the sender, or \<open>None\<close> for an error. No frame stands for \<open>ast_null_frame\<close>.
\<close>

definition ast_udptl_read ::
    "ast_udptl \<Rightarrow> (byte list \<times> nat \<times> sockaddr_in) option \<Rightarrow> (ast_udptl \<times> t38_frame list) option" where
  "ast_udptl_read u received =
     (case received of
        None \<Rightarrow> Some (u, [])
      | Some (rawdata, res, sin) \<Rightarrow>
          if sin_addr (u_them u) = 0 \<or> sin_port (u_them u) = 0 then Some (u, [])
          else
            let u = (if u_nat u \<and> (sin_addr (u_them u) \<noteq> sin_addr sin \<or> sin_port (u_them u) \<noteq> sin_port sin)
                     then u\<lparr> u_them := sin \<rparr> else u)
            in do {
              (u, r, frames) \<leftarrow> udptl_rx_packet u rawdata res;
              Some (u, if r < 1 then [] else frames)
            })"

text \<open>\<open>udptlread\<close>, the I/O callback: it passes a frame on when a user callback is set.\<close>

definition udptlread ::
    "ast_udptl \<Rightarrow> (byte list \<times> nat \<times> sockaddr_in) option \<Rightarrow> bool
      \<Rightarrow> (ast_udptl \<times> t38_frame list option \<times> int) option" where
  "udptlread u received callback =
     do {
       (u, frames) \<leftarrow> ast_udptl_read u received;
       Some (u, if callback then Some frames else None, 1)
     }"

text \<open>
  \<open>ast_udptl_write\<close> for a frame with the octets \<open>data\<close>; \<open>modem\<close> says that its type is
  \<open>AST_FRAME_MODEM\<close>. The last component is the datagram given to \<open>sendto\<close>.
\<close>

definition ast_udptl_write ::
    "ast_udptl \<Rightarrow> bool \<Rightarrow> byte list \<Rightarrow> int \<Rightarrow> (ast_udptl \<times> int \<times> byte list option) option" where
  "ast_udptl_write s modem data datalen =
     (if sin_addr (u_them s) = 0 then Some (s, 0, None)
      else if datalen = 0 then Some (s, 0, None)
      else if \<not> modem then Some (s, -1, None)
      else do {
        (s, len, buf) \<leftarrow> udptl_build_packet s (LOCAL_FAX_MAX_DATAGRAM * 2) data datalen;
        Some (s, 0, if len > 0 \<and> sin_port (u_them s) \<noteq> 0 \<and> sin_addr (u_them s) \<noteq> 0 then Some buf else None)
      })"

section \<open>Registry of protocols\<close>

text \<open>A registered protocol: its address and the address of its type name.\<close>

record ast_udptl_protocol =
  pr_addr :: nat
  pr_type :: nat

fun ast_udptl_proto_unregister :: "ast_udptl_protocol list \<Rightarrow> nat \<Rightarrow> ast_udptl_protocol list" where
  "ast_udptl_proto_unregister [] proto = []"
| "ast_udptl_proto_unregister (cur # rest) proto =
     (if pr_addr cur = proto then rest else cur # ast_udptl_proto_unregister rest proto)"

definition ast_udptl_proto_register ::
    "ast_udptl_protocol list \<Rightarrow> ast_udptl_protocol \<Rightarrow> ast_udptl_protocol list \<times> int" where
  "ast_udptl_proto_register protos proto =
     (if \<exists>cur\<in>set protos. pr_type cur = pr_type proto then (protos, -1) else (proto # protos, 0))"

definition get_proto :: "ast_udptl_protocol list \<Rightarrow> nat \<Rightarrow> ast_udptl_protocol option" where
  "get_proto protos type = find (\<lambda>cur. pr_type cur = type) protos"


section \<open>The port search\<close>

definition port_step :: "udptl_conf \<Rightarrow> int" where
  "port_step c = (if use_even_ports c then 2 else 1)"

definition port_count :: "udptl_conf \<Rightarrow> nat" where
  "port_count c = nat ((udptlend c - udptlstart c) div port_step c + 1)"

definition port_nth :: "udptl_conf \<Rightarrow> nat \<Rightarrow> int" where
  "port_nth c i = udptlstart c + port_step c * int i"

text \<open>The ports the search may use.\<close>

definition port_usable :: "udptl_conf \<Rightarrow> int \<Rightarrow> bool" where
  "port_usable c p \<longleftrightarrow> udptlstart c \<le> p \<and> p \<le> udptlend c \<and> (use_even_ports c \<longrightarrow> even p)"

definition ports_ok :: "udptl_conf \<Rightarrow> bool" where
  "ports_ok c \<longleftrightarrow> udptlstart c \<le> udptlend c \<and> (use_even_ports c \<longrightarrow> even (udptlstart c))"

lemma port_nth_inj: "port_nth c i = port_nth c j \<longleftrightarrow> i = j"
  by (simp add: port_nth_def port_step_def)

lemma port_nth_le:
  assumes "ports_ok c"
  shows "port_nth c i \<le> udptlend c \<longleftrightarrow> i < port_count c"
proof (cases "use_even_ports c")
  case True
  have "udptlstart c + 2 * int i \<le> udptlend c \<longleftrightarrow> int i \<le> (udptlend c - udptlstart c) div 2" by linarith
  with True assms show ?thesis by (simp add: port_nth_def port_step_def port_count_def ports_ok_def) linarith
next
  case False
  with assms show ?thesis by (auto simp: port_nth_def port_step_def port_count_def ports_ok_def)
qed

lemma port_usable_nth:
  assumes "ports_ok c"
  shows "port_usable c p \<longleftrightarrow> (\<exists>i<port_count c. p = port_nth c i)"
proof
  assume u: "port_usable c p"
  let ?i = "nat ((p - udptlstart c) div port_step c)"
  have "port_step c dvd p - udptlstart c"
    using u assms by (simp add: port_usable_def ports_ok_def port_step_def)
  then have "port_step c * ((p - udptlstart c) div port_step c) = p - udptlstart c" by simp
  moreover have "0 \<le> (p - udptlstart c) div port_step c"
    using u by (simp add: port_usable_def port_step_def pos_imp_zdiv_nonneg_iff)
  ultimately have "p = port_nth c ?i" by (simp add: port_nth_def)
  then obtain i where i: "p = port_nth c i" by blast
  have "i < port_count c"
    using port_nth_le [OF assms, of i] u unfolding port_usable_def i by blast
  with i show "\<exists>i<port_count c. p = port_nth c i" by blast
next
  assume "\<exists>i<port_count c. p = port_nth c i"
  then obtain i where i: "i < port_count c" "p = port_nth c i" by blast
  have "p \<le> udptlend c" using port_nth_le [OF assms, of i] i by simp
  moreover have "udptlstart c \<le> p" "use_even_ports c \<Longrightarrow> even p"
    using assms by (simp_all add: i(2) port_nth_def port_step_def ports_ok_def)
  ultimately show "port_usable c p" by (simp add: port_usable_def)
qed

lemma port_next:
  assumes "ports_ok c" "i < port_count c"
  shows "(let x = (if use_even_ports c then port_nth c i + 2 else port_nth c i + 1)
          in if x > udptlend c then udptlstart c else x) = port_nth c (Suc i mod port_count c)"
proof -
  have x: "(if use_even_ports c then port_nth c i + 2 else port_nth c i + 1) = port_nth c (Suc i)"
    by (simp add: port_nth_def port_step_def)
  show ?thesis
  proof (cases "Suc i < port_count c")
    case True
    with port_nth_le [OF assms(1), of "Suc i"] show ?thesis by (simp add: x)
  next
    case False
    then have "Suc i = port_count c" using assms(2) by linarith
    then have "Suc i mod port_count c = 0" by simp
    moreover have "\<not> port_nth c (Suc i) \<le> udptlend c"
      using port_nth_le [OF assms(1), of "Suc i"] False by simp
    ultimately show ?thesis by (simp add: x port_nth_def)
  qed
qed

definition port_outcome :: "(int \<Rightarrow> bind_result) \<Rightarrow> udptl_conf \<Rightarrow> int option \<Rightarrow> bool" where
  "port_outcome bnd c r =
     (case r of
        Some p \<Rightarrow> port_usable c p \<and> bnd p = Bind_ok
      | None \<Rightarrow> (\<exists>p. port_usable c p \<and> bnd p = Bind_error)
          \<or> (\<forall>p. port_usable c p \<longrightarrow> bnd p = Bind_in_use))"

lemma mod_shift_neq: "(i::nat) < N \<Longrightarrow> 0 < d \<Longrightarrow> d < N \<Longrightarrow> (i + d) mod N \<noteq> i"
  by (cases "i + d < N") (auto simp: le_mod_geq)

lemma port_search_from:
  assumes "ports_ok c" "i0 < port_count c" "k < port_count c" "port_count c - k \<le> fuel"
    and "\<forall>m<k. bnd (port_nth c ((i0 + m) mod port_count c)) = Bind_in_use"
  shows "\<exists>r. port_search fuel bnd c (port_nth c i0) (port_nth c ((i0 + k) mod port_count c)) = Some r
    \<and> port_outcome bnd c r"
  using assms(3-)
proof (induction fuel arbitrary: k)
  case (Suc fuel)
  let ?N = "port_count c"
  let ?x = "port_nth c ((i0 + k) mod ?N)"
  have lt: "(i0 + k) mod ?N < ?N" using assms(2) by (simp add: mod_less_divisor)
  then have usable: "port_usable c ?x" using port_usable_nth [OF assms(1)] by blast
  show ?case
  proof (cases "bnd ?x")
    case Bind_in_use
    have nxt: "(let x = (if use_even_ports c then ?x + 2 else ?x + 1)
        in if x > udptlend c then udptlstart c else x) = port_nth c ((i0 + Suc k) mod ?N)"
      using port_next [OF assms(1) lt] by (simp add: mod_Suc_eq)
    have step: "port_search (Suc fuel) bnd c (port_nth c i0) ?x =
        (if port_nth c ((i0 + Suc k) mod ?N) = port_nth c i0 then Some None
         else port_search fuel bnd c (port_nth c i0) (port_nth c ((i0 + Suc k) mod ?N)))"
      using nxt Bind_in_use by (simp add: Let_def)
    have all: "\<forall>m<Suc k. bnd (port_nth c ((i0 + m) mod ?N)) = Bind_in_use"
      using Suc.prems(3) Bind_in_use by (simp add: less_Suc_eq)
    show ?thesis
    proof (cases "Suc k < ?N")
      case True
      then have "(i0 + Suc k) mod ?N \<noteq> i0"
        by (intro mod_shift_neq [OF assms(2)]) simp_all
      moreover have "\<exists>r. port_search fuel bnd c (port_nth c i0) (port_nth c ((i0 + Suc k) mod ?N)) = Some r
          \<and> port_outcome bnd c r"
        using Suc.prems(2) by (intro Suc.IH [OF True _ all]) linarith
      ultimately show ?thesis unfolding step port_nth_inj by simp
    next
      case False
      then have k: "Suc k = ?N" using Suc.prems(1) by simp
      have "bnd p = Bind_in_use" if u: "port_usable c p" for p
      proof -
        obtain j where j: "j < ?N" "p = port_nth c j"
          using iffD1 [OF port_usable_nth [OF assms(1)] u] by blast
        let ?m = "(j + ?N - i0) mod ?N"
        have "(i0 + ?m) mod ?N = (i0 + (j + ?N - i0)) mod ?N" by (rule mod_add_right_eq)
        also have "\<dots> = j" using j(1) assms(2) by simp
        finally have "(i0 + ?m) mod ?N = j" .
        moreover have "?m < Suc k" using k assms(2) by simp
        ultimately show ?thesis using spec [OF all, of ?m] j(2) by simp
      qed
      moreover have "(i0 + Suc k) mod ?N = i0" using k assms(2) by simp
      ultimately show ?thesis unfolding step port_outcome_def by simp
    qed
  qed (use usable in \<open>auto simp: port_outcome_def\<close>)
qed simp


section \<open>Properties\<close>

lemma odd_and_1: "(x::int) AND 1 \<noteq> 0 \<longleftrightarrow> odd x"
  by (simp add: and_one_eq odd_iff_mod_2_eq_one)

lemma clamp_opt_range: "lo \<le> hi \<Longrightarrow> clamp_opt d lo hi s = d \<or> lo \<le> clamp_opt d lo hi s \<and> clamp_opt d lo hi s \<le> hi"
  by (simp add: clamp_opt_def Let_def split: option.splits)

text \<open>
  C35. Whatever the configuration file contains, the configuration is within the limits of the
  program: ports from 1024 to 65535 in a range that is not reversed, and even at both ends when even
  ports are requested; at most 5 FEC entries and a FEC span of at most 5; a maximum datagram of 0 (not
  set) or 100 to 1400.
\<close>

theorem ast_udptl_reload_limits:
  "(let c = ast_udptl_reload n cfg
    in 1024 \<le> udptlstart c \<and> udptlstart c \<le> udptlend c \<and> udptlend c \<le> 65535
     \<and> (if use_even_ports c then even (udptlstart c) \<and> even (udptlend c) else udptlstart c < udptlend c)
     \<and> 0 \<le> udptlfecentries c \<and> udptlfecentries c \<le> 5 \<and> 0 \<le> udptlfecspan c \<and> udptlfecspan c \<le> 5
     \<and> (udptlmaxdatagram c = 0 \<or> 100 \<le> udptlmaxdatagram c \<and> udptlmaxdatagram c \<le> 1400)
     \<and> udptlfectype c \<in> {0, 1, 2})"
proof -
  define g where "g = (\<lambda>name. case cfg of None \<Rightarrow> None | Some c \<Rightarrow> c name)"
  have r: "clamp_opt 4500 1024 65535 s \<in> {1024..65535}" "clamp_opt 4999 1024 65535 s \<in> {1024..65535}" for s
    using clamp_opt_range [of 1024 65535 4500 s] clamp_opt_range [of 1024 65535 4999 s] by auto
  have odd_lt: "odd a \<Longrightarrow> a < b \<Longrightarrow> a + 1 \<le> b" "odd b \<Longrightarrow> a < b \<Longrightarrow> a \<le> b - 1"
    "odd a \<Longrightarrow> odd b \<Longrightarrow> a < b \<Longrightarrow> a + 1 \<le> b - 1" for a b :: int
    by (presburger+)
  define a b where "a = clamp_opt 4500 1024 65535 (g ''udptlstart'')" and "b = clamp_opt 4999 1024 65535 (g ''udptlend'')"
  have ab: "1024 \<le> a" "b \<le> 65535" "a \<le> 65535" "1024 \<le> b" using r by (simp_all add: a_def b_def)
  have lim: "0 \<le> clamp_opt 0 1 5 s \<and> clamp_opt 0 1 5 s \<le> 5"
    "clamp_opt 0 100 1400 s = 0 \<or> 100 \<le> clamp_opt 0 100 1400 s \<and> clamp_opt 0 100 1400 s \<le> 1400" for s
    using clamp_opt_range [of 1 5 0 s] clamp_opt_range [of 100 1400 0 s] by auto
  show ?thesis
    unfolding ast_udptl_reload_def Let_def g_def [symmetric] a_def [symmetric] b_def [symmetric]
    using ab lim odd_lt [of a b]
    by (auto simp: odd_and_1 MAX_FEC_ENTRIES_def MAX_FEC_SPAN_def LOCAL_FAX_MAX_DATAGRAM_def)
qed

text \<open>
  C30. The port search ends, for every answer of \<open>bind\<close>: with a fuel of one step per port of
  the range it returns a port inside the range (an even one when even ports are requested) that
  \<open>bind\<close> accepted; or it gives up, because \<open>bind\<close> failed for another reason than a port in
  use, or because every port it may use is in use.
\<close>

theorem port_search_complete:
  assumes "ports_ok c" "port_usable c x" "nat (udptlend c - udptlstart c) + 1 \<le> fuel"
  shows "\<exists>r. port_search fuel bnd c x x = Some r \<and>
    (case r of
       Some p \<Rightarrow> port_usable c p \<and> bnd p = Bind_ok
     | None \<Rightarrow> (\<exists>p. port_usable c p \<and> bnd p = Bind_error)
         \<or> (\<forall>p. port_usable c p \<longrightarrow> bnd p = Bind_in_use))"
proof -
  obtain i where i: "i < port_count c" "x = port_nth c i"
    using iffD1 [OF port_usable_nth [OF assms(1)] assms(2)] by blast
  have "(udptlend c - udptlstart c) div port_step c \<le> udptlend c - udptlstart c"
    using assms(1) unfolding port_step_def ports_ok_def by (simp split: if_splits) linarith
  then have "port_count c \<le> fuel"
    using assms(1,3) unfolding port_count_def ports_ok_def by linarith
  then show ?thesis
    using port_search_from [OF assms(1) i(1), of 0 fuel bnd] i by (simp add: port_outcome_def)
qed

definition conf_ex :: udptl_conf where
  "conf_ex = \<lparr> udptlstart = 4500, udptlend = 4503, udptlfectype = 0, udptlfecentries = 0, udptlfecspan = 0,
     udptlmaxdatagram = 0, use_even_ports = False, nochecksums = False \<rparr>"

theorem port_search_complete_witness:
  "\<exists>r. port_search 4 (\<lambda>p. if p = 4501 then Bind_ok else Bind_in_use) conf_ex 4502 4502 = Some r
     \<and> r = Some 4501"
proof -
  let ?bnd = "\<lambda>p::int. if p = 4501 then Bind_ok else Bind_in_use"
  have usable: "port_usable conf_ex 4501" "port_usable conf_ex 4502" "ports_ok conf_ex"
    by (simp_all add: ports_ok_def port_usable_def conf_ex_def)
  obtain r where r: "port_search 4 ?bnd conf_ex 4502 4502 = Some r"
    "case r of Some p \<Rightarrow> port_usable conf_ex p \<and> ?bnd p = Bind_ok
     | None \<Rightarrow> (\<exists>p. port_usable conf_ex p \<and> ?bnd p = Bind_error)
         \<or> (\<forall>p. port_usable conf_ex p \<longrightarrow> ?bnd p = Bind_in_use)"
    using port_search_complete [OF usable(3,2), of 4 ?bnd] by (auto simp: conf_ex_def)
  have "\<not> (\<exists>p. port_usable conf_ex p \<and> ?bnd p = Bind_error)"
    "\<not> (\<forall>p. port_usable conf_ex p \<longrightarrow> ?bnd p = Bind_in_use)"
    using usable(1) by (auto split: if_splits)
  with r have "r = Some 4501"
    by (auto split: option.splits if_splits)
  with r(1) show ?thesis by blast
qed

text \<open>
  A port range that even ports shrink to a single port makes the creation of an endpoint
  divide by zero: with \<open>udptlstart=5001\<close>, \<open>udptlend=5002\<close> and \<open>use_even_ports=yes\<close> both
  limits become 5002, and the remainder by their difference is undefined.
\<close>

theorem even_port_range_collapses:
  assumes "cfg ''udptlstart'' = Some ''5001''" "cfg ''udptlend'' = Some ''5002''"
    "cfg ''use_even_ports'' = Some ''yes''" "fd \<ge> 0"
  shows "ast_udptl_new_with_bindaddr fuel True fd random bnd (ast_udptl_reload n (Some cfg)) cb addr = None"
proof -
  have "udptlstart (ast_udptl_reload n (Some cfg)) = 5002" "udptlend (ast_udptl_reload n (Some cfg)) = 5002"
    by (simp_all add: ast_udptl_reload_def Let_def assms(1-3) clamp_opt_def atoi_def atoi_sign_def c_isdigit_def
        c_isspace_def c_code_def ast_true_def strcaseeq_def odd_and_1)
  with assms(4) show ?thesis
    by (simp add: ast_udptl_new_with_bindaddr_def port_first_def)
qed

theorem even_port_range_collapses_witness:
  "ast_udptl_new_with_bindaddr 9 True 3 12345 (\<lambda>p. Bind_ok)
     (ast_udptl_reload False (Some ((\<lambda>x. None)(''udptlstart'' := Some ''5001'', ''udptlend'' := Some ''5002'',
        ''use_even_ports'' := Some ''yes'')))) False 0 = None"
  by (rule even_port_range_collapses) simp_all

text \<open>
  Registering and looking up protocols: a protocol whose type is not yet registered is
  registered, is found by its type, and unregistering it restores the list; a second one with
  the same type is refused and the list kept.
\<close>

theorem udptl_proto_registry:
  "case ast_udptl_proto_register protos p of (protos', r) \<Rightarrow>
     if \<exists>q\<in>set protos. pr_type q = pr_type p then r = -1 \<and> protos' = protos
     else r = 0 \<and> get_proto protos' (pr_type p) = Some p
       \<and> ast_udptl_proto_unregister protos' (pr_addr p) = protos"
  by (simp add: ast_udptl_proto_register_def get_proto_def)

text \<open>
  A frame is sent only to a peer with an address and a port, and what is sent is the packet
  \<open>udptl_build_packet\<close> built; a frame without data or without a peer address changes nothing, and a
  frame of another type than modem is refused.
\<close>

theorem ast_udptl_write_effect:
  assumes "ast_udptl_write s modem d n = Some (s', r, sent)"
  shows "(if sin_addr (u_them s) = 0 \<or> n = 0 then s' = s \<and> r = 0 \<and> sent = None
     else if \<not> modem then s' = s \<and> r = -1 \<and> sent = None
     else r = 0 \<and> (\<exists>len p. udptl_build_packet s 2800 d n = Some (s', len, p)
       \<and> sent = (if len > 0 \<and> sin_port (u_them s') \<noteq> 0 \<and> sin_addr (u_them s') \<noteq> 0 then Some p else None)))"
  using assms by (auto simp: ast_udptl_write_def LOCAL_FAX_MAX_DATAGRAM_def bind_eq_Some_conv split: if_splits)

theorem ast_udptl_write_effect_witness:
  "ast_udptl_write (fresh_udptl UDPTL_ERROR_CORRECTION_NONE 0 0) True [1] 1 =
     Some (fresh_udptl UDPTL_ERROR_CORRECTION_NONE 0 0, 0, None)"
proof -
  have "ast_udptl_write (fresh_udptl UDPTL_ERROR_CORRECTION_NONE 0 0) True [1] 1 \<noteq> None"
    by (simp add: ast_udptl_write_def fresh_udptl_def)
  then obtain s' r sent where
    *: "ast_udptl_write (fresh_udptl UDPTL_ERROR_CORRECTION_NONE 0 0) True [1] 1 = Some (s', r, sent)"
    by (cases "ast_udptl_write (fresh_udptl UDPTL_ERROR_CORRECTION_NONE 0 0) True [1] 1") auto
  from ast_udptl_write_effect [OF this] * show ?thesis
    by (simp add: fresh_udptl_def split: if_splits)
qed

end
