(* ===== verification/FixedJitterbuf.thy ===== *)
theory FixedJitterbuf
  imports Prelude
begin

text \<open>
  The jitter buffer of constant size, \<open>main/fixedjitterbuf.c\<close>.

  \<^item> The doubly linked list from \<open>frames\<close> to \<open>tail\<close> is a list; \<open>prev\<close> and \<open>next\<close> are the
    neighbours in it, and the two assertions that \<open>tail\<close> is null when \<open>frames\<close> is have no counterpart.
    \<open>long\<close> values are integers.
  \<^item> An operation that fails an \<open>ASSERT\<close>, or writes through the null pointer of an
    unsuccessful \<open>ast_calloc\<close>, gives \<open>Inl\<close> of the fault. The argument \<open>alloc\<close> says whether
    \<open>ast_calloc\<close> succeeds.
  \<^item> \<open>fixed_jb_put\<close>, \<open>resynch_jb\<close> and \<open>fixed_jb_put_first\<close> call each other; they take fuel, and
    four calls are shown to be enough on every well-formed buffer.
\<close>

section \<open>Data\<close>

datatype fixed_jb_code = FIXED_JB_OK | FIXED_JB_DROP | FIXED_JB_INTERP | FIXED_JB_NOFRAME

datatype fixed_fault = Assertion_failed | Null_dereference | Out_of_fuel

definition FIXED_JB_SIZE_DEFAULT :: int where "FIXED_JB_SIZE_DEFAULT = 200"
definition FIXED_JB_RESYNCH_THRESHOLD_DEFAULT :: int where "FIXED_JB_RESYNCH_THRESHOLD_DEFAULT = 1000"

record fixed_jb_conf =
  fc_jbsize :: int
  fc_resync_threshold :: int

record 'd fixed_jb_frame =
  ff_data :: 'd
  ff_ts :: int
  ff_ms :: int
  ff_delivery :: int

record 'd fixed_jb =
  fj_frames :: "'d fixed_jb_frame list"
  fj_conf :: fixed_jb_conf
  fj_rxcore :: int
  fj_delay :: int
  fj_next_delivery :: int
  fj_force_resynch :: bool

section \<open>Operations\<close>

text \<open>\<open>get_jb_head\<close>, called on a buffer with frames only.\<close>

fun get_jb_head :: "'d fixed_jb \<Rightarrow> fixed_fault + 'd fixed_jb \<times> 'd fixed_jb_frame" where
  "get_jb_head jb =
     (case fj_frames jb of
        [] \<Rightarrow> Inl Null_dereference
      | fr # rest \<Rightarrow>
          Inr (jb\<lparr> fj_frames := rest, fj_next_delivery := ff_delivery fr + ff_ms fr \<rparr>, fr))"

definition fixed_jb_new :: "bool \<Rightarrow> fixed_jb_conf \<Rightarrow> 'd fixed_jb option" where
  "fixed_jb_new alloc conf =
     (if \<not> alloc then None
      else
        let conf = (if fc_jbsize conf < 1 then conf\<lparr> fc_jbsize := FIXED_JB_SIZE_DEFAULT \<rparr> else conf);
            conf = (if fc_resync_threshold conf < 1
                    then conf\<lparr> fc_resync_threshold := FIXED_JB_RESYNCH_THRESHOLD_DEFAULT \<rparr> else conf)
        in Some \<lparr> fj_frames = [], fj_conf = conf, fj_rxcore = 0, fj_delay = fc_jbsize conf,
                  fj_next_delivery = 0, fj_force_resynch = False \<rparr>)"

definition fixed_jb_destroy :: "'d fixed_jb \<Rightarrow> fixed_fault + unit" where
  "fixed_jb_destroy jb = (if fj_frames jb = [] then Inr () else Inl Assertion_failed)"

definition fixed_jb_set_force_resynch :: "'d fixed_jb \<Rightarrow> 'd fixed_jb" where
  "fixed_jb_set_force_resynch jb = jb\<lparr> fj_force_resynch := True \<rparr>"

text \<open>
  The search from the tail for the place of a frame: the frames before the place, last one
  first, and the frames after it.
\<close>

fun fixed_place ::
    "int \<Rightarrow> 'd fixed_jb_frame list \<Rightarrow> 'd fixed_jb_frame list
      \<Rightarrow> 'd fixed_jb_frame list \<times> 'd fixed_jb_frame list" where
  "fixed_place delivery [] after = ([], after)"
| "fixed_place delivery (frame # prevs) after =
     (if ff_delivery frame > delivery then fixed_place delivery prevs (frame # after)
      else (frame # prevs, after))"

definition fixed_covered ::
    "int \<Rightarrow> int \<Rightarrow> 'd fixed_jb_frame list \<Rightarrow> 'd fixed_jb_frame list \<Rightarrow> bool" where
  "fixed_covered delivery ms before after =
     (case before of
        [] \<Rightarrow> False
      | frame # _ \<Rightarrow>
          ff_delivery frame = delivery \<or> delivery < ff_delivery frame + ff_ms frame \<or>
          (case after of [] \<Rightarrow> False | nxt # _ \<Rightarrow> delivery + ms > ff_delivery nxt))"

fun fixed_jb_put ::
      "nat \<Rightarrow> bool \<Rightarrow> 'd fixed_jb \<Rightarrow> 'd option \<Rightarrow> int \<Rightarrow> int \<Rightarrow> int
        \<Rightarrow> fixed_fault + 'd fixed_jb \<times> fixed_jb_code"
  and resynch_jb ::
      "nat \<Rightarrow> bool \<Rightarrow> 'd fixed_jb \<Rightarrow> 'd option \<Rightarrow> int \<Rightarrow> int \<Rightarrow> int
        \<Rightarrow> fixed_fault + 'd fixed_jb \<times> fixed_jb_code"
  and fixed_jb_put_first ::
      "nat \<Rightarrow> bool \<Rightarrow> 'd fixed_jb \<Rightarrow> 'd option \<Rightarrow> int \<Rightarrow> int \<Rightarrow> int
        \<Rightarrow> fixed_fault + 'd fixed_jb \<times> fixed_jb_code" where
  "fixed_jb_put 0 alloc jb data ms ts now = Inl Out_of_fuel"
| "fixed_jb_put (Suc fuel) alloc jb data ms ts now =
     (if data = None \<or> ms < 2 \<or> ts < 0 \<or> now < 0 then Inl Assertion_failed
      else
        let delivery = fj_rxcore jb + fj_delay jb + ts in
        if delivery < fj_next_delivery jb then resynch_jb fuel alloc jb data ms ts now
        else if delivery > fj_next_delivery jb + fj_delay jb + fc_resync_threshold (fj_conf jb)
        then resynch_jb fuel alloc jb data ms ts now
        else
          let (before, after) = fixed_place delivery (rev (fj_frames jb)) [] in
          if fixed_covered delivery ms before after then resynch_jb fuel alloc jb data ms ts now
          else if \<not> alloc then Inl Null_dereference
          else
            let newframe = \<lparr> ff_data = the data, ff_ts = ts, ff_ms = ms, ff_delivery = delivery \<rparr>
            in Inr (jb\<lparr> fj_force_resynch := False, fj_frames := rev before @ newframe # after \<rparr>,
                    FIXED_JB_OK))"
| "resynch_jb 0 alloc jb data ms ts now = Inl Out_of_fuel"
| "resynch_jb (Suc fuel) alloc jb data ms ts now =
     (if fj_frames jb = [] then fixed_jb_put_first fuel alloc jb data ms ts now
      else
        let tail = last (fj_frames jb);
            diff = ts - ff_ts tail;
            offset = diff - ff_ms tail
        in
        if \<not> fj_force_resynch jb \<and> offset < fc_resync_threshold (fj_conf jb) \<and>
           offset > - fc_resync_threshold (fj_conf jb)
        then Inr (jb, FIXED_JB_DROP)
        else
          fixed_jb_put fuel alloc
            (jb\<lparr> fj_force_resynch := False, fj_rxcore := fj_rxcore jb - offset,
                 fj_frames := map (\<lambda>frame. frame\<lparr> ff_ts := ff_ts frame + offset \<rparr>) (fj_frames jb) \<rparr>)
            data ms ts now)"
| "fixed_jb_put_first 0 alloc jb data ms ts now = Inl Out_of_fuel"
| "fixed_jb_put_first (Suc fuel) alloc jb data ms ts now =
     fixed_jb_put fuel alloc
       (jb\<lparr> fj_rxcore := now - ts, fj_next_delivery := now + fj_delay jb \<rparr>) data ms ts now"

text \<open>
  \<open>fixed_jb_get\<close>; the frame copied out is part of the result only when one was taken.
\<close>

definition fixed_jb_get ::
    "'d fixed_jb \<Rightarrow> int \<Rightarrow> int
      \<Rightarrow> fixed_fault + 'd fixed_jb \<times> 'd fixed_jb_frame option \<times> fixed_jb_code" where
  "fixed_jb_get jb now interpl =
     (if now < 0 \<or> interpl < 2 then Inl Assertion_failed
      else if now < fj_next_delivery jb then Inr (jb, None, FIXED_JB_NOFRAME)
      else
        case fj_frames jb of
          [] \<Rightarrow> Inr (jb\<lparr> fj_next_delivery := fj_next_delivery jb + interpl \<rparr>, None, FIXED_JB_INTERP)
        | head # _ \<Rightarrow>
            if now > ff_delivery head + ff_ms head then
              (case get_jb_head jb of Inl e \<Rightarrow> Inl e | Inr (jb, frame) \<Rightarrow> Inr (jb, Some frame, FIXED_JB_DROP))
            else if now < ff_delivery head then
              Inr (jb\<lparr> fj_next_delivery := fj_next_delivery jb + interpl \<rparr>, None, FIXED_JB_INTERP)
            else
              (case get_jb_head jb of Inl e \<Rightarrow> Inl e | Inr (jb, frame) \<Rightarrow> Inr (jb, Some frame, FIXED_JB_OK)))"

definition fixed_jb_next :: "'d fixed_jb \<Rightarrow> int" where
  "fixed_jb_next jb = fj_next_delivery jb"

definition fixed_jb_remove ::
    "'d fixed_jb \<Rightarrow> fixed_fault + 'd fixed_jb \<times> 'd fixed_jb_frame option \<times> fixed_jb_code" where
  "fixed_jb_remove jb =
     (if fj_frames jb = [] then Inr (jb, None, FIXED_JB_NOFRAME)
      else case get_jb_head jb of Inl e \<Rightarrow> Inl e | Inr (jb, frame) \<Rightarrow> Inr (jb, Some frame, FIXED_JB_OK))"

declare fixed_jb_put.simps [simp del] resynch_jb.simps [simp del] fixed_jb_put_first.simps [simp del]

section \<open>The place of a frame\<close>

lemma fixed_place_eq:
  "fixed_place d rs after =
     (dropWhile (\<lambda>f. d < ff_delivery f) rs, rev (takeWhile (\<lambda>f. d < ff_delivery f) rs) @ after)"
  by (induction rs arbitrary: after) auto

definition fixed_insert :: "'d fixed_jb_frame \<Rightarrow> 'd fixed_jb_frame list \<Rightarrow> 'd fixed_jb_frame list" where
  "fixed_insert x frames =
     (let (before, after) = fixed_place (ff_delivery x) (rev frames) [] in rev before @ x # after)"

lemma fixed_place_split:
  assumes "sorted (map ff_delivery frames)" "fixed_place d (rev frames) [] = (before, after)"
  shows "frames = rev before @ after" "\<forall>f\<in>set before. ff_delivery f \<le> d"
    "\<forall>f\<in>set after. d < ff_delivery f"
proof -
  have b: "before = dropWhile (\<lambda>f. d < ff_delivery f) (rev frames)"
    and a: "after = rev (takeWhile (\<lambda>f. d < ff_delivery f) (rev frames))"
    using assms(2) by (simp_all add: fixed_place_eq)
  have "rev frames = rev after @ before"
    by (simp add: a b)
  then show frames: "frames = rev before @ after"
    by (metis rev_append rev_rev_ident)
  show "\<forall>f\<in>set after. d < ff_delivery f"
    by (auto simp: a dest: set_takeWhileD)
  show "\<forall>f\<in>set before. ff_delivery f \<le> d"
  proof (cases before)
    case (Cons h t)
    then have "ff_delivery h \<le> d"
      using b hd_dropWhile [of "\<lambda>f. d < ff_delivery f" "rev frames"] by (metis list.distinct(1) list.sel(1) not_less)
    moreover have "\<forall>f\<in>set t. ff_delivery f \<le> ff_delivery h"
      using assms(1) by (auto simp: frames Cons sorted_append)
    ultimately show ?thesis by (auto simp: Cons)
  qed simp
qed

interpretation fjq: stable_insert ff_delivery fixed_insert
proof
  fix xs :: "'d fixed_jb_frame list" and x :: "'d fixed_jb_frame"
  assume s: "sorted (map ff_delivery xs)"
  obtain b a where p: "fixed_place (ff_delivery x) (rev xs) [] = (b, a)" by force
  then have "fixed_insert x xs = rev b @ x # a"
    by (simp add: fixed_insert_def)
  with fixed_place_split [OF s p]
  show "\<exists>ys zs. xs = ys @ zs \<and> fixed_insert x xs = ys @ x # zs \<and>
      (\<forall>y\<in>set ys. ff_delivery y \<le> ff_delivery x) \<and> (\<forall>z\<in>set zs. ff_delivery x < ff_delivery z)"
    by (intro exI [of _ "rev b"] exI [of _ a]) simp
qed

section \<open>Well-formed buffers\<close>

text \<open>
  The frames are in strictly ascending order of delivery, and each delivery time is the one
  \<open>fixed_jb_put\<close> would compute now from the frame's time stamp.
\<close>

definition fixed_wf :: "'d fixed_jb \<Rightarrow> bool" where
  "fixed_wf jb \<longleftrightarrow>
     1 \<le> fj_delay jb \<and> 1 \<le> fc_resync_threshold (fj_conf jb) \<and>
     sorted_wrt (<) (map ff_delivery (fj_frames jb)) \<and>
     (\<forall>f\<in>set (fj_frames jb). 2 \<le> ff_ms f \<and> ff_delivery f = fj_rxcore jb + fj_delay jb + ff_ts f)"

text \<open>What a listener sees of a frame: resynchronisation changes time stamps only.\<close>

definition frame_view :: "'d fixed_jb_frame \<Rightarrow> 'd \<times> int \<times> int" where
  "frame_view f = (ff_data f, ff_ms f, ff_delivery f)"

definition inserted :: "'a \<Rightarrow> 'a list \<Rightarrow> 'a list \<Rightarrow> bool" where
  "inserted x xs xs' \<longleftrightarrow> (\<exists>ys zs. xs = ys @ zs \<and> xs' = ys @ x # zs)"

lemma inserted_mset: "inserted x xs xs' \<Longrightarrow> mset xs' = add_mset x (mset xs)"
  by (auto simp: inserted_def)

definition fixed_input_ok :: "'d option \<Rightarrow> int \<Rightarrow> int \<Rightarrow> int \<Rightarrow> bool" where
  "fixed_input_ok data ms ts now \<longleftrightarrow> data \<noteq> None \<and> 2 \<le> ms \<and> 0 \<le> ts \<and> 0 \<le> now"

text \<open>The result of putting a frame: it is queued at one place, or dropped.\<close>

definition fixed_put_result ::
    "'d fixed_jb \<Rightarrow> 'd \<Rightarrow> int \<Rightarrow> 'd fixed_jb \<Rightarrow> fixed_jb_code \<Rightarrow> bool" where
  "fixed_put_result jb data ms jb' code \<longleftrightarrow>
     fixed_wf jb' \<and> fj_conf jb' = fj_conf jb \<and> fj_delay jb' = fj_delay jb \<and>
     (code = FIXED_JB_DROP \<and> map frame_view (fj_frames jb') = map frame_view (fj_frames jb) \<or>
      code = FIXED_JB_OK \<and>
        (\<exists>d. inserted (data, ms, d) (map frame_view (fj_frames jb)) (map frame_view (fj_frames jb'))))"

lemma strict_sorted_le: "sorted_wrt (<) (xs :: int list) \<Longrightarrow> sorted xs"
  by (auto intro: sorted_wrt_mono_rel [rotated])

lemma fixed_wf_sorted: "fixed_wf jb \<Longrightarrow> sorted (map ff_delivery (fj_frames jb))"
  by (auto simp: fixed_wf_def intro: strict_sorted_le)

text \<open>\<open>fixed_jb_put\<close> on a frame it accepts at once.\<close>

definition fixed_accepts :: "'d fixed_jb \<Rightarrow> int \<Rightarrow> int \<Rightarrow> bool" where
  "fixed_accepts jb ms ts \<longleftrightarrow>
     (let delivery = fj_rxcore jb + fj_delay jb + ts;
          (before, after) = fixed_place delivery (rev (fj_frames jb)) []
      in fj_next_delivery jb \<le> delivery \<and>
         delivery \<le> fj_next_delivery jb + fj_delay jb + fc_resync_threshold (fj_conf jb) \<and>
         \<not> fixed_covered delivery ms before after)"

definition fixed_stored :: "'d fixed_jb \<Rightarrow> 'd \<Rightarrow> int \<Rightarrow> int \<Rightarrow> 'd fixed_jb" where
  "fixed_stored jb data ms ts =
     jb\<lparr> fj_force_resynch := False,
         fj_frames := fixed_insert
           \<lparr> ff_data = data, ff_ts = ts, ff_ms = ms, ff_delivery = fj_rxcore jb + fj_delay jb + ts \<rparr>
           (fj_frames jb) \<rparr>"

lemma fixed_jb_put_accept:
  "fixed_input_ok (Some data) ms ts now \<Longrightarrow> fixed_accepts jb ms ts \<Longrightarrow>
   fixed_jb_put (Suc fuel) True jb (Some data) ms ts now = Inr (fixed_stored jb data ms ts, FIXED_JB_OK)"
  by (auto simp: fixed_jb_put.simps(2) fixed_input_ok_def fixed_accepts_def fixed_stored_def
      fixed_insert_def Let_def split: prod.splits)

lemma fixed_jb_put_reject:
  "fixed_input_ok (Some data) ms ts now \<Longrightarrow> \<not> fixed_accepts jb ms ts \<Longrightarrow>
   fixed_jb_put (Suc fuel) alloc jb (Some data) ms ts now = resynch_jb fuel alloc jb (Some data) ms ts now"
  by (auto simp: fixed_jb_put.simps(2) fixed_input_ok_def fixed_accepts_def Let_def split: prod.splits)

lemma fixed_covered_before:
  assumes "sorted (map ff_delivery frames)" "fixed_place d (rev frames) [] = (before, after)"
    "\<not> fixed_covered d ms before after" "\<forall>f\<in>set frames. 2 \<le> ff_ms f" "f \<in> set before"
  shows "ff_delivery f < d"
proof (cases before)
  case (Cons h t)
  note split = fixed_place_split [OF assms(1,2)]
  have "ff_delivery h + ff_ms h \<le> d" "2 \<le> ff_ms h"
    using assms(3,4) split(1) by (auto simp: fixed_covered_def Cons)
  moreover have "ff_delivery f \<le> ff_delivery h"
    using assms(1,5) by (auto simp: split(1) Cons sorted_append)
  ultimately show ?thesis by simp
qed (use assms in simp)

lemma fixed_stored_wf:
  assumes wf: "fixed_wf jb" and acc: "fixed_accepts jb ms ts" and ms: "2 \<le> ms"
  shows "fixed_wf (fixed_stored jb data ms ts)"
proof -
  define d where "d = fj_rxcore jb + fj_delay jb + ts"
  obtain b a where p: "fixed_place d (rev (fj_frames jb)) [] = (b, a)" by force
  note split = fixed_place_split [OF fixed_wf_sorted [OF wf] p]
  have cov: "\<not> fixed_covered d ms b a"
    using acc p by (auto simp: fixed_accepts_def d_def Let_def)
  have b: "\<forall>f\<in>set b. ff_delivery f < d"
    using fixed_covered_before [OF fixed_wf_sorted [OF wf] p cov] wf by (auto simp: fixed_wf_def)
  have st: "fj_frames (fixed_stored jb data ms ts) =
      rev b @ \<lparr> ff_data = data, ff_ts = ts, ff_ms = ms, ff_delivery = d \<rparr> # a"
    by (simp add: fixed_stored_def fixed_insert_def d_def [symmetric] p)
  have same: "fj_delay (fixed_stored jb data ms ts) = fj_delay jb"
    "fj_conf (fixed_stored jb data ms ts) = fj_conf jb"
    "fj_rxcore (fixed_stored jb data ms ts) = fj_rxcore jb"
    by (simp_all add: fixed_stored_def)
  show ?thesis
    using wf split b ms unfolding fixed_wf_def st same
    by (auto simp: sorted_wrt_append d_def)
qed

lemma fixed_stored_result:
  assumes wf: "fixed_wf jb" and acc: "fixed_accepts jb ms ts" and ms: "2 \<le> ms"
  shows "fixed_put_result jb data ms (fixed_stored jb data ms ts) FIXED_JB_OK"
proof -
  let ?x = "\<lparr> ff_data = data, ff_ts = ts, ff_ms = ms, ff_delivery = fj_rxcore jb + fj_delay jb + ts \<rparr>"
  obtain ys zs where "fj_frames jb = ys @ zs" "fixed_insert ?x (fj_frames jb) = ys @ ?x # zs"
    using fjq.ins_split [OF fixed_wf_sorted [OF wf], of ?x] by blast
  then have "inserted (data, ms, fj_rxcore jb + fj_delay jb + ts) (map frame_view (fj_frames jb))
      (map frame_view (fixed_insert ?x (fj_frames jb)))"
    unfolding inserted_def
    by (intro exI [of _ "map frame_view ys"] exI [of _ "map frame_view zs"]) (simp add: frame_view_def)
  with fixed_stored_wf [OF assms] show ?thesis
    by (auto simp: fixed_put_result_def fixed_stored_def)
qed

section \<open>Resynchronisation\<close>

definition fixed_shift :: "'d fixed_jb \<Rightarrow> int \<Rightarrow> 'd fixed_jb" where
  "fixed_shift jb offset =
     jb\<lparr> fj_force_resynch := False, fj_rxcore := fj_rxcore jb - offset,
         fj_frames := map (\<lambda>frame. frame\<lparr> ff_ts := ff_ts frame + offset \<rparr>) (fj_frames jb) \<rparr>"

lemma frame_view_ts [simp]: "frame_view (f\<lparr> ff_ts := t \<rparr>) = frame_view f"
  by (simp add: frame_view_def)

lemma fixed_shift_views: "map frame_view (fj_frames (fixed_shift jb offset)) = map frame_view (fj_frames jb)"
  by (simp add: fixed_shift_def)

lemma fixed_shift_wf: "fixed_wf jb \<Longrightarrow> fixed_wf (fixed_shift jb offset)"
  by (auto simp: fixed_wf_def fixed_shift_def o_def)

lemma fixed_shift_fields [simp]:
  "fj_conf (fixed_shift jb offset) = fj_conf jb" "fj_delay (fixed_shift jb offset) = fj_delay jb"
  "fj_next_delivery (fixed_shift jb offset) = fj_next_delivery jb"
  "fj_force_resynch (fixed_shift jb offset) = False"
  "fj_frames (fixed_shift jb offset) = [] \<longleftrightarrow> fj_frames jb = []"
  "fj_frames jb \<noteq> [] \<Longrightarrow>
     last (fj_frames (fixed_shift jb offset)) = (last (fj_frames jb))\<lparr> ff_ts := ff_ts (last (fj_frames jb)) + offset \<rparr>"
  by (simp_all add: fixed_shift_def last_map)

lemma fixed_put_result_shift:
  "fixed_put_result (fixed_shift jb offset) data ms jb' code \<longleftrightarrow> fixed_put_result jb data ms jb' code"
  by (simp add: fixed_put_result_def fixed_shift_views)

text \<open>An empty buffer is restarted with the frame, which is then accepted.\<close>

lemma fixed_put_first_empty:
  assumes "fixed_wf jb" "fj_frames jb = []" "fixed_input_ok (Some data) ms ts now"
  defines "jb0 \<equiv> jb\<lparr> fj_rxcore := now - ts, fj_next_delivery := now + fj_delay jb \<rparr>"
  shows "fixed_jb_put_first (Suc (Suc fuel)) True jb (Some data) ms ts now =
      Inr (fixed_stored jb0 data ms ts, FIXED_JB_OK)"
    and "fixed_put_result jb data ms (fixed_stored jb0 data ms ts) FIXED_JB_OK"
proof -
  have wf: "fixed_wf jb0" and acc: "fixed_accepts jb0 ms ts"
    using assms(1,2) by (auto simp: jb0_def fixed_wf_def fixed_accepts_def fixed_covered_def)
  show "fixed_jb_put_first (Suc (Suc fuel)) True jb (Some data) ms ts now =
      Inr (fixed_stored jb0 data ms ts, FIXED_JB_OK)"
    using fixed_jb_put_accept [OF assms(3) acc] by (simp add: fixed_jb_put_first.simps jb0_def)
  have "2 \<le> ms" using assms(3) by (simp add: fixed_input_ok_def)
  from fixed_stored_result [OF wf acc this]
  show "fixed_put_result jb data ms (fixed_stored jb0 data ms ts) FIXED_JB_OK"
    by (simp add: fixed_put_result_def jb0_def assms(2))
qed

text \<open>The offset that remains for a frame after the buffer was shifted for it is zero.\<close>

lemma resynch_shifted:
  assumes "fixed_wf jb" "fj_frames jb \<noteq> []"
    "offset = ts - ff_ts (last (fj_frames jb)) - ff_ms (last (fj_frames jb))"
  shows "resynch_jb (Suc fuel) alloc (fixed_shift jb offset) data ms ts now =
    Inr (fixed_shift jb offset, FIXED_JB_DROP)"
  using assms by (auto simp: resynch_jb.simps Let_def fixed_wf_def)

lemma fixed_put_shifted:
  assumes "fixed_wf jb" "fj_frames jb \<noteq> []" "fixed_input_ok (Some data) ms ts now"
    "offset = ts - ff_ts (last (fj_frames jb)) - ff_ms (last (fj_frames jb))"
  shows "\<exists>jb' code. fixed_jb_put (Suc (Suc fuel)) True (fixed_shift jb offset) (Some data) ms ts now =
    Inr (jb', code) \<and> fixed_put_result jb data ms jb' code"
proof (cases "fixed_accepts (fixed_shift jb offset) ms ts")
  case True
  have "2 \<le> ms" using assms(3) by (simp add: fixed_input_ok_def)
  from fixed_stored_result [OF fixed_shift_wf [OF assms(1)] True this] True show ?thesis
    by (simp add: fixed_jb_put_accept [OF assms(3)] fixed_put_result_shift)
next
  case False
  have "fixed_put_result jb data ms (fixed_shift jb offset) FIXED_JB_DROP"
    using fixed_shift_wf [OF assms(1)] by (simp add: fixed_put_result_def fixed_shift_views)
  with False show ?thesis
    using resynch_shifted [OF assms(1,2,4)] by (simp add: fixed_jb_put_reject [OF assms(3)])
qed

lemma resynch_jb_effect:
  assumes wf: "fixed_wf jb" and inp: "fixed_input_ok (Some data) ms ts now"
  shows "\<exists>jb' code. resynch_jb (Suc (Suc (Suc fuel))) True jb (Some data) ms ts now = Inr (jb', code) \<and>
    fixed_put_result jb data ms jb' code"
proof (cases "fj_frames jb = []")
  case True
  with fixed_put_first_empty [OF wf True inp] show ?thesis by (simp add: resynch_jb.simps)
next
  case False
  let ?t = "last (fj_frames jb)"
  have drop: "fixed_put_result jb data ms jb FIXED_JB_DROP"
    using wf by (simp add: fixed_put_result_def)
  from fixed_put_shifted [OF wf False inp refl] drop False show ?thesis
    by (auto simp: resynch_jb.simps(2) Let_def fixed_shift_def)
qed

lemma fixed_jb_put_effect:
  assumes wf: "fixed_wf jb" and inp: "fixed_input_ok (Some data) ms ts now" and fuel: "4 \<le> fuel"
  shows "\<exists>jb' code. fixed_jb_put fuel True jb (Some data) ms ts now = Inr (jb', code) \<and>
    fixed_put_result jb data ms jb' code"
proof -
  from fuel obtain n where n: "fuel = Suc (Suc (Suc (Suc n)))"
    by (metis Suc_le_D Suc_le_mono numeral_eq_Suc pred_numeral_simps(2,3) eval_nat_numeral(3) BitM.simps(2))
  have "2 \<le> ms" using inp by (simp add: fixed_input_ok_def)
  with wf inp n show ?thesis
    using resynch_jb_effect [OF wf inp, of n] fixed_stored_result [OF wf]
    by (cases "fixed_accepts jb ms ts") (auto simp: fixed_jb_put_accept fixed_jb_put_reject)
qed

section \<open>Taking frames out\<close>

lemma fixed_wf_tail:
  "fixed_wf jb \<Longrightarrow> fj_frames jb = f # rest \<Longrightarrow> fixed_wf (jb\<lparr> fj_frames := rest, fj_next_delivery := n \<rparr>)"
  by (auto simp: fixed_wf_def)

lemma fixed_wf_next: "fixed_wf (jb\<lparr> fj_next_delivery := n \<rparr>) \<longleftrightarrow> fixed_wf jb"
  by (simp add: fixed_wf_def)

lemma fixed_jb_get_cases:
  assumes "fixed_jb_get jb now interpl = Inr (jb', fr, code)"
  obtains (noframe) "now < fj_next_delivery jb" "jb' = jb" "fr = None" "code = FIXED_JB_NOFRAME"
  | (interp) "fj_next_delivery jb \<le> now" "fj_frames jb \<noteq> [] \<Longrightarrow> now < ff_delivery (hd (fj_frames jb))"
      "jb' = jb\<lparr> fj_next_delivery := fj_next_delivery jb + interpl \<rparr>" "fr = None" "code = FIXED_JB_INTERP"
  | (frame) f rest where "fj_next_delivery jb \<le> now" "fj_frames jb = f # rest"
      "jb' = jb\<lparr> fj_frames := rest, fj_next_delivery := ff_delivery f + ff_ms f \<rparr>" "fr = Some f"
      "code = (if ff_delivery f + ff_ms f < now then FIXED_JB_DROP else FIXED_JB_OK)"
      "ff_delivery f + ff_ms f < now \<or> ff_delivery f \<le> now"
  using assms by (auto simp: fixed_jb_get_def split: if_splits list.splits)

lemma fixed_jb_get_total:
  "0 \<le> now \<Longrightarrow> 2 \<le> interpl \<Longrightarrow> \<exists>jb' fr code. fixed_jb_get jb now interpl = Inr (jb', fr, code)"
  by (auto simp: fixed_jb_get_def split: list.splits)

lemma fixed_jb_get_wf: "fixed_jb_get jb now interpl = Inr (jb', fr, code) \<Longrightarrow> fixed_wf jb \<Longrightarrow> fixed_wf jb'"
  by (erule fixed_jb_get_cases) (auto simp: fixed_wf_def)

lemma fixed_jb_remove_eq:
  "fixed_jb_remove jb =
     (case fj_frames jb of
        [] \<Rightarrow> Inr (jb, None, FIXED_JB_NOFRAME)
      | f # rest \<Rightarrow> Inr (jb\<lparr> fj_frames := rest, fj_next_delivery := ff_delivery f + ff_ms f \<rparr>,
                       Some f, FIXED_JB_OK))"
  by (simp add: fixed_jb_remove_def split: list.splits)

lemma fixed_jb_remove_wf:
  "fixed_jb_remove jb = Inr (jb', fr, code) \<Longrightarrow> fixed_wf jb \<Longrightarrow> fixed_wf jb'"
  by (auto simp: fixed_jb_remove_eq fixed_wf_tail split: list.splits)

lemma fixed_jb_new_wf: "fixed_jb_new alloc conf = Some jb \<Longrightarrow> fixed_wf jb"
  by (auto simp: fixed_jb_new_def fixed_wf_def Let_def FIXED_JB_SIZE_DEFAULT_def
      FIXED_JB_RESYNCH_THRESHOLD_DEFAULT_def split: if_splits)

lemma fixed_jb_set_force_resynch_wf: "fixed_wf (fixed_jb_set_force_resynch jb) \<longleftrightarrow> fixed_wf jb"
  by (simp add: fixed_jb_set_force_resynch_def fixed_wf_def)

section \<open>A stream of frames\<close>

text \<open>
  Frame \<open>k\<close> of a stream carries \<open>d k\<close>, lasts \<open>ms\<close> milliseconds and has the time stamp
  \<open>ts0 + k * ms\<close>. \<open>Arrive k now\<close> puts frame \<open>k\<close>, \<open>Play now interpl\<close> asks for the frame to be played;
  the result is what was played.
\<close>

datatype stream_event = Arrive nat int | Play int int

fun play_stream ::
    "(nat \<Rightarrow> 'd) \<Rightarrow> int \<Rightarrow> int \<Rightarrow> 'd fixed_jb \<Rightarrow> stream_event list \<Rightarrow> fixed_fault + 'd list" where
  "play_stream d ms ts0 jb [] = Inr []"
| "play_stream d ms ts0 jb (Arrive k now # es) =
     (case fixed_jb_put 4 True jb (Some (d k)) ms (ts0 + int k * ms) now of
        Inl e \<Rightarrow> Inl e
      | Inr (jb, code) \<Rightarrow> play_stream d ms ts0 jb es)"
| "play_stream d ms ts0 jb (Play now interpl # es) =
     (case fixed_jb_get jb now interpl of
        Inl e \<Rightarrow> Inl e
      | Inr (jb, fr, code) \<Rightarrow>
          (case play_stream d ms ts0 jb es of
             Inl e \<Rightarrow> Inl e
           | Inr ds \<Rightarrow> Inr (if code = FIXED_JB_OK then ff_data (the fr) # ds else ds)))"

text \<open>
  The frames come in any order, each before its turn and no more than \<open>lim\<close> milliseconds ahead
  of it; frame \<open>j\<close> is asked for during the \<open>ms\<close> milliseconds from \<open>base + j * ms\<close>. \<open>S\<close> lists the
  frames that have arrived and not been played.
\<close>

fun on_time :: "int \<Rightarrow> int \<Rightarrow> int \<Rightarrow> nat \<Rightarrow> nat list \<Rightarrow> stream_event list \<Rightarrow> bool" where
  "on_time base ms lim j S [] = True"
| "on_time base ms lim j S (Arrive k now # es) =
     (0 \<le> now \<and> j \<le> k \<and> k \<notin> set S \<and> (int k - int j) * ms \<le> lim \<and> on_time base ms lim j (insort k S) es)"
| "on_time base ms lim j S (Play now interpl # es) =
     (2 \<le> interpl \<and> j \<in> set S \<and> base + int j * ms \<le> now \<and> now \<le> base + (int j + 1) * ms \<and>
      on_time base ms lim (Suc j) (remove1 j S) es)"

fun plays :: "stream_event list \<Rightarrow> nat" where
  "plays [] = 0"
| "plays (Arrive k now # es) = plays es"
| "plays (Play now interpl # es) = Suc (plays es)"

definition stream_frame :: "(nat \<Rightarrow> 'd) \<Rightarrow> int \<Rightarrow> int \<Rightarrow> int \<Rightarrow> nat \<Rightarrow> 'd fixed_jb_frame" where
  "stream_frame d ms ts0 base k =
     \<lparr> ff_data = d k, ff_ts = ts0 + int k * ms, ff_ms = ms, ff_delivery = base + int k * ms \<rparr>"

definition stream_state ::
    "(nat \<Rightarrow> 'd) \<Rightarrow> int \<Rightarrow> int \<Rightarrow> int \<Rightarrow> int \<Rightarrow> nat \<Rightarrow> nat list \<Rightarrow> 'd fixed_jb \<Rightarrow> bool" where
  "stream_state d ms ts0 base lim j S jb \<longleftrightarrow>
     fixed_wf jb \<and> fj_rxcore jb + fj_delay jb + ts0 = base \<and>
     fj_next_delivery jb = base + int j * ms \<and>
     fj_delay jb + fc_resync_threshold (fj_conf jb) = lim \<and>
     fj_frames jb = map (stream_frame d ms ts0 base) S \<and> sorted_wrt (<) S \<and> (\<forall>i\<in>set S. j \<le> i)"

lemma insort_split:
  assumes "sorted_wrt (<) (S :: nat list)" "k \<notin> set S"
  obtains A B where "S = A @ B" "\<forall>i\<in>set A. i < k" "\<forall>i\<in>set B. k < i" "insort k S = A @ k # B"
  using assms
proof (induction S arbitrary: thesis)
  case (Cons i S)
  show ?case
  proof (cases "k \<le> i")
    case True
    with Cons.prems show ?thesis by (intro Cons.prems(1) [of "[]" "i # S"]) auto
  next
    case False
    obtain A B where "S = A @ B" "\<forall>i\<in>set A. i < k" "\<forall>i\<in>set B. k < i" "insort k S = A @ k # B"
      using Cons.IH Cons.prems(2,3) by auto
    with False show ?thesis by (intro Cons.prems(1) [of "i # A" B]) auto
  qed
qed simp

lemma fixed_place_append:
  assumes "\<forall>f\<in>set X. ff_delivery f \<le> d" "\<forall>f\<in>set Y. d < ff_delivery f"
  shows "fixed_place d (rev (X @ Y)) [] = (rev X, Y)"
proof -
  have "dropWhile (\<lambda>f. d < ff_delivery f) (rev X) = rev X" "takeWhile (\<lambda>f. d < ff_delivery f) (rev X) = []"
    using assms(1) by (cases X rule: rev_cases; force)+
  moreover have "takeWhile (\<lambda>f. d < ff_delivery f) (rev Y @ rev X) = rev Y @ takeWhile (\<lambda>f. d < ff_delivery f) (rev X)"
    "dropWhile (\<lambda>f. d < ff_delivery f) (rev Y @ rev X) = dropWhile (\<lambda>f. d < ff_delivery f) (rev X)"
    using assms(2) by (auto intro: takeWhile_append2 dropWhile_append2)
  ultimately show ?thesis
    by (simp add: fixed_place_eq)
qed

lemma stream_order: "(2::int) \<le> ms \<Longrightarrow> i < k \<Longrightarrow> base + int i * ms + ms \<le> base + int k * ms"
  using mult_right_mono [of "int i + 1" "int k" ms] by (simp add: algebra_simps)

lemma stream_arrive:
  assumes st: "stream_state d ms ts0 base lim j S jb" and ms: "2 \<le> ms" and new: "k \<notin> set S"
    and k: "j \<le> k" "(int k - int j) * ms \<le> lim"
  shows "fixed_accepts jb ms (ts0 + int k * ms)"
    and "stream_state d ms ts0 base lim j (insort k S) (fixed_stored jb (d k) ms (ts0 + int k * ms))"
proof -
  let ?f = "stream_frame d ms ts0 base"
  have wf: "fixed_wf jb" and base: "fj_rxcore jb + fj_delay jb + (ts0 + int k * ms) = base + int k * ms"
    and nxt: "fj_next_delivery jb = base + int j * ms"
    and lim: "fj_delay jb + fc_resync_threshold (fj_conf jb) = lim" and S: "sorted_wrt (<) S"
    using st by (auto simp: stream_state_def)
  obtain A B where AB: "S = A @ B" "\<forall>i\<in>set A. i < k" "\<forall>i\<in>set B. k < i" "insort k S = A @ k # B"
    using insort_split [OF S new] .
  have A: "\<forall>i\<in>set A. i \<le> k" using AB(2) by auto
  have p: "fixed_place (base + int k * ms) (rev (fj_frames jb)) [] = (rev (map ?f A), map ?f B)"
    using st A AB(3) ms fixed_place_append [of "map ?f A" "base + int k * ms" "map ?f B"]
    by (simp add: stream_state_def AB(1) stream_frame_def)
  have "\<not> fixed_covered (base + int k * ms) ms (rev (map ?f A)) (map ?f B)"
    using AB(2,3) ms stream_order [OF ms, of _ k base] stream_order [OF ms, of k _ base]
    by (cases A rule: rev_cases; cases B) (fastforce simp: fixed_covered_def stream_frame_def)+
  moreover have "base + int j * ms \<le> base + int k * ms"
    using k(1) ms by (simp add: mult_right_mono)
  moreover have "base + int k * ms \<le> base + int j * ms + lim"
    using k(2) by (simp add: algebra_simps)
  ultimately show acc: "fixed_accepts jb ms (ts0 + int k * ms)"
    using nxt lim by (simp add: fixed_accepts_def base p Let_def)
  have "fj_frames (fixed_stored jb (d k) ms (ts0 + int k * ms)) = map ?f (insort k S)"
    by (simp add: fixed_stored_def fixed_insert_def base p AB(4)) (simp add: stream_frame_def)
  then show "stream_state d ms ts0 base lim j (insort k S) (fixed_stored jb (d k) ms (ts0 + int k * ms))"
    using st fixed_stored_wf [OF wf acc ms, of "d k"] k(1) AB S
    by (auto simp: stream_state_def fixed_stored_def sorted_wrt_append)
qed

lemma stream_play:
  assumes st: "stream_state d ms ts0 base lim j S jb" and ms: "2 \<le> ms" and j: "j \<in> set S"
    and now: "base + int j * ms \<le> now" "now \<le> base + (int j + 1) * ms" "0 \<le> now" "2 \<le> interpl"
  shows "\<exists>jb'. fixed_jb_get jb now interpl = Inr (jb', Some (stream_frame d ms ts0 base j), FIXED_JB_OK) \<and>
    stream_state d ms ts0 base lim (Suc j) (remove1 j S) jb'"
proof -
  obtain i T where S: "S = i # T" using j by (cases S) auto
  have "i = j" using st j by (fastforce simp: stream_state_def S)
  moreover have "fixed_wf (jb\<lparr> fj_frames := map (stream_frame d ms ts0 base) T, fj_next_delivery := n \<rparr>)" for n
    using st fixed_wf_tail by (fastforce simp: stream_state_def S)
  ultimately show ?thesis
    using st now by (auto simp: S stream_state_def fixed_jb_get_def stream_frame_def algebra_simps)
qed

lemma play_stream_on_time:
  assumes "stream_state d ms ts0 base lim j S jb" "2 \<le> ms" "0 \<le> ts0" "0 \<le> base" "on_time base ms lim j S es"
  shows "play_stream d ms ts0 jb es = Inr (map d [j..<j + plays es])"
  using assms
proof (induction es arbitrary: j S jb)
  case (Cons e es)
  show ?case
  proof (cases e)
    case (Arrive k now)
    with Cons.prems have k: "0 \<le> now" "j \<le> k" "k \<notin> set S" "(int k - int j) * ms \<le> lim"
      and rest: "on_time base ms lim j (insort k S) es" by auto
    note arr = stream_arrive [OF Cons.prems(1,2) k(3,2,4)]
    have "fixed_input_ok (Some (d k)) ms (ts0 + int k * ms) now"
      using Cons.prems(2,3) k(1) by (simp add: fixed_input_ok_def)
    from fixed_jb_put_accept [OF this arr(1), of 3]
    show ?thesis
      using Cons.IH [OF arr(2) Cons.prems(2-4) rest] by (simp add: Arrive)
  next
    case (Play now interpl)
    with Cons.prems have j: "j \<in> set S" "base + int j * ms \<le> now" "now \<le> base + (int j + 1) * ms" "2 \<le> interpl"
      and rest: "on_time base ms lim (Suc j) (remove1 j S) es" by auto
    have "0 \<le> int j * ms" using Cons.prems(2) by simp
    with j(2) Cons.prems(4) have "0 \<le> now" by linarith
    from stream_play [OF Cons.prems(1,2) j(1-3) this j(4)]
    obtain jb' where jb': "fixed_jb_get jb now interpl = Inr (jb', Some (stream_frame d ms ts0 base j), FIXED_JB_OK)"
      "stream_state d ms ts0 base lim (Suc j) (remove1 j S) jb'" by blast
    have "[j..<Suc (j + plays es)] = j # [Suc j..<Suc (j + plays es)]"
      by (rule upt_conv_Cons) simp
    then show ?thesis
      using Cons.IH [OF jb'(2) Cons.prems(2-4) rest] by (simp add: Play jb'(1) stream_frame_def)
  qed
qed simp

section \<open>Sequences of operations\<close>

datatype 'd fixed_op = Op_put "'d option" int int int | Op_get int int | Op_remove | Op_force

fun fixed_step :: "'d fixed_jb \<Rightarrow> 'd fixed_op \<Rightarrow> fixed_fault + 'd fixed_jb" where
  "fixed_step jb (Op_put data ms ts now) =
     (case fixed_jb_put 4 True jb data ms ts now of Inl e \<Rightarrow> Inl e | Inr (jb, code) \<Rightarrow> Inr jb)"
| "fixed_step jb (Op_get now interpl) =
     (case fixed_jb_get jb now interpl of Inl e \<Rightarrow> Inl e | Inr (jb, fr, code) \<Rightarrow> Inr jb)"
| "fixed_step jb Op_remove =
     (case fixed_jb_remove jb of Inl e \<Rightarrow> Inl e | Inr (jb, fr, code) \<Rightarrow> Inr jb)"
| "fixed_step jb Op_force = Inr (fixed_jb_set_force_resynch jb)"

fun fixed_run :: "'d fixed_jb \<Rightarrow> 'd fixed_op list \<Rightarrow> fixed_fault + 'd fixed_jb" where
  "fixed_run jb [] = Inr jb"
| "fixed_run jb (e # es) = (case fixed_step jb e of Inl f \<Rightarrow> Inl f | Inr jb \<Rightarrow> fixed_run jb es)"

text \<open>The inputs the assertions of the source ask for.\<close>

fun fixed_op_ok :: "'d fixed_op \<Rightarrow> bool" where
  "fixed_op_ok (Op_put data ms ts now) \<longleftrightarrow> fixed_input_ok data ms ts now"
| "fixed_op_ok (Op_get now interpl) \<longleftrightarrow> 0 \<le> now \<and> 2 \<le> interpl"
| "fixed_op_ok Op_remove \<longleftrightarrow> True"
| "fixed_op_ok Op_force \<longleftrightarrow> True"

lemma fixed_step_wf:
  assumes "fixed_wf jb" "fixed_op_ok e"
  shows "\<exists>jb'. fixed_step jb e = Inr jb' \<and> fixed_wf jb'"
proof (cases e)
  case (Op_put data ms ts now)
  then obtain x where "data = Some x" using assms(2) by (auto simp: fixed_input_ok_def)
  with Op_put assms show ?thesis
    using fixed_jb_put_effect [of jb x ms ts now 4] by (force simp: fixed_put_result_def)
next
  case (Op_get now interpl)
  then obtain jb' fr code where "fixed_jb_get jb now interpl = Inr (jb', fr, code)"
    using fixed_jb_get_total assms(2) by fastforce
  with Op_get assms(1) show ?thesis by (auto dest: fixed_jb_get_wf)
next
  case Op_remove
  with assms(1) show ?thesis
    by (auto simp: fixed_jb_remove_eq fixed_wf_tail split: list.splits)
qed (use assms in \<open>simp add: fixed_jb_set_force_resynch_wf\<close>)

lemma fixed_run_wf:
  "fixed_wf jb \<Longrightarrow> \<forall>e\<in>set es. fixed_op_ok e \<Longrightarrow> \<exists>jb'. fixed_run jb es = Inr jb' \<and> fixed_wf jb'"
proof (induction es arbitrary: jb)
  case (Cons e es)
  then obtain jb1 where "fixed_step jb e = Inr jb1" "fixed_wf jb1"
    using fixed_step_wf by (metis list.set_intros(1))
  with Cons show ?case by simp
qed simp

section \<open>Properties\<close>

text \<open>
  C13. In-order playout. When a stream starts with frame 0 and the other frames arrive in any
  order, each before its turn and at most the buffer size plus the resynchronisation
  threshold ahead of it, and the player asks once during the time of each frame, then the
  buffer plays every frame exactly once, in the order of the stream and with a constant delay
  of \<open>jbsize\<close>, whatever the interleaving of arrivals and plays.
\<close>

theorem fixed_jb_delivers_in_order:
  assumes "fixed_jb_new True conf = Some jb" "2 \<le> ms" "0 \<le> ts0" "0 \<le> now0"
    and "on_time (now0 + fj_delay jb) ms (fj_delay jb + fc_resync_threshold (fj_conf jb)) 0 [0] es"
  shows "case fixed_jb_put_first 5 True jb (Some (d 0)) ms ts0 now0 of
      Inl e \<Rightarrow> False
    | Inr (jb', code) \<Rightarrow> code = FIXED_JB_OK \<and> play_stream d ms ts0 jb' es = Inr (map d [0..<plays es])"
proof -
  have wf: "fixed_wf jb" and e: "fj_frames jb = []"
    using fixed_jb_new_wf [OF assms(1)] assms(1) by (auto simp: fixed_jb_new_def Let_def)
  have inp: "fixed_input_ok (Some (d 0)) ms ts0 now0"
    using assms(2-4) by (simp add: fixed_input_ok_def)
  let ?jb = "fixed_stored (jb\<lparr> fj_rxcore := now0 - ts0, fj_next_delivery := now0 + fj_delay jb \<rparr>) (d 0) ms ts0"
  note first = fixed_put_first_empty [OF wf e inp]
  have "stream_state d ms ts0 (now0 + fj_delay jb) (fj_delay jb + fc_resync_threshold (fj_conf jb)) 0 [0] ?jb"
    using first(2) e
    by (auto simp: stream_state_def fixed_put_result_def fixed_stored_def fixed_insert_def stream_frame_def)
  from play_stream_on_time [OF this assms(2,3) _ assms(5)] assms(4) wf first(1) [of 3]
  show ?thesis by (simp add: fixed_wf_def)
qed

theorem fixed_jb_delivers_in_order_witness:
  "case fixed_jb_new True \<lparr> fc_jbsize = 60, fc_resync_threshold = 100 \<rparr> of
     None \<Rightarrow> False
   | Some jb \<Rightarrow>
       (case fixed_jb_put_first 5 True jb (Some (0::nat)) 20 1000 500 of
          Inl e \<Rightarrow> False
        | Inr (jb', code) \<Rightarrow> code = FIXED_JB_OK \<and>
            play_stream id 20 1000 jb'
              [Arrive 2 530, Arrive 1 545, Play 560 20, Arrive 4 565, Play 590 20, Arrive 3 595, Play 600 20, Play 620 20]
            = Inr (map id [0..<plays
              [Arrive 2 530, Arrive 1 545, Play 560 20, Arrive 4 565, Play 590 20, Arrive 3 595, Play 600 20, Play 620 20]]))"
  using fixed_jb_delivers_in_order [of "\<lparr> fc_jbsize = 60, fc_resync_threshold = 100 \<rparr>" _ 20 1000 500
      "[Arrive 2 530, Arrive 1 545, Play 560 20, Arrive 4 565, Play 590 20, Arrive 3 595, Play 600 20, Play 620 20]" id]
  by (simp add: fixed_jb_new_def)

text \<open>
  C23. No sequence of operations with inputs as the assertions ask for them makes the buffer
  fail an assertion, follow a null pointer or recurse more than four calls deep, provided that
  memory is available; and the buffer stays well formed: its frames are in strictly ascending
  order of delivery, with delivery times that agree with their time stamps also after
  resynchronisation.
\<close>

theorem fixed_jb_run_safe:
  assumes "fixed_jb_new True conf = Some jb" "\<forall>e\<in>set es. fixed_op_ok e"
  shows "\<exists>jb'. fixed_run jb es = Inr jb' \<and> fixed_wf jb'"
  using fixed_run_wf [OF fixed_jb_new_wf [OF assms(1)] assms(2)] .

theorem fixed_jb_run_safe_witness:
  "\<exists>jb jb'. fixed_jb_new True \<lparr> fc_jbsize = 60, fc_resync_threshold = 100 \<rparr> = Some jb \<and>
     fixed_run jb [Op_put (Some (0::nat)) 20 1000 500, Op_force, Op_put (Some 1) 20 5000 520, Op_get 560 20, Op_remove]
       = Inr jb' \<and> fixed_wf jb'"
proof -
  let ?jb = "\<lparr> fj_frames = [], fj_conf = \<lparr> fc_jbsize = 60, fc_resync_threshold = 100 \<rparr>, fj_rxcore = 0,
    fj_delay = 60, fj_next_delivery = 0, fj_force_resynch = False \<rparr> :: nat fixed_jb"
  have "fixed_jb_new True \<lparr> fc_jbsize = 60, fc_resync_threshold = 100 \<rparr> = Some ?jb"
    by (simp add: fixed_jb_new_def)
  with fixed_jb_run_safe [OF this, of "[Op_put (Some 0) 20 1000 500, Op_force, Op_put (Some 1) 20 5000 520,
      Op_get 560 20, Op_remove]"] show ?thesis
    by (auto simp: fixed_input_ok_def)
qed

text \<open>
  The check against overlapping frames is skipped when the new frame becomes the first one:
  after frame 0 was played, a frame for 230 to 250 ms is queued before one that starts at 240.
\<close>

lemma fixed_head_overlap:
  "case fixed_run \<lparr> fj_frames = [], fj_conf = \<lparr> fc_jbsize = 200, fc_resync_threshold = 1000 \<rparr>, fj_rxcore = 0,
      fj_delay = 200, fj_next_delivery = 200, fj_force_resynch = False \<rparr>
      [Op_put (Some (0::nat)) 20 0 0, Op_put (Some 2) 20 40 40, Op_get 200 20, Op_put (Some 1) 20 30 205] of
     Inl e \<Rightarrow> False
   | Inr jb \<Rightarrow> map frame_view (fj_frames jb) = [(1, 20, 230), (2, 20, 240)]"
  by code_simp

end
