(* ===== verification/Timeval.thy ===== *)
theory Timeval
  imports Prelude
begin

text \<open>
  Times: \<open>struct timeval\<close> with the functions of \<open>include/asterisk/time.h\<close> and
  \<open>main/utils.c\<close>. The seconds and microseconds are integers; an \<open>int\<close> or \<open>unsigned\<close> result is
  reduced to 32 bits. \<open>tv_us\<close> gives a time in microseconds: on normalised times the functions
  are arithmetic on it, and the order of \<open>ast_tvcmp\<close> is a linear order.
\<close>

section \<open>Data and functions\<close>

datatype timeval = Tv (tv_sec: int) (tv_usec: int)

definition ast_tv :: "int \<Rightarrow> int \<Rightarrow> timeval" where
  "ast_tv sec usec = Tv sec usec"

definition ast_tvdiff_ms :: "timeval \<Rightarrow> timeval \<Rightarrow> int" where
  "ast_tvdiff_ms end' start =
     signed_take_bit 31
       ((tv_sec end' - tv_sec start) * 1000 +
        ((1000000 + tv_usec end' - tv_usec start) sdiv 1000 - 1000))"

definition ast_tvzero :: "timeval \<Rightarrow> bool" where
  "ast_tvzero t \<longleftrightarrow> tv_sec t = 0 \<and> tv_usec t = 0"

definition ast_tvcmp :: "timeval \<Rightarrow> timeval \<Rightarrow> int" where
  "ast_tvcmp a b =
     (if tv_sec a < tv_sec b then -1
      else if tv_sec a > tv_sec b then 1
      else if tv_usec a < tv_usec b then -1
      else if tv_usec a > tv_usec b then 1
      else 0)"

definition ast_tveq :: "timeval \<Rightarrow> timeval \<Rightarrow> bool" where
  "ast_tveq a b \<longleftrightarrow> tv_sec a = tv_sec b \<and> tv_usec a = tv_usec b"

text \<open>Both arguments are \<open>unsigned int\<close>; the rate is not zero.\<close>

definition ast_samp2tv :: "c_uint \<Rightarrow> c_uint \<Rightarrow> timeval" where
  "ast_samp2tv nsamp rate =
     ast_tv (uint (nsamp div rate)) (uint (((nsamp mod rate) * (4000000 div rate)) div 4))"

definition tvfix :: "timeval \<Rightarrow> timeval" where
  "tvfix a =
     (if tv_usec a \<ge> 1000000
      then Tv (tv_sec a + tv_usec a sdiv 1000000) (tv_usec a smod 1000000)
      else if tv_usec a < 0 then Tv (tv_sec a) 0
      else a)"

definition ast_tvadd :: "timeval \<Rightarrow> timeval \<Rightarrow> timeval" where
  "ast_tvadd a b =
     (let a = tvfix a; b = tvfix b;
          sec = tv_sec a + tv_sec b; usec = tv_usec a + tv_usec b
      in if usec \<ge> 1000000 then Tv (sec + 1) (usec - 1000000) else Tv sec usec)"

definition ast_tvsub :: "timeval \<Rightarrow> timeval \<Rightarrow> timeval" where
  "ast_tvsub a b =
     (let a = tvfix a; b = tvfix b;
          sec = tv_sec a - tv_sec b; usec = tv_usec a - tv_usec b
      in if usec < 0 then Tv (sec - 1) (usec + 1000000) else Tv sec usec)"

section \<open>The order of times\<close>

instantiation timeval :: linorder
begin

definition less_timeval :: "timeval \<Rightarrow> timeval \<Rightarrow> bool" where
  "less_timeval a b \<longleftrightarrow> tv_sec a < tv_sec b \<or> tv_sec a = tv_sec b \<and> tv_usec a < tv_usec b"

definition less_eq_timeval :: "timeval \<Rightarrow> timeval \<Rightarrow> bool" where
  "less_eq_timeval a b \<longleftrightarrow> tv_sec a < tv_sec b \<or> tv_sec a = tv_sec b \<and> tv_usec a \<le> tv_usec b"

instance
  by standard (auto simp: less_timeval_def less_eq_timeval_def timeval.expand)

end

lemma ast_tvcmp_less: "ast_tvcmp a b = -1 \<longleftrightarrow> a < b" "ast_tvcmp a b < 0 \<longleftrightarrow> a < b"
  and ast_tvcmp_greater: "ast_tvcmp a b = 1 \<longleftrightarrow> b < a"
  and ast_tvcmp_eq: "ast_tvcmp a b = 0 \<longleftrightarrow> a = b"
  by (auto simp: ast_tvcmp_def less_timeval_def timeval.expand)

lemma ast_tveq_eq: "ast_tveq a b \<longleftrightarrow> a = b"
  by (auto simp: ast_tveq_def timeval.expand)

section \<open>Times as microseconds\<close>

definition tv_us :: "timeval \<Rightarrow> int" where
  "tv_us t = tv_sec t * 1000000 + tv_usec t"

definition tv_ok :: "timeval \<Rightarrow> bool" where
  "tv_ok t \<longleftrightarrow> 0 \<le> tv_usec t \<and> tv_usec t < 1000000"

lemma tv_us_less: "tv_ok a \<Longrightarrow> tv_ok b \<Longrightarrow> a < b \<longleftrightarrow> tv_us a < tv_us b"
  by (auto simp: tv_ok_def tv_us_def less_timeval_def)

lemma tv_us_le: "tv_ok a \<Longrightarrow> tv_ok b \<Longrightarrow> a \<le> b \<longleftrightarrow> tv_us a \<le> tv_us b"
  using tv_us_less [of b a] by (simp flip: not_less)

lemma tvfix_id [simp]: "tv_ok a \<Longrightarrow> tvfix a = a"
  by (simp add: tvfix_def tv_ok_def)

lemma tvfix_ok [simp]: "tv_ok (tvfix a)"
  by (simp add: tvfix_def tv_ok_def signed_modulo_int_def sgn_if)

lemma tv_ok_tvadd [simp]: "tv_ok (ast_tvadd a b)"
  using tvfix_ok [of a] tvfix_ok [of b] unfolding tv_ok_def by (auto simp: ast_tvadd_def Let_def)

lemma tv_ok_tvsub [simp]: "tv_ok (ast_tvsub a b)"
  using tvfix_ok [of a] tvfix_ok [of b] unfolding tv_ok_def by (auto simp: ast_tvsub_def Let_def)

lemma tv_us_tvadd: "tv_ok a \<Longrightarrow> tv_ok b \<Longrightarrow> tv_us (ast_tvadd a b) = tv_us a + tv_us b"
  by (simp add: ast_tvadd_def tv_us_def Let_def)

lemma tv_us_tvsub: "tv_ok a \<Longrightarrow> tv_ok b \<Longrightarrow> tv_us (ast_tvsub a b) = tv_us a - tv_us b"
  by (simp add: ast_tvsub_def tv_us_def Let_def)

lemma tv_eq_us: "tv_ok a \<Longrightarrow> tv_ok b \<Longrightarrow> tv_us a = tv_us b \<Longrightarrow> a = b"
  using tv_us_less [of a b] tv_us_less [of b a] by (metis antisym_conv3 less_irrefl)

lemma tvdiff_core:
  assumes "tv_ok a" "tv_ok b"
  shows "(tv_sec a - tv_sec b) * 1000 + ((1000000 + tv_usec a - tv_usec b) sdiv 1000 - 1000) =
    (tv_us a - tv_us b) div 1000"
proof -
  have "(1000000 + tv_usec a - tv_usec b) sdiv 1000 = (1000000 + tv_usec a - tv_usec b) div 1000"
    using assms by (intro sdiv_nonneg) (auto simp: tv_ok_def)
  moreover have "tv_us a - tv_us b = (tv_usec a - tv_usec b) + 1000 * (1000 * (tv_sec a - tv_sec b))"
    by (simp add: tv_us_def algebra_simps)
  moreover have "1000000 + tv_usec a - tv_usec b = (tv_usec a - tv_usec b) + 1000 * 1000" by simp
  ultimately show ?thesis
    by (simp only: div_mult_self2)
qed

lemma ast_tvdiff_ms_eq:
  assumes "tv_ok a" "tv_ok b" "- (2 ^ 31) \<le> (tv_us a - tv_us b) div 1000" "(tv_us a - tv_us b) div 1000 < 2 ^ 31"
  shows "ast_tvdiff_ms a b = (tv_us a - tv_us b) div 1000"
  unfolding ast_tvdiff_ms_def tvdiff_core [OF assms(1,2)] using assms(3,4) by (rule signed_take_bit_31_id)

lemma ast_samp2tv_ms:
  fixes n :: c_uint
  shows "tv_ok (ast_samp2tv n 1000)" "tv_us (ast_samp2tv n 1000) = uint n * 1000"
proof -
  have m: "uint (n mod 1000) = uint n mod 1000" "uint (n div 1000) = uint n div 1000"
    by (simp_all add: uint_mod uint_div)
  have "uint (n mod 1000) * 4000 < 2 ^ 32"
    unfolding m using pos_mod_bound [of 1000 "uint n"] by simp
  then have "uint ((n mod 1000) * 4000) = uint (n mod 1000) * 4000"
    by (simp add: uint_word_ariths m)
  then have u: "uint ((n mod 1000) * 4000 div 4) = uint n mod 1000 * 1000"
    by (simp add: uint_div m)
  show "tv_ok (ast_samp2tv n 1000)"
    by (simp add: ast_samp2tv_def ast_tv_def tv_ok_def u)
  show "tv_us (ast_samp2tv n 1000) = uint n * 1000"
    unfolding ast_samp2tv_def ast_tv_def tv_us_def by (simp add: u m) presburger
qed

text \<open>
  Times are arithmetic on microseconds: on normalised times the sum and the difference are
  exact and normalised, differences undo sums, and the difference in milliseconds is the exact
  one rounded down, as long as it fits an \<open>int\<close>.
\<close>

theorem timeval_arithmetic:
  assumes "tv_ok a" "tv_ok b" "\<bar>tv_us a - tv_us b\<bar> < 2 ^ 31 * 1000"
  shows "tv_us (ast_tvadd a b) = tv_us a + tv_us b \<and> tv_us (ast_tvsub a b) = tv_us a - tv_us b \<and>
    tv_ok (ast_tvadd a b) \<and> tv_ok (ast_tvsub a b) \<and> ast_tvsub (ast_tvadd a b) b = a \<and>
    ast_tvdiff_ms a b = (tv_us a - tv_us b) div 1000 \<and> (ast_tvcmp a b = -1) = (tv_us a < tv_us b)"
proof -
  have "ast_tvsub (ast_tvadd a b) b = a"
    using assms(1,2) by (intro tv_eq_us) (simp_all add: tv_us_tvsub tv_us_tvadd)
  moreover have "ast_tvdiff_ms a b = (tv_us a - tv_us b) div 1000"
    using assms by (intro ast_tvdiff_ms_eq) linarith+
  ultimately show ?thesis
    using assms by (simp add: tv_us_tvadd tv_us_tvsub ast_tvcmp_less tv_us_less)
qed

theorem timeval_arithmetic_witness:
  "tv_us (ast_tvadd (Tv 5 700000) (Tv 2 400500)) = tv_us (Tv 5 700000) + tv_us (Tv 2 400500) \<and>
   ast_tvdiff_ms (Tv 5 700000) (Tv 2 400500) = 3299"
  using timeval_arithmetic [of "Tv 5 700000" "Tv 2 400500"] by (simp add: tv_ok_def tv_us_def)

end
