(* ===== verification/Sched.thy ===== *)
theory Sched
  imports Timeval
begin

text \<open>
  The scheduler of \<open>main/sched.c\<close>: callbacks to be run at given times.

  \<^item> An entry's callback and data pointer are one value \<open>s_cb\<close>. The intrusive lists \<open>schedq\<close>
    and \<open>schedc\<close> are lists of entries; the counters are \<open>unsigned int\<close> and the identifiers \<open>int\<close>.
    The mutex is not part of the state: every operation holds it, except while a callback runs.
  \<^item> The time of day is an argument. \<open>alloc\<close> says whether \<open>ast_calloc\<close> succeeds.
  \<^item> Callbacks are code of the clients: \<open>ast_sched_runq\<close> takes their behaviour as a function on
    a world and the scheduler, which they may change while the lock is released. The clock is a
    function of the world. The loop takes fuel, since a callback that asks to be run again at
    once keeps it running.
\<close>

section \<open>Data\<close>

definition SCHED_MAX_CACHE :: c_uint where "SCHED_MAX_CACHE = 128"

record 'c sched =
  s_id :: int
  s_when :: timeval
  s_resched :: int
  s_variable :: bool
  s_cb :: 'c

record 'c sched_context =
  eventcnt :: c_uint
  schedcnt :: c_uint
  schedq :: "'c sched list"
  schedc :: "'c sched list"
  schedccnt :: c_uint

section \<open>Operations\<close>

definition sched_context_create :: "bool \<Rightarrow> 'c sched_context option" where
  "sched_context_create alloc =
     (if alloc then Some \<lparr> eventcnt = 1, schedcnt = 0, schedq = [], schedc = [], schedccnt = 0 \<rparr> else None)"

text \<open>The entries that \<open>sched_context_destroy\<close> frees.\<close>

definition sched_context_destroy :: "'c sched_context \<Rightarrow> 'c sched list" where
  "sched_context_destroy con = schedc con @ schedq con"

text \<open>
  \<open>sched_alloc\<close>: whether an entry was obtained. Its old contents do not matter, since the caller
  sets every field.
\<close>

definition sched_alloc :: "bool \<Rightarrow> 'c sched_context \<Rightarrow> 'c sched_context \<times> bool" where
  "sched_alloc alloc con =
     (case schedc con of
        _ # rest \<Rightarrow> (con\<lparr> schedc := rest, schedccnt := schedccnt con - 1 \<rparr>, True)
      | [] \<Rightarrow> (con, alloc))"

definition sched_release :: "'c sched_context \<Rightarrow> 'c sched \<Rightarrow> 'c sched_context" where
  "sched_release con tmp =
     (if schedccnt con < SCHED_MAX_CACHE
      then con\<lparr> schedc := tmp # schedc con, schedccnt := schedccnt con + 1 \<rparr>
      else con)"

definition ast_sched_wait :: "'c sched_context \<Rightarrow> timeval \<Rightarrow> int" where
  "ast_sched_wait con now =
     (case schedq con of
        [] \<Rightarrow> -1
      | s # _ \<Rightarrow> let ms = ast_tvdiff_ms (s_when s) now in if ms < 0 then 0 else ms)"

text \<open>The traversal of \<open>schedule\<close>: before the first entry that is later, or at the tail.\<close>

fun schedule_place :: "'c sched \<Rightarrow> 'c sched list \<Rightarrow> 'c sched list" where
  "schedule_place s [] = [s]"
| "schedule_place s (cur # rest) =
     (if ast_tvcmp (s_when s) (s_when cur) = -1 then s # cur # rest
      else cur # schedule_place s rest)"

definition schedule :: "'c sched_context \<Rightarrow> 'c sched \<Rightarrow> 'c sched_context" where
  "schedule con s = con\<lparr> schedq := schedule_place s (schedq con), schedcnt := schedcnt con + 1 \<rparr>"

text \<open>\<open>sched_settime\<close>; the \<open>int\<close> offset becomes the \<open>unsigned\<close> argument of \<open>ast_samp2tv\<close>.\<close>

definition sched_settime :: "timeval \<Rightarrow> int \<Rightarrow> timeval \<Rightarrow> timeval \<times> int" where
  "sched_settime tv when now =
     (let tv = (if ast_tvzero tv then now else tv);
          tv = ast_tvadd tv (ast_samp2tv (word_of_int when) 1000)
      in (if ast_tvcmp tv now < 0 then now else tv, 0))"

definition ast_sched_add_variable ::
    "bool \<Rightarrow> 'c sched_context \<Rightarrow> int \<Rightarrow> 'c \<Rightarrow> bool \<Rightarrow> timeval \<Rightarrow> 'c sched_context \<times> int" where
  "ast_sched_add_variable alloc con when cb variable now =
     (let (con, got) = sched_alloc alloc con in
      if \<not> got then (con, -1)
      else
        let eid = sint (eventcnt con);
            con = con\<lparr> eventcnt := eventcnt con + 1 \<rparr>;
            (w, r) = sched_settime (ast_tv 0 0) when now;
            tmp = \<lparr> s_id = eid, s_when = w, s_resched = when, s_variable = variable, s_cb = cb \<rparr>
        in if r \<noteq> 0 then (sched_release con tmp, -1) else (schedule con tmp, eid))"

definition ast_sched_add ::
    "bool \<Rightarrow> 'c sched_context \<Rightarrow> int \<Rightarrow> 'c \<Rightarrow> timeval \<Rightarrow> 'c sched_context \<times> int" where
  "ast_sched_add alloc con when cb now = ast_sched_add_variable alloc con when cb False now"

text \<open>The traversal of \<open>ast_sched_del\<close>: the entry removed and the remaining queue.\<close>

fun sched_unlink :: "int \<Rightarrow> 'c sched list \<Rightarrow> ('c sched \<times> 'c sched list) option" where
  "sched_unlink eid [] = None"
| "sched_unlink eid (s # rest) =
     (if s_id s = eid then Some (s, rest)
      else map_option (\<lambda>(t, rest). (t, s # rest)) (sched_unlink eid rest))"

definition ast_sched_del :: "'c sched_context \<Rightarrow> int \<Rightarrow> 'c sched_context \<times> int" where
  "ast_sched_del con eid =
     (case sched_unlink eid (schedq con) of
        None \<Rightarrow> (con, -1)
      | Some (s, rest) \<Rightarrow>
          (sched_release (con\<lparr> schedq := rest, schedcnt := schedcnt con - 1 \<rparr>) s, 0))"

text \<open>
  The macro \<open>AST_SCHED_DEL\<close>: up to ten attempts while the identifier is not negative, then the
  identifier is reset to \<open>-1\<close>. \<open>others n\<close> is what other threads do to the scheduler during the
  \<open>n\<close>-th pause.
\<close>

fun sched_del_loop ::
    "nat \<Rightarrow> (nat \<Rightarrow> 'c sched_context \<Rightarrow> 'c sched_context) \<Rightarrow> 'c sched_context \<Rightarrow> int
      \<Rightarrow> 'c sched_context \<times> int" where
  "sched_del_loop n others con eid =
     (let (con, res) = ast_sched_del con eid in
      if res = 0 then (con, 0)
      else case n of 0 \<Rightarrow> (con, res) | Suc n \<Rightarrow> sched_del_loop n others (others n con) eid)"

definition AST_SCHED_DEL ::
    "(nat \<Rightarrow> 'c sched_context \<Rightarrow> 'c sched_context) \<Rightarrow> 'c sched_context \<Rightarrow> int
      \<Rightarrow> 'c sched_context \<times> int \<times> int" where
  "AST_SCHED_DEL others con eid =
     (let (con, res) = (if eid > -1 then sched_del_loop 9 others con eid else (con, -1))
      in (con, res, -1))"

text \<open>The loop of \<open>ast_sched_runq\<close>; \<open>None\<close> when the fuel is used up.\<close>

fun runq_loop ::
    "nat \<Rightarrow> ('w \<Rightarrow> timeval) \<Rightarrow> ('c \<Rightarrow> 'w \<Rightarrow> 'c sched_context \<Rightarrow> int \<times> 'w \<times> 'c sched_context)
      \<Rightarrow> 'w \<Rightarrow> 'c sched_context \<Rightarrow> nat \<Rightarrow> ('w \<times> 'c sched_context \<times> nat) option" where
  "runq_loop 0 clock call w con numevents = None"
| "runq_loop (Suc fuel) clock call w con numevents =
     (case schedq con of
        [] \<Rightarrow> Some (w, con, numevents)
      | current # rest \<Rightarrow>
          let tv = ast_tvadd (clock w) (ast_tv 0 1000) in
          if ast_tvcmp (s_when current) tv \<noteq> -1 then Some (w, con, numevents)
          else
            let con = con\<lparr> schedq := rest, schedcnt := schedcnt con - 1 \<rparr>;
                (res, w, con) = call (s_cb current) w con;
                con =
                  (if res \<noteq> 0 then
                     let (t, r) = sched_settime (s_when current)
                                    (if s_variable current then res else s_resched current) (clock w)
                     in if r \<noteq> 0 then sched_release con (current\<lparr> s_when := t \<rparr>)
                        else schedule con (current\<lparr> s_when := t \<rparr>)
                   else sched_release con current)
            in runq_loop fuel clock call w con (numevents + 1))"

definition ast_sched_runq ::
    "nat \<Rightarrow> ('w \<Rightarrow> timeval) \<Rightarrow> ('c \<Rightarrow> 'w \<Rightarrow> 'c sched_context \<Rightarrow> int \<times> 'w \<times> 'c sched_context)
      \<Rightarrow> 'w \<Rightarrow> 'c sched_context \<Rightarrow> ('w \<times> 'c sched_context \<times> nat) option" where
  "ast_sched_runq fuel clock call w con = runq_loop fuel clock call w con 0"

definition ast_sched_when :: "'c sched_context \<Rightarrow> int \<Rightarrow> timeval \<Rightarrow> int" where
  "ast_sched_when con eid now =
     (case find (\<lambda>s. s_id s = eid) (schedq con) of
        None \<Rightarrow> -1
      | Some s \<Rightarrow> tv_sec (s_when s) - tv_sec now)"

declare sched_del_loop.simps [simp del]

section \<open>The queue\<close>

interpretation sq: stable_insert s_when schedule_place
proof
  fix xs :: "'c sched list" and x :: "'c sched"
  assume "sorted (map s_when xs)"
  then show "\<exists>ys zs. xs = ys @ zs \<and> schedule_place x xs = ys @ x # zs \<and>
      (\<forall>y\<in>set ys. s_when y \<le> s_when x) \<and> (\<forall>z\<in>set zs. s_when x < s_when z)"
  proof (induction xs)
    case (Cons y xs)
    show ?case
    proof (cases "s_when x < s_when y")
      case True
      with Cons.prems show ?thesis
        by (intro exI [of _ "[]"] exI [of _ "y # xs"]) (auto simp: ast_tvcmp_less)
    next
      case False
      obtain ys zs where "xs = ys @ zs" "schedule_place x xs = ys @ x # zs"
        "\<forall>y\<in>set ys. s_when y \<le> s_when x" "\<forall>z\<in>set zs. s_when x < s_when z"
        using Cons by auto
      with False show ?thesis
        by (rule_tac x = "y # ys" in exI, rule_tac x = zs in exI) (auto simp: ast_tvcmp_less)
    qed
  qed simp
qed

text \<open>The queue is in the order of time; the counters count.\<close>

definition sched_wf :: "'c sched_context \<Rightarrow> bool" where
  "sched_wf con \<longleftrightarrow>
     sorted (map s_when (schedq con)) \<and> (\<forall>s\<in>set (schedq con). tv_ok (s_when s)) \<and>
     schedcnt con = of_nat (length (schedq con)) \<and>
     schedccnt con = of_nat (length (schedc con)) \<and> length (schedc con) \<le> 128"

lemma sched_wf_create: "sched_context_create alloc = Some con \<Longrightarrow> sched_wf con"
  by (auto simp: sched_context_create_def sched_wf_def split: if_splits)

lemma of_nat_less_128: "n \<le> 128 \<Longrightarrow> (of_nat n :: c_uint) < 128 \<longleftrightarrow> n < 128"
  by (simp add: word_less_nat_alt unat_of_nat)

lemma sched_wf_release: "sched_wf con \<Longrightarrow> sched_wf (sched_release con s)"
  by (auto simp: sched_wf_def sched_release_def SCHED_MAX_CACHE_def of_nat_less_128)

lemma sched_release_fields [simp]:
  "schedq (sched_release con s) = schedq con" "schedcnt (sched_release con s) = schedcnt con"
  "eventcnt (sched_release con s) = eventcnt con"
  by (simp_all add: sched_release_def)

lemma sched_wf_alloc: "sched_wf con \<Longrightarrow> sched_wf (fst (sched_alloc alloc con))"
  by (auto simp: sched_wf_def sched_alloc_def split: list.splits)

lemma sched_alloc_fields [simp]:
  "schedq (fst (sched_alloc alloc con)) = schedq con" "schedcnt (fst (sched_alloc alloc con)) = schedcnt con"
  "eventcnt (fst (sched_alloc alloc con)) = eventcnt con" "snd (sched_alloc True con)"
  by (auto simp: sched_alloc_def split: list.splits)

lemma sched_wf_schedule: "sched_wf con \<Longrightarrow> tv_ok (s_when s) \<Longrightarrow> sched_wf (schedule con s)"
  by (auto simp: sched_wf_def schedule_def sq.ins_sorted sq.ins_set sq.ins_length)

lemma sched_wf_eventcnt [simp]: "sched_wf (con\<lparr> eventcnt := n \<rparr>) \<longleftrightarrow> sched_wf con"
  by (simp add: sched_wf_def)

lemma sched_settime_ok: "tv_ok now \<Longrightarrow> tv_ok (fst (sched_settime tv when now))"
  by (simp add: sched_settime_def Let_def)

lemma sched_settime_ret [simp]: "snd (sched_settime tv when now) = 0"
  by (simp add: sched_settime_def Let_def)

lemma ast_sched_add_variable_eq:
  "ast_sched_add_variable alloc con when cb variable now =
     (if snd (sched_alloc alloc con) then
        (schedule ((fst (sched_alloc alloc con))\<lparr> eventcnt := eventcnt con + 1 \<rparr>)
           \<lparr> s_id = sint (eventcnt con), s_when = fst (sched_settime (ast_tv 0 0) when now),
              s_resched = when, s_variable = variable, s_cb = cb \<rparr>,
         sint (eventcnt con))
      else (fst (sched_alloc alloc con), -1))"
proof -
  obtain con1 got where a: "sched_alloc alloc con = (con1, got)" by force
  obtain w where w: "sched_settime (ast_tv 0 0) when now = (w, 0)"
    using sched_settime_ret [of "ast_tv 0 0" "when" now] by (cases "sched_settime (ast_tv 0 0) when now") auto
  have "eventcnt con1 = eventcnt con"
    using sched_alloc_fields(3) [of alloc con] by (simp add: a)
  then show ?thesis
    by (simp add: ast_sched_add_variable_def a w Let_def)
qed

lemma sched_wf_add: "sched_wf con \<Longrightarrow> tv_ok now \<Longrightarrow> sched_wf (fst (ast_sched_add_variable alloc con when cb variable now))"
  by (simp add: ast_sched_add_variable_eq sched_wf_schedule sched_wf_alloc sched_settime_ok)

lemma sched_unlink_some:
  "sched_unlink eid q = Some (s, rest) \<Longrightarrow>
     \<exists>ys zs. q = ys @ s # zs \<and> rest = ys @ zs \<and> s_id s = eid \<and> (\<forall>y\<in>set ys. s_id y \<noteq> eid)"
proof (induction q arbitrary: rest)
  case (Cons t q)
  show ?case
  proof (cases "s_id t = eid")
    case False
    with Cons.prems obtain r where r: "sched_unlink eid q = Some (s, r)" "rest = t # r" by auto
    with Cons.IH obtain ys zs where "q = ys @ s # zs" "r = ys @ zs" "s_id s = eid" "\<forall>y\<in>set ys. s_id y \<noteq> eid"
      by blast
    with False r(2) show ?thesis by (intro exI [of _ "t # ys"] exI [of _ zs]) simp
  qed (use Cons.prems in \<open>auto intro: exI [of _ "[]"]\<close>)
qed simp

lemma sched_unlink_none: "sched_unlink eid q = None \<longleftrightarrow> (\<forall>s\<in>set q. s_id s \<noteq> eid)"
  by (induction q) auto

lemma sched_wf_dequeue:
  assumes "sched_wf con" "schedq con = ys @ s # zs"
  shows "sched_wf (con\<lparr> schedq := ys @ zs, schedcnt := schedcnt con - 1 \<rparr>)"
  using assms by (auto simp: sched_wf_def sorted_append)

lemma sched_wf_del: "sched_wf con \<Longrightarrow> sched_wf (fst (ast_sched_del con eid))"
  by (auto simp: ast_sched_del_def split: option.splits dest!: sched_unlink_some
      intro!: sched_wf_release sched_wf_dequeue)

section \<open>The specification: a map from identifiers to events\<close>

datatype 'c sched_op =
    Sched_add int 'c bool timeval
  | Sched_del int
  | Sched_when int timeval

fun sched_exec :: "'c sched_context \<Rightarrow> 'c sched_op \<Rightarrow> 'c sched_context \<times> int" where
  "sched_exec con (Sched_add when cb variable now) = ast_sched_add_variable True con when cb variable now"
| "sched_exec con (Sched_del eid) = ast_sched_del con eid"
| "sched_exec con (Sched_when eid now) = (con, ast_sched_when con eid now)"

fun sched_op_ok :: "'c sched_op \<Rightarrow> bool" where
  "sched_op_ok (Sched_add when cb variable now) \<longleftrightarrow> tv_ok now \<and> \<not> ast_tvzero now \<and> 0 \<le> when \<and> when < 2 ^ 31"
| "sched_op_ok (Sched_del eid) \<longleftrightarrow> True"
| "sched_op_ok (Sched_when eid now) \<longleftrightarrow> True"

text \<open>
  The scheduler as its clients see it: the next identifier and the pending events by
  identifier, with the time in microseconds.
\<close>

type_synonym 'c sched_spec = "int \<times> (int \<rightharpoonup> int \<times> int \<times> bool \<times> 'c)"

fun spec_exec :: "'c sched_spec \<Rightarrow> 'c sched_op \<Rightarrow> 'c sched_spec \<times> int" where
  "spec_exec (n, m) (Sched_add when cb variable now) =
     ((n + 1, m(n \<mapsto> (tv_us now + when * 1000, when, variable, cb))), n)"
| "spec_exec (n, m) (Sched_del eid) = ((n, m(eid := None)), if m eid = None then -1 else 0)"
| "spec_exec (n, m) (Sched_when eid now) =
     ((n, m), case m eid of None \<Rightarrow> -1 | Some (t, _) \<Rightarrow> t div 1000000 - tv_sec now)"

fun run_ops :: "('s \<Rightarrow> 'e \<Rightarrow> 's \<times> int) \<Rightarrow> 's \<Rightarrow> 'e list \<Rightarrow> 's \<times> int list" where
  "run_ops step s [] = (s, [])"
| "run_ops step s (e # es) =
     (let (s, r) = step s e; (s, rs) = run_ops step s es in (s, r # rs))"

definition sched_item :: "'c sched \<Rightarrow> int \<times> int \<times> int \<times> bool \<times> 'c" where
  "sched_item s = (s_id s, tv_us (s_when s), s_resched s, s_variable s, s_cb s)"

definition sched_abs :: "'c sched_context \<Rightarrow> (int \<rightharpoonup> int \<times> int \<times> bool \<times> 'c)" where
  "sched_abs con = map_of (map sched_item (schedq con))"

definition sched_sim :: "'c sched_context \<Rightarrow> 'c sched_spec \<Rightarrow> bool" where
  "sched_sim con a \<longleftrightarrow>
     sched_wf con \<and> sint (eventcnt con) = fst a \<and> 0 < fst a \<and> distinct (map s_id (schedq con)) \<and>
     (\<forall>s\<in>set (schedq con). s_id s < fst a) \<and> sched_abs con = snd a"

lemma sched_settime_delay:
  assumes "tv_ok now" "\<not> ast_tvzero now" "0 \<le> when" "when < 2 ^ 31"
  shows "tv_us (fst (sched_settime (ast_tv 0 0) when now)) = tv_us now + when * 1000"
proof -
  have w: "uint (word_of_int when :: c_uint) = when"
    using assms(3,4) by (simp add: uint_word_of_int)
  have a: "tv_us (ast_tvadd now (ast_samp2tv (word_of_int when) 1000)) = tv_us now + when * 1000"
    using assms(1) by (simp add: tv_us_tvadd ast_samp2tv_ms w)
  then have "\<not> ast_tvadd now (ast_samp2tv (word_of_int when) 1000) < now"
    using assms(1,3) by (simp add: tv_us_less)
  with a show ?thesis
    by (simp add: sched_settime_def Let_def ast_tvcmp_less ast_tvzero_def ast_tv_def)
qed

lemma map_of_insert:
  assumes "distinct (map fst (ys @ x # zs))"
  shows "map_of (ys @ x # zs) = (map_of (ys @ zs))(fst x \<mapsto> snd x)"
proof -
  have "map_of (ys @ x # zs) = map_of (x # ys @ zs)"
    using assms by (intro map_of_eqI) (auto simp: map_of_append map_add_def split: option.splits
        dest: map_of_SomeD intro: rev_image_eqI)
  then show ?thesis by (cases x) simp
qed

lemma sched_abs_insert:
  "distinct (map s_id (ys @ s # zs)) \<Longrightarrow>
   map_of (map sched_item (ys @ s # zs)) =
     (map_of (map sched_item (ys @ zs)))(s_id s \<mapsto> snd (sched_item s))"
  using map_of_insert [of "map sched_item ys" "sched_item s" "map sched_item zs"]
  by (simp add: sched_item_def o_def)

lemma sched_abs_none: "sched_abs con eid = None \<longleftrightarrow> (\<forall>s\<in>set (schedq con). s_id s \<noteq> eid)"
  by (auto simp: sched_abs_def map_of_eq_None_iff sched_item_def image_iff)

lemma sched_exec_add:
  assumes sim: "sched_sim con (n, m)" and ok: "sched_op_ok (Sched_add when cb variable now)" and n: "n + 1 < 2 ^ 31"
  shows "case sched_exec con (Sched_add when cb variable now) of (con', r) \<Rightarrow>
    r = n \<and> sched_sim con' (n + 1, m(n \<mapsto> (tv_us now + when * 1000, when, variable, cb)))"
proof -
  let ?s = "\<lparr> s_id = n, s_when = fst (sched_settime (ast_tv 0 0) when now), s_resched = when,
      s_variable = variable, s_cb = cb \<rparr>"
  have e: "sint (eventcnt con) = n" and wf: "sched_wf con" and fresh: "\<forall>s\<in>set (schedq con). s_id s < n"
    and d: "distinct (map s_id (schedq con))" and abs: "sched_abs con = m"
    using sim by (auto simp: sched_sim_def)
  have e1: "sint (eventcnt con + 1) = n + 1"
    using e n sim by (simp add: sched_sim_def sint_word_ariths signed_take_bit_int_eq_self)
  have wf': "sched_wf (fst (ast_sched_add_variable True con when cb variable now))"
    using wf ok by (simp add: sched_wf_add)
  obtain ys zs where q: "schedq con = ys @ zs" "schedule_place ?s (schedq con) = ys @ ?s # zs"
    using sq.ins_split [of "schedq con" ?s] wf by (auto simp: sched_wf_def)
  have d': "distinct (map s_id (ys @ ?s # zs))"
    using d fresh q(1) by auto
  have item: "snd (sched_item ?s) = (tv_us now + when * 1000, when, variable, cb)"
    using ok by (simp add: sched_item_def sched_settime_delay)
  have add: "ast_sched_add_variable True con when cb variable now =
      (schedule ((fst (sched_alloc True con))\<lparr> eventcnt := eventcnt con + 1 \<rparr>) ?s, n)"
    by (simp add: ast_sched_add_variable_eq e)
  have q': "schedq (fst (ast_sched_add_variable True con when cb variable now)) = ys @ ?s # zs"
    by (simp add: add schedule_def q(2))
  moreover have "sched_abs (fst (ast_sched_add_variable True con when cb variable now)) =
      m(n \<mapsto> (tv_us now + when * 1000, when, variable, cb))"
    using sched_abs_insert [OF d'] abs item by (simp add: sched_abs_def q' q(1))
  moreover have "sint (eventcnt (fst (ast_sched_add_variable True con when cb variable now))) = n + 1"
    by (simp add: add schedule_def e1)
  moreover have "\<forall>s\<in>set (ys @ ?s # zs). s_id s < n + 1"
    using fresh by (force simp: q(1))
  ultimately show ?thesis
    using wf' d' sim unfolding sched_sim_def by (simp add: add)
qed

lemma sched_exec_del:
  assumes sim: "sched_sim con (n, m)"
  shows "case ast_sched_del con eid of (con', r) \<Rightarrow>
    r = (if m eid = None then -1 else 0) \<and> sched_sim con' (n, m(eid := None))"
proof (cases "sched_unlink eid (schedq con)")
  case None
  then have "m eid = None"
    using sim by (auto simp: sched_unlink_none sched_sim_def sched_abs_none [symmetric])
  with None sim show ?thesis
    by (auto simp: ast_sched_del_def fun_upd_idem)
next
  case (Some p)
  obtain s rest where p: "p = (s, rest)" by force
  from sched_unlink_some [OF Some [unfolded p]] obtain ys zs where
    q: "schedq con = ys @ s # zs" "rest = ys @ zs" "s_id s = eid" by blast
  have wf: "sched_wf (fst (ast_sched_del con eid))"
    using sim by (simp add: sched_wf_del sched_sim_def)
  have abs: "sched_abs con = m" and d: "distinct (map s_id (ys @ s # zs))"
    using sim by (auto simp: sched_sim_def q(1))
  have m: "m = (map_of (map sched_item (ys @ zs)))(eid \<mapsto> snd (sched_item s))"
    using sched_abs_insert [OF d] abs by (simp add: sched_abs_def q)
  have "map_of (map sched_item (ys @ zs)) eid = None"
    using d q(3) by (auto simp: map_of_eq_None_iff sched_item_def image_iff)
  with m have "map_of (map sched_item (ys @ zs)) = m(eid := None)"
    by (simp add: fun_upd_idem)
  moreover have del: "ast_sched_del con eid =
      (sched_release (con\<lparr> schedq := ys @ zs, schedcnt := schedcnt con - 1 \<rparr>) s, 0)"
    by (simp add: ast_sched_del_def Some p q(2))
  moreover have "m eid \<noteq> None" by (simp add: m)
  ultimately show ?thesis
    using sim wf d unfolding sched_sim_def by (simp add: del sched_abs_def q(1))
qed

lemma sched_exec_when:
  assumes sim: "sched_sim con (n, m)"
  shows "ast_sched_when con eid now = (case m eid of None \<Rightarrow> -1 | Some (t, _) \<Rightarrow> t div 1000000 - tv_sec now)"
proof -
  have "find (\<lambda>s. s_id s = eid) q = None \<Longrightarrow> map_of (map sched_item q) eid = None" for q :: "'a sched list"
    by (induction q) (auto simp: sched_item_def split: if_splits)
  moreover have "find (\<lambda>s. s_id s = eid) q = Some s \<Longrightarrow>
      map_of (map sched_item q) eid = Some (snd (sched_item s)) \<and> s \<in> set q" for q :: "'a sched list" and s
    by (induction q) (auto simp: sched_item_def split: if_splits)
  moreover have "tv_us (s_when s) div 1000000 = tv_sec (s_when s)" if "s \<in> set (schedq con)" for s
    using that sim by (auto simp: sched_sim_def sched_wf_def tv_ok_def tv_us_def)
  ultimately show ?thesis
    using sim by (auto simp: ast_sched_when_def sched_sim_def sched_abs_def sched_item_def split: option.splits)
qed

lemma sched_exec_sim:
  assumes "sched_sim con a" "sched_op_ok e" "fst a + 1 < 2 ^ 31"
  shows "sched_sim (fst (sched_exec con e)) (fst (spec_exec a e)) \<and>
    snd (sched_exec con e) = snd (spec_exec a e) \<and> fst (fst (spec_exec a e)) \<le> fst a + 1"
proof -
  obtain n m where a: "a = (n, m)" by force
  show ?thesis
    using assms sched_exec_add [of con n m, unfolded case_prod_unfold]
      sched_exec_del [of con n m, unfolded case_prod_unfold] sched_exec_when [of con n m]
    by (cases e) (simp_all add: a)
qed

lemma sched_run_sim:
  "sched_sim con a \<Longrightarrow> \<forall>e\<in>set es. sched_op_ok e \<Longrightarrow> fst a + int (length es) < 2 ^ 31 \<Longrightarrow>
   sched_sim (fst (run_ops sched_exec con es)) (fst (run_ops spec_exec a es)) \<and>
   snd (run_ops sched_exec con es) = snd (run_ops spec_exec a es)"
proof (induction es arbitrary: con a)
  case (Cons e es)
  have "sched_sim (fst (sched_exec con e)) (fst (spec_exec a e)) \<and>
      snd (sched_exec con e) = snd (spec_exec a e) \<and> fst (fst (spec_exec a e)) \<le> fst a + 1"
    using Cons.prems by (intro sched_exec_sim) auto
  with Cons.IH [of "fst (sched_exec con e)" "fst (spec_exec a e)"] Cons.prems show ?case
    by (simp add: Let_def case_prod_unfold)
qed simp

section \<open>Running the queue\<close>

text \<open>
  How often an event due at time \<open>t\<close> can run before the clock passes \<open>T\<close>, when each run
  puts it off by a millisecond or more.
\<close>

definition run_weight :: "timeval \<Rightarrow> timeval \<Rightarrow> nat" where
  "run_weight T t = nat ((tv_us T + 1000 - tv_us t) div 1000 + 1)"

definition runq_weight :: "timeval \<Rightarrow> 'c sched_context \<Rightarrow> nat" where
  "runq_weight T con = sum_list (map (\<lambda>s. run_weight T (s_when s)) (schedq con))"

definition periods_ok :: "'c sched_context \<Rightarrow> bool" where
  "periods_ok con \<longleftrightarrow> (\<forall>s\<in>set (schedq con). s_variable s \<or> (word_of_int (s_resched s) :: c_uint) \<noteq> 0)"

text \<open>
  What the loop relies on: callbacks use the scheduler through its operations, so that it stays
  well formed, and do not keep adding events that are due before \<open>T\<close>.
\<close>

definition callbacks_ok ::
    "timeval \<Rightarrow> ('c \<Rightarrow> 'w \<Rightarrow> 'c sched_context \<Rightarrow> int \<times> 'w \<times> 'c sched_context) \<Rightarrow> bool" where
  "callbacks_ok T call \<longleftrightarrow>
     (\<forall>c w con. sched_wf con \<longrightarrow> periods_ok con \<longrightarrow>
       (case call c w con of (res, w', con') \<Rightarrow>
          sched_wf con' \<and> periods_ok con' \<and> runq_weight T con' \<le> runq_weight T con \<and>
          - (2 ^ 31) \<le> res \<and> res < 2 ^ 31))"

definition clock_ok :: "timeval \<Rightarrow> ('w \<Rightarrow> timeval) \<Rightarrow> bool" where
  "clock_ok T clock \<longleftrightarrow> (\<forall>w. tv_ok (clock w) \<and> 0 \<le> tv_us (clock w) \<and> clock w \<le> T) \<and> tv_ok T"

lemma run_weight_due:
  "tv_us t < tv_us T + 1000 \<Longrightarrow> tv_us t + 1000 \<le> tv_us t' \<Longrightarrow> run_weight T t' < run_weight T t"
  "tv_us t < tv_us T + 1000 \<Longrightarrow> 0 < run_weight T t"
proof -
  assume t: "tv_us t < tv_us T + 1000"
  then have 1: "0 \<le> (tv_us T + 1000 - tv_us t) div 1000"
    by (simp add: pos_imp_zdiv_nonneg_iff)
  then show "0 < run_weight T t" by (simp add: run_weight_def)
  assume "tv_us t + 1000 \<le> tv_us t'"
  then have "tv_us T + 1000 - tv_us t' \<le> (tv_us T + 1000 - tv_us t) - 1000" by simp
  then have "(tv_us T + 1000 - tv_us t') div 1000 \<le> ((tv_us T + 1000 - tv_us t) - 1000) div 1000"
    by (rule zdiv_mono1) simp
  also have "\<dots> = (tv_us T + 1000 - tv_us t) div 1000 - 1"
    using div_mult_self1 [of 1000 "tv_us T + 1000 - tv_us t" "-1"] by simp
  finally show "run_weight T t' < run_weight T t"
    using 1 unfolding run_weight_def by linarith
qed

lemma sched_settime_later:
  assumes "tv_ok t" "tv_ok now" "0 \<le> tv_us now" "(word_of_int p :: c_uint) \<noteq> 0"
  shows "tv_us t + 1000 \<le> tv_us (fst (sched_settime t p now))"
proof -
  have p: "1 \<le> uint (word_of_int p :: c_uint)"
    using assms(4) uint_ge_0 [of "word_of_int p :: c_uint"] uint_0_iff [of "word_of_int p :: c_uint"] by linarith
  define b where "b = (if ast_tvzero t then now else t)"
  have b: "tv_ok b" "tv_us t \<le> tv_us b"
    using assms(1-3) by (auto simp: b_def ast_tvzero_def tv_us_def)
  have a: "tv_us (ast_tvadd b (ast_samp2tv (word_of_int p) 1000)) = tv_us b + uint (word_of_int p :: c_uint) * 1000"
    using b(1) by (simp only: tv_us_tvadd ast_samp2tv_ms)
  let ?x = "ast_tvadd b (ast_samp2tv (word_of_int p) 1000)"
  have "tv_us t + 1000 \<le> tv_us ?x"
    using a p b(2) by linarith
  moreover have "tv_us ?x \<le> tv_us now" if "?x < now"
    using that assms(2) by (simp add: tv_us_less)
  ultimately show ?thesis
    by (auto simp: sched_settime_def Let_def ast_tvcmp_less b_def [symmetric])
qed

lemma runq_weight_schedule:
  assumes "sched_wf con"
  shows "runq_weight T (schedule con s) = run_weight T (s_when s) + runq_weight T con"
proof -
  obtain ys zs where "schedq con = ys @ zs" "schedule_place s (schedq con) = ys @ s # zs"
    using sq.ins_split [of "schedq con" s] assms by (auto simp: sched_wf_def)
  then show ?thesis by (simp add: runq_weight_def schedule_def)
qed

lemma periods_ok_schedule:
  "sched_wf con \<Longrightarrow> periods_ok (schedule con s) \<longleftrightarrow>
     (s_variable s \<or> (word_of_int (s_resched s) :: c_uint) \<noteq> 0) \<and> periods_ok con"
  by (simp add: periods_ok_def schedule_def sq.ins_set sched_wf_def)

lemma runq_release [simp]:
  "runq_weight T (sched_release con s) = runq_weight T con" "periods_ok (sched_release con s) \<longleftrightarrow> periods_ok con"
  by (simp_all add: runq_weight_def periods_ok_def)

lemma word_of_int_nonzero:
  assumes "- (2 ^ 31) \<le> r" "r < 2 ^ 31" "r \<noteq> 0"
  shows "(word_of_int r :: c_uint) \<noteq> 0"
proof
  assume "(word_of_int r :: c_uint) = 0"
  then have "sint (word_of_int r :: c_uint) = 0" by simp
  with assms show False
    by (simp add: sint_sbintrunc' signed_take_bit_int_eq_self)
qed

lemma runq_step:
  assumes wf: "sched_wf con" and per: "periods_ok con" and call: "callbacks_ok T call" and clock: "clock_ok T clock"
    and q: "schedq con = current # rest" and due: "s_when current < ast_tvadd (clock w) (ast_tv 0 1000)"
    and c: "call (s_cb current) w (con\<lparr> schedq := rest, schedcnt := schedcnt con - 1 \<rparr>) = (res, w1, con1)"
  defines "con2 \<equiv> (if res \<noteq> 0
      then schedule con1 (current\<lparr> s_when := fst (sched_settime (s_when current)
             (if s_variable current then res else s_resched current) (clock w1)) \<rparr>)
      else sched_release con1 current)"
  shows "sched_wf con2" "periods_ok con2" "runq_weight T con2 < runq_weight T con"
proof -
  let ?con0 = "con\<lparr> schedq := rest, schedcnt := schedcnt con - 1 \<rparr>"
  have wf0: "sched_wf ?con0" and per0: "periods_ok ?con0"
    using sched_wf_dequeue [OF wf, of "[]" current rest] q per by (auto simp: periods_ok_def)
  have 1: "sched_wf con1" "periods_ok con1" "runq_weight T con1 \<le> runq_weight T ?con0"
    "- (2 ^ 31) \<le> res" "res < 2 ^ 31"
    using call [unfolded callbacks_ok_def, rule_format, OF wf0 per0, of "s_cb current" w] by (simp_all add: c)
  have ok: "tv_ok (s_when current)" and cl: "tv_ok (clock w)" "clock w \<le> T" "tv_ok T" "tv_ok (clock w1)" "0 \<le> tv_us (clock w1)"
    using wf q clock by (auto simp: sched_wf_def clock_ok_def)
  have "tv_ok (ast_tv 0 1000)" "tv_us (ast_tv 0 1000) = 1000"
    by (simp_all add: tv_ok_def ast_tv_def tv_us_def)
  then have due': "tv_us (s_when current) < tv_us T + 1000"
    using due ok cl by (simp add: tv_us_less tv_us_tvadd tv_us_le)
  have w0: "runq_weight T con = run_weight T (s_when current) + runq_weight T ?con0"
    by (simp add: runq_weight_def q)
  let ?p = "if s_variable current then res else s_resched current"
  have p: "(word_of_int ?p :: c_uint) \<noteq> 0" if "res \<noteq> 0"
    using that per q 1(4,5) by (auto simp: periods_ok_def word_of_int_nonzero)
  have later: "run_weight T (fst (sched_settime (s_when current) ?p (clock w1))) < run_weight T (s_when current)" if "res \<noteq> 0"
    using sched_settime_later [OF ok cl(4,5) p [OF that]] due' by (rule run_weight_due(1) [rotated])
  show "sched_wf con2"
    using 1(1) cl(4) by (simp add: con2_def sched_wf_schedule sched_settime_ok sched_wf_release)
  show "periods_ok con2"
    using 1(1,2) per q by (auto simp: con2_def periods_ok_schedule) (simp add: periods_ok_def)+
  show "runq_weight T con2 < runq_weight T con"
    using later 1(1,3) run_weight_due(2) [OF due'] by (auto simp: con2_def runq_weight_schedule w0)
qed

lemma runq_loop_returns:
  assumes "callbacks_ok T call" "clock_ok T clock"
  shows "sched_wf con \<Longrightarrow> periods_ok con \<Longrightarrow> runq_weight T con < fuel \<Longrightarrow>
    \<exists>w' con' k. runq_loop fuel clock call w con n = Some (w', con', n + k) \<and> k \<le> runq_weight T con \<and>
      sched_wf con' \<and> (\<forall>s\<in>set (schedq con'). ast_tvadd (clock w') (ast_tv 0 1000) \<le> s_when s)"
proof (induction fuel arbitrary: w con n)
  case (Suc fuel)
  show ?case
  proof (cases "schedq con")
    case Nil
    with Suc.prems show ?thesis by (auto intro!: exI [of _ 0])
  next
    case (Cons current rest)
    show ?thesis
    proof (cases "s_when current < ast_tvadd (clock w) (ast_tv 0 1000)")
      case False
      with Suc.prems(1) Cons have "\<forall>s\<in>set (schedq con). ast_tvadd (clock w) (ast_tv 0 1000) \<le> s_when s"
        by (auto simp: sched_wf_def)
      with False Cons Suc.prems show ?thesis by (auto simp: ast_tvcmp_less intro!: exI [of _ 0])
    next
      case True
      obtain res w1 con1 where c: "call (s_cb current) w (con\<lparr> schedq := rest, schedcnt := schedcnt con - 1 \<rparr>) = (res, w1, con1)"
        using prod_cases3 by blast
      note step = runq_step [OF Suc.prems(1,2) assms Cons True c]
      let ?con2 = "if res \<noteq> 0
        then schedule con1 (current\<lparr> s_when := fst (sched_settime (s_when current)
             (if s_variable current then res else s_resched current) (clock w1)) \<rparr>)
        else sched_release con1 current"
      have "runq_weight T ?con2 < fuel" using step(3) Suc.prems(3) by linarith
      from Suc.IH [OF step(1,2) this, of w1 "n + 1"] obtain w' con' k where
        ih: "runq_loop fuel clock call w1 ?con2 (n + 1) = Some (w', con', n + 1 + k)" "k \<le> runq_weight T ?con2"
          "sched_wf con'" "\<forall>s\<in>set (schedq con'). ast_tvadd (clock w') (ast_tv 0 1000) \<le> s_when s"
        by blast
      have "runq_loop (Suc fuel) clock call w con n = runq_loop fuel clock call w1 ?con2 (n + 1)"
        using True by (simp add: Cons ast_tvcmp_less c case_prod_unfold)
      with ih step(3) show ?thesis by (intro exI [of _ w'] exI [of _ con'] exI [of _ "Suc k"]) simp
    qed
  qed
qed simp

section \<open>Properties\<close>

text \<open>
  C14. The scheduler implements its specification, a map from identifiers to pending events:
  any sequence of additions, deletions and queries gives the results of the specification and
  ends in a scheduler whose queue represents the specification's map, is in the order of time
  and has correct counters. (Up to \<open>2 ^ 31\<close> identifiers, delays that are not negative, memory
  available.)
\<close>

theorem sched_refines_spec:
  assumes "sched_context_create True = Some con" "\<forall>e\<in>set es. sched_op_ok e" "length es < 2 ^ 31 - 1"
  shows "case (run_ops sched_exec con es, run_ops spec_exec (1, Map.empty) es) of ((con', rs), ((n, m), rs')) \<Rightarrow>
    rs = rs' \<and> sched_abs con' = m \<and> sched_wf con'"
proof -
  have "sched_sim con (1, Map.empty)"
    using assms(1) sched_wf_create [OF assms(1)]
    by (auto simp: sched_sim_def sched_abs_def sched_context_create_def)
  from sched_run_sim [OF this assms(2)] assms(3) show ?thesis
    by (auto simp: case_prod_unfold sched_sim_def)
qed

theorem sched_refines_spec_witness:
  "\<exists>con. sched_context_create True = Some con \<and>
    (case (run_ops sched_exec con [Sched_add 500 ''a'' False (Tv 10 0), Sched_add 20 ''b'' True (Tv 10 5),
             Sched_del 1, Sched_del 1, Sched_when 2 (Tv 10 9)],
           run_ops spec_exec (1, Map.empty) [Sched_add 500 ''a'' False (Tv 10 0), Sched_add 20 ''b'' True (Tv 10 5),
             Sched_del 1, Sched_del 1, Sched_when 2 (Tv 10 9)]) of ((con', rs), ((n, m), rs')) \<Rightarrow>
       rs = rs' \<and> rs' = [1, 2, 0, -1, 0] \<and> sched_abs con' = m \<and> sched_wf con')"
proof -
  let ?es = "[Sched_add 500 ''a'' False (Tv 10 0), Sched_add 20 ''b'' True (Tv 10 5),
             Sched_del 1, Sched_del 1, Sched_when 2 (Tv 10 9)]"
  obtain con :: "string sched_context" where con: "sched_context_create True = Some con"
    by (simp add: sched_context_create_def)
  have "snd (run_ops spec_exec (1, Map.empty) ?es) = [1, 2, 0, -1, 0]"
    by (simp add: tv_us_def)
  with con sched_refines_spec [OF con, of ?es] show ?thesis
    by (auto simp: tv_ok_def ast_tvzero_def case_prod_unfold)
qed

text \<open>
  C15. Running the queue ends and leaves nothing due. As long as the clock does not pass \<open>T\<close>
  while the callbacks run, every event that asks to be run again is put off by at least a
  millisecond and the callbacks do not keep adding due events, \<open>ast_sched_runq\<close> returns, after
  at most \<open>runq_weight T con\<close> events, with a queue of which no event is due within the next
  millisecond.
\<close>

theorem ast_sched_runq_returns:
  assumes "sched_wf con" "periods_ok con" "callbacks_ok T call" "clock_ok T clock" "runq_weight T con < fuel"
  shows "\<exists>w' con' numevents. ast_sched_runq fuel clock call w con = Some (w', con', numevents) \<and>
    numevents \<le> runq_weight T con \<and> sched_wf con' \<and>
    (\<forall>s\<in>set (schedq con'). ast_tvadd (clock w') (ast_tv 0 1000) \<le> s_when s)"
  using runq_loop_returns [OF assms(3,4,1,2,5), of w 0] by (simp add: ast_sched_runq_def)

theorem ast_sched_runq_returns_witness:
  "\<exists>w' con' numevents. ast_sched_runq 300 (\<lambda>_ :: unit. Tv 10 0) (\<lambda>c w con. (if c then 1 else 0, w, con)) ()
      (fst (ast_sched_add True (fst (ast_sched_add_variable True
        \<lparr> eventcnt = 1, schedcnt = 0, schedq = [], schedc = [], schedccnt = 0 \<rparr> 20 True True (Tv 9 900000)))
        50 False (Tv 9 950000))) = Some (w', con', numevents) \<and> sched_wf con'"
proof -
  let ?con0 = "\<lparr> eventcnt = 1, schedcnt = 0, schedq = [], schedc = [], schedccnt = 0 \<rparr> :: bool sched_context"
  let ?con1 = "fst (ast_sched_add_variable True ?con0 20 True True (Tv 9 900000))"
  let ?con = "fst (ast_sched_add True ?con1 50 False (Tv 9 950000))"
  have "sched_wf ?con"
    unfolding ast_sched_add_def
    by (intro sched_wf_add) (simp_all add: sched_wf_def tv_ok_def)
  moreover have "periods_ok ?con" "runq_weight (Tv 10 0) ?con < 300"
    by code_simp+
  moreover have "callbacks_ok (Tv 10 0) (\<lambda>c (w :: unit) con. (if c then 1 else 0, w, con))"
    "clock_ok (Tv 10 0) (\<lambda>_ :: unit. Tv 10 0)"
    by (simp_all add: callbacks_ok_def clock_ok_def tv_ok_def tv_us_def)
  ultimately show ?thesis
    using ast_sched_runq_returns [of ?con "Tv 10 0" "\<lambda>c w con. (if c then 1 else 0, w, con)" "\<lambda>_. Tv 10 0" 300 "()"]
    by blast
qed

text \<open>
  Waiting and running agree: \<open>ast_sched_wait\<close> returns \<open>-1\<close> exactly when nothing is pending
  and \<open>0\<close> exactly when \<open>ast_sched_runq\<close> would run the first event at the same time of day, as
  long as that event is less than \<open>2 ^ 31\<close> milliseconds away. So a thread that sleeps for the
  time returned neither sleeps past an event nor wakes up for nothing.
\<close>

theorem ast_sched_wait_runq:
  assumes "sched_wf con" "tv_ok now" "\<forall>s\<in>set (schedq con). \<bar>tv_us (s_when s) - tv_us now\<bar> < 2 ^ 31 * 1000"
  shows "(ast_sched_wait con now = -1 \<longleftrightarrow> schedq con = []) \<and>
    (ast_sched_wait con now = 0 \<longleftrightarrow>
       (\<exists>s rest. schedq con = s # rest \<and> ast_tvcmp (s_when s) (ast_tvadd now (ast_tv 0 1000)) = -1))"
proof (cases "schedq con")
  case (Cons s rest)
  have ok: "tv_ok (s_when s)" "\<bar>tv_us (s_when s) - tv_us now\<bar> < 2 ^ 31 * 1000"
    using assms by (auto simp: sched_wf_def Cons)
  have t: "tv_ok (ast_tv 0 1000)" "tv_us (ast_tv 0 1000) = 1000"
    by (simp_all add: tv_ok_def ast_tv_def tv_us_def)
  have "ast_tvdiff_ms (s_when s) now = (tv_us (s_when s) - tv_us now) div 1000"
    using ok assms(2) by (intro ast_tvdiff_ms_eq) linarith+
  moreover have "s_when s < ast_tvadd now (ast_tv 0 1000) \<longleftrightarrow> tv_us (s_when s) < tv_us now + 1000"
    using ok(1) assms(2) t by (simp add: tv_us_less tv_us_tvadd)
  moreover have "(tv_us (s_when s) - tv_us now) div 1000 \<le> 0 \<longleftrightarrow> tv_us (s_when s) < tv_us now + 1000"
    by linarith
  ultimately show ?thesis
    by (auto simp: ast_sched_wait_def Cons ast_tvcmp_less Let_def)
qed (simp add: ast_sched_wait_def)

theorem ast_sched_wait_runq_witness:
  "ast_sched_wait (fst (ast_sched_add True \<lparr> eventcnt = 1, schedcnt = 0, schedq = [], schedc = [], schedccnt = 0 \<rparr>
      20 ''x'' (Tv 9 900000))) (Tv 9 919500) = 0"
proof -
  let ?con0 = "\<lparr> eventcnt = 1, schedcnt = 0, schedq = [], schedc = [], schedccnt = 0 \<rparr> :: string sched_context"
  let ?con = "fst (ast_sched_add True ?con0 20 ''x'' (Tv 9 900000))"
  have q: "schedq ?con = [\<lparr> s_id = 1, s_when = Tv 9 920000, s_resched = 20, s_variable = False, s_cb = ''x'' \<rparr>]"
    by code_simp
  have "sched_wf ?con"
    unfolding ast_sched_add_def by (intro sched_wf_add) (simp_all add: sched_wf_def tv_ok_def)
  from ast_sched_wait_runq [OF this, of "Tv 9 919500"] show ?thesis
    unfolding q by (simp add: tv_ok_def tv_us_def) code_simp
qed

text \<open>
  A negative delay is not "now" but about 49 days ahead, because \<open>ast_samp2tv\<close> takes an
  unsigned number, although \<open>sched_settime\<close> is written to replace times in the past by the
  current time. Worse, \<open>ast_sched_wait\<close> then returns 0, since the difference overflows an
  \<open>int\<close>, while \<open>ast_sched_runq\<close> has nothing to run: the thread spins.
\<close>

theorem negative_delay_spins:
  fixes con :: "'c sched_context" and now :: timeval
  assumes "- (2 ^ 31) \<le> when" "when < 0" "tv_ok now" "\<not> ast_tvzero now"
    and "con = fst (ast_sched_add True \<lparr> eventcnt = 1, schedcnt = 0, schedq = [], schedc = [], schedccnt = 0 \<rparr> when cb now)"
  shows "ast_sched_wait con now = 0 \<and> ast_sched_runq (Suc fuel) (\<lambda>_. now) call w con = Some (w, con, 0) \<and>
    tv_us (s_when (hd (schedq con))) = tv_us now + (2 ^ 32 + when) * 1000"
proof -
  define t where "t = ast_tvadd now (ast_samp2tv (word_of_int when) 1000)"
  have w: "uint (word_of_int when :: c_uint) = 2 ^ 32 + when"
    using assms(1,2) mod_pos_pos_trivial [of "2 ^ 32 + when" "2 ^ 32"] by (simp add: uint_word_of_int)
  have us: "tv_ok t" "tv_us t = tv_us now + (2 ^ 32 + when) * 1000"
    unfolding t_def using assms(3) by (simp_all add: tv_us_tvadd ast_samp2tv_ms w)
  have ms: "tv_ok (ast_tv 0 1000)" "tv_us (ast_tv 0 1000) = 1000"
    by (simp_all add: tv_ok_def ast_tv_def tv_us_def)
  have later: "\<not> t < now" "\<not> t < ast_tvadd now (ast_tv 0 1000)"
    using us assms(1-3) ms by (simp_all add: tv_us_less tv_us_tvadd)
  have q: "schedq con = [\<lparr> s_id = 1, s_when = t, s_resched = when, s_variable = False, s_cb = cb \<rparr>]"
    using assms(4,5) later(1)
    by (simp add: ast_sched_add_def ast_sched_add_variable_eq schedule_def sched_settime_def Let_def
        ast_tvzero_def ast_tv_def ast_tvcmp_less t_def [symmetric])
  have "(tv_us t - tv_us now) div 1000 = 2 ^ 32 + when"
    by (simp add: us(2))
  moreover have "signed_take_bit 31 (2 ^ 32 + when) = signed_take_bit 31 when"
    by (simp add: signed_take_bit_eq_iff_take_bit_eq take_bit_eq_mod)
  ultimately have "ast_tvdiff_ms t now = when"
    using assms(1,2) unfolding ast_tvdiff_ms_def tvdiff_core [OF us(1) assms(3)]
    by (simp add: signed_take_bit_31_id)
  then show ?thesis
    using assms(2) later us by (simp add: ast_sched_wait_def q ast_sched_runq_def ast_tvcmp_less)
qed

theorem negative_delay_spins_witness:
  "ast_sched_wait (fst (ast_sched_add True \<lparr> eventcnt = 1, schedcnt = 0, schedq = [], schedc = [], schedccnt = 0 \<rparr>
     (-1) ''x'' (Tv 10 0))) (Tv 10 0) = 0"
  using negative_delay_spins [of "-1" "Tv 10 0" _ "''x''" 0 "\<lambda>c w con. (0, w, con)" "()", OF _ _ _ _ refl] by (simp add: tv_ok_def ast_tvzero_def)

end
