(* ===== verification/Formats.thy ===== *)
theory Formats
  imports Prelude Clib
begin

text \<open>
  Media formats and codec preferences (\<open>include/asterisk/frame.h\<close>, \<open>main/frame.c\<close>, and the
  choice of a best codec of \<open>main/channel.c\<close>).

  \<^item> Sets of formats are bit masks in an \<open>int\<close>.
  \<^item> A preference list is a pair of arrays of 32 \<open>char\<close>s: \<open>order\<close> holds positions in
    \<open>AST_FORMAT_LIST\<close> counted from 1 and ends with 0, \<open>framing\<close> the packet sizes in milliseconds,
    reduced to a signed \<open>char\<close> when stored.
  \<^item> \<open>None\<close> stands for an access outside an array.
\<close>

section \<open>Formats\<close>

definition AST_FORMAT_G723_1 :: int where "AST_FORMAT_G723_1 = 0x1"
definition AST_FORMAT_GSM :: int where "AST_FORMAT_GSM = 0x2"
definition AST_FORMAT_ULAW :: int where "AST_FORMAT_ULAW = 0x4"
definition AST_FORMAT_ALAW :: int where "AST_FORMAT_ALAW = 0x8"
definition AST_FORMAT_G726_AAL2 :: int where "AST_FORMAT_G726_AAL2 = 0x10"
definition AST_FORMAT_ADPCM :: int where "AST_FORMAT_ADPCM = 0x20"
definition AST_FORMAT_SLINEAR :: int where "AST_FORMAT_SLINEAR = 0x40"
definition AST_FORMAT_LPC10 :: int where "AST_FORMAT_LPC10 = 0x80"
definition AST_FORMAT_G729A :: int where "AST_FORMAT_G729A = 0x100"
definition AST_FORMAT_SPEEX :: int where "AST_FORMAT_SPEEX = 0x200"
definition AST_FORMAT_ILBC :: int where "AST_FORMAT_ILBC = 0x400"
definition AST_FORMAT_G726 :: int where "AST_FORMAT_G726 = 0x800"
definition AST_FORMAT_G722 :: int where "AST_FORMAT_G722 = 0x1000"
definition AST_FORMAT_MAX_AUDIO :: int where "AST_FORMAT_MAX_AUDIO = 0x8000"
definition AST_FORMAT_AUDIO_MASK :: int where "AST_FORMAT_AUDIO_MASK = 0xFFFF"
definition AST_FORMAT_JPEG :: int where "AST_FORMAT_JPEG = 0x10000"
definition AST_FORMAT_PNG :: int where "AST_FORMAT_PNG = 0x20000"
definition AST_FORMAT_H261 :: int where "AST_FORMAT_H261 = 0x40000"
definition AST_FORMAT_H263 :: int where "AST_FORMAT_H263 = 0x80000"
definition AST_FORMAT_H263_PLUS :: int where "AST_FORMAT_H263_PLUS = 0x100000"
definition AST_FORMAT_H264 :: int where "AST_FORMAT_H264 = 0x200000"
definition AST_FORMAT_MAX_VIDEO :: int where "AST_FORMAT_MAX_VIDEO = 0x1000000"
definition AST_FORMAT_VIDEO_MASK :: int where "AST_FORMAT_VIDEO_MASK = 0x1FF0000"
definition AST_SMOOTHER_FLAG_G729 :: int where "AST_SMOOTHER_FLAG_G729 = 1"
definition AST_SMOOTHER_FLAG_BE :: int where "AST_SMOOTHER_FLAG_BE = 2"

lemmas format_consts = AST_FORMAT_G723_1_def AST_FORMAT_GSM_def AST_FORMAT_ULAW_def AST_FORMAT_ALAW_def
  AST_FORMAT_G726_AAL2_def AST_FORMAT_ADPCM_def AST_FORMAT_SLINEAR_def AST_FORMAT_LPC10_def
  AST_FORMAT_G729A_def AST_FORMAT_SPEEX_def AST_FORMAT_ILBC_def AST_FORMAT_G726_def AST_FORMAT_G722_def
  AST_FORMAT_MAX_AUDIO_def AST_FORMAT_AUDIO_MASK_def AST_FORMAT_JPEG_def AST_FORMAT_PNG_def
  AST_FORMAT_H261_def AST_FORMAT_H263_def AST_FORMAT_H263_PLUS_def AST_FORMAT_H264_def AST_FORMAT_MAX_VIDEO_def

record ast_format_list =
  fl_visible :: bool
  fl_bits :: int
  fl_name :: string
  fl_desc :: string
  fl_fr_len :: int
  fl_min_ms :: int
  fl_max_ms :: int
  fl_inc_ms :: int
  fl_def_ms :: int
  fl_flags :: int
  fl_cur_ms :: int

definition fmt_entry :: "bool \<Rightarrow> int \<Rightarrow> string \<Rightarrow> string \<Rightarrow> int \<Rightarrow> int \<Rightarrow> int \<Rightarrow> int \<Rightarrow> int \<Rightarrow> int \<Rightarrow> ast_format_list" where
  "fmt_entry visible bits name desc fr_len min_ms max_ms inc_ms def_ms flags =
     \<lparr> fl_visible = visible, fl_bits = bits, fl_name = name, fl_desc = desc, fl_fr_len = fr_len,
       fl_min_ms = min_ms, fl_max_ms = max_ms, fl_inc_ms = inc_ms, fl_def_ms = def_ms,
       fl_flags = flags, fl_cur_ms = 0 \<rparr>"

definition AST_FORMAT_LIST :: "ast_format_list list" where
  "AST_FORMAT_LIST =
    [fmt_entry True AST_FORMAT_G723_1 ''g723'' ''G.723.1'' 24 30 300 30 30 0,
     fmt_entry True AST_FORMAT_GSM ''gsm'' ''GSM'' 33 20 300 20 20 0,
     fmt_entry True AST_FORMAT_ULAW ''ulaw'' ''G.711 u-law'' 80 10 150 10 20 0,
     fmt_entry True AST_FORMAT_ALAW ''alaw'' ''G.711 A-law'' 80 10 150 10 20 0,
     fmt_entry True AST_FORMAT_G726 ''g726'' ''G.726 RFC3551'' 40 10 300 10 20 0,
     fmt_entry True AST_FORMAT_ADPCM ''adpcm'' ''ADPCM'' 40 10 300 10 20 0,
     fmt_entry True AST_FORMAT_SLINEAR ''slin'' ''16 bit Signed Linear PCM'' 160 10 70 10 20 AST_SMOOTHER_FLAG_BE,
     fmt_entry True AST_FORMAT_LPC10 ''lpc10'' ''LPC10'' 7 20 20 20 20 0,
     fmt_entry True AST_FORMAT_G729A ''g729'' ''G.729A'' 10 10 230 10 20 AST_SMOOTHER_FLAG_G729,
     fmt_entry True AST_FORMAT_SPEEX ''speex'' ''SpeeX'' 10 10 60 10 20 0,
     fmt_entry True AST_FORMAT_ILBC ''ilbc'' ''iLBC'' 50 30 30 30 30 0,
     fmt_entry True AST_FORMAT_G726_AAL2 ''g726aal2'' ''G.726 AAL2'' 40 10 300 10 20 0,
     fmt_entry True AST_FORMAT_G722 ''g722'' ''G722'' 0 0 0 0 0 0,
     fmt_entry False 0 ''nothing'' ''undefined'' 0 0 0 0 0 0,
     fmt_entry False 0 ''nothing'' ''undefined'' 0 0 0 0 0 0,
     fmt_entry False 0 ''nothing'' ''undefined'' 0 0 0 0 0 0,
     fmt_entry False 0 ''nothing'' ''undefined'' 0 0 0 0 0 0,
     fmt_entry False AST_FORMAT_MAX_AUDIO ''maxaudio'' ''Maximum audio format'' 0 0 0 0 0 0,
     fmt_entry True AST_FORMAT_JPEG ''jpeg'' ''JPEG image'' 0 0 0 0 0 0,
     fmt_entry True AST_FORMAT_PNG ''png'' ''PNG image'' 0 0 0 0 0 0,
     fmt_entry True AST_FORMAT_H261 ''h261'' ''H.261 Video'' 0 0 0 0 0 0,
     fmt_entry True AST_FORMAT_H263 ''h263'' ''H.263 Video'' 0 0 0 0 0 0,
     fmt_entry True AST_FORMAT_H263_PLUS ''h263p'' ''H.263+ Video'' 0 0 0 0 0 0,
     fmt_entry True AST_FORMAT_H264 ''h264'' ''H.264 Video'' 0 0 0 0 0 0,
     fmt_entry False 0 ''nothing'' ''undefined'' 0 0 0 0 0 0,
     fmt_entry False 0 ''nothing'' ''undefined'' 0 0 0 0 0 0,
     fmt_entry False 0 ''nothing'' ''undefined'' 0 0 0 0 0 0,
     fmt_entry False AST_FORMAT_MAX_VIDEO ''maxvideo'' ''Maximum video format'' 0 0 0 0 0 0]"

section \<open>Names\<close>

definition ast_get_format_list_index :: "int \<Rightarrow> ast_format_list option" where
  "ast_get_format_list_index index =
     (if 0 \<le> index \<and> nat index < length AST_FORMAT_LIST then Some (AST_FORMAT_LIST ! nat index) else None)"

definition ast_getformatname :: "int \<Rightarrow> string" where
  "ast_getformatname format =
     (case find (\<lambda>e. fl_visible e \<and> fl_bits e = format) AST_FORMAT_LIST of
        None \<Rightarrow> ''unknown'' | Some e \<Rightarrow> fl_name e)"

definition ast_codec2str :: "int \<Rightarrow> string" where
  "ast_codec2str codec =
     (case find (\<lambda>e. fl_visible e \<and> fl_bits e = codec) AST_FORMAT_LIST of
        None \<Rightarrow> ''unknown'' | Some e \<Rightarrow> fl_desc e)"

definition ast_expand_codec_alias :: "string \<Rightarrow> string" where
  "ast_expand_codec_alias s =
     (if s = ''slinear'' then ''slin'' else if s = ''g723.1'' then ''g723'' else s)"

text \<open>The loop of \<open>ast_getformatbyname\<close>.\<close>

fun format_by_name :: "bool \<Rightarrow> string \<Rightarrow> ast_format_list list \<Rightarrow> int \<Rightarrow> int" where
  "format_by_name all name [] format = format"
| "format_by_name all name (e # es) format =
     (if fl_visible e \<and> (all \<or> strcaseeq (fl_name e) name \<or> strcaseeq (fl_name e) (ast_expand_codec_alias name))
      then if all then format_by_name all name es (format OR fl_bits e) else format OR fl_bits e
      else format_by_name all name es format)"

definition ast_getformatbyname :: "string \<Rightarrow> int" where
  "ast_getformatbyname name = format_by_name (strcaseeq name ''all'') name AST_FORMAT_LIST 0"

definition ast_codec_interp_len :: "int \<Rightarrow> int" where
  "ast_codec_interp_len format = (if format = AST_FORMAT_ILBC then 30 else 20)"

definition ast_format_rate :: "int \<Rightarrow> int" where
  "ast_format_rate format = (if format = AST_FORMAT_G722 then 16000 else 8000)"

section \<open>Preference lists\<close>

record ast_codec_pref =
  pref_order :: "int list"
  pref_framing :: "int list"

definition pref_zero :: ast_codec_pref where
  "pref_zero = \<lparr> pref_order = replicate 32 0, pref_framing = replicate 32 0 \<rparr>"

definition slot_bits :: "int \<Rightarrow> int option" where
  "slot_bits slot = map_option fl_bits (ast_get_format_list_index (slot - 1))"

definition ast_codec_pref_index :: "ast_codec_pref \<Rightarrow> int \<Rightarrow> int option" where
  "ast_codec_pref_index pref index =
     (let slot = (if 0 \<le> index \<and> index < 32 then pref_order pref ! nat index else 0)
      in if slot \<noteq> 0 then slot_bits slot else Some 0)"

text \<open>The loop of \<open>ast_codec_pref_remove\<close>: the entries kept, over the first 28 of both arrays.\<close>

fun pref_keep :: "int \<Rightarrow> (int \<times> int) list \<Rightarrow> (int \<times> int) list option" where
  "pref_keep format [] = Some []"
| "pref_keep format ((slot, ms) # rest) =
     (if slot = 0 then Some []
      else do {
        bits \<leftarrow> slot_bits slot;
        kept \<leftarrow> pref_keep format rest;
        Some (if bits \<noteq> format then (slot, ms) # kept else kept)
      })"

definition pref_of :: "(int \<times> int) list \<Rightarrow> ast_codec_pref" where
  "pref_of es =
     \<lparr> pref_order = map fst es @ replicate (32 - length es) 0,
       pref_framing = map snd es @ replicate (32 - length es) 0 \<rparr>"

definition ast_codec_pref_remove :: "ast_codec_pref \<Rightarrow> int \<Rightarrow> ast_codec_pref option" where
  "ast_codec_pref_remove pref format =
     (if pref_order pref ! 0 = 0 then Some pref
      else map_option pref_of
        (pref_keep format (take (length AST_FORMAT_LIST) (zip (pref_order pref) (pref_framing pref)))))"

text \<open>The first position of a format in \<open>AST_FORMAT_LIST\<close>.\<close>

fun find_pos :: "('a \<Rightarrow> bool) \<Rightarrow> 'a list \<Rightarrow> nat option" where
  "find_pos P [] = None"
| "find_pos P (x # xs) = (if P x then Some 0 else map_option Suc (find_pos P xs))"

definition format_pos :: "int \<Rightarrow> nat option" where
  "format_pos format = find_pos (\<lambda>e. fl_bits e = format) AST_FORMAT_LIST"

definition ast_codec_pref_append :: "ast_codec_pref \<Rightarrow> int \<Rightarrow> (ast_codec_pref \<times> int) option" where
  "ast_codec_pref_append pref format =
     do {
       pref \<leftarrow> ast_codec_pref_remove pref format;
       case format_pos format of
         None \<Rightarrow> Some (pref, int (length AST_FORMAT_LIST))
       | Some x \<Rightarrow>
           (case find_pos (\<lambda>slot. slot = 0) (take (length AST_FORMAT_LIST) (pref_order pref)) of
              None \<Rightarrow> Some (pref, int (length AST_FORMAT_LIST))
            | Some y \<Rightarrow> Some (pref\<lparr> pref_order := (pref_order pref)[y := int x + 1] \<rparr>, int y))
     }"

text \<open>Moving the first \<open>x\<close> entries down by one.\<close>

definition shift_down :: "nat \<Rightarrow> int list \<Rightarrow> int list" where
  "shift_down x xs = foldl (\<lambda>a i. a[i := a ! (i - 1)]) xs (rev [1..<Suc x])"

definition ast_codec_pref_prepend :: "ast_codec_pref \<Rightarrow> int \<Rightarrow> bool \<Rightarrow> ast_codec_pref option" where
  "ast_codec_pref_prepend pref format only_if_existing =
     (case format_pos format of
        None \<Rightarrow> Some pref
      | Some i \<Rightarrow>
          let newindex = int i + 1 in
          case find_pos (\<lambda>slot. slot = 0 \<or> slot = newindex) (pref_order pref) of
            None \<Rightarrow> None
          | Some x \<Rightarrow>
              if only_if_existing \<and> pref_order pref ! x = 0 then Some pref
              else Some (pref\<lparr> pref_order := (shift_down x (pref_order pref))[0 := newindex],
                                pref_framing := (shift_down x (pref_framing pref))[0 := 0] \<rparr>))"

text \<open>The validation of a packet size against the limits of the format.\<close>

definition validate_ms :: "ast_format_list \<Rightarrow> int \<Rightarrow> int" where
  "validate_ms e framems =
     (let framems = (if framems = 0 then fl_def_ms e else framems);
          framems = (if fl_inc_ms e \<noteq> 0 \<and> framems smod fl_inc_ms e \<noteq> 0
                     then framems - framems smod fl_inc_ms e else framems);
          framems = (if framems < fl_min_ms e then fl_min_ms e else framems)
      in if framems > fl_max_ms e then fl_max_ms e else framems)"

definition ast_codec_pref_setsize :: "ast_codec_pref \<Rightarrow> int \<Rightarrow> int \<Rightarrow> ast_codec_pref \<times> int" where
  "ast_codec_pref_setsize pref format framems =
     (case format_pos format of
        None \<Rightarrow> (pref, -1)
      | Some index \<Rightarrow>
          let framems = validate_ms (AST_FORMAT_LIST ! index) framems in
          case find_pos (\<lambda>slot. slot = int index + 1) (take (length AST_FORMAT_LIST) (pref_order pref)) of
            None \<Rightarrow> (pref, int (length AST_FORMAT_LIST))
          | Some x \<Rightarrow>
              (pref\<lparr> pref_framing := (pref_framing pref)[x := signed_take_bit 7 framems] \<rparr>, int x))"

definition ast_codec_pref_getsize :: "ast_codec_pref \<Rightarrow> int \<Rightarrow> ast_format_list option" where
  "ast_codec_pref_getsize pref format =
     (case format_pos format of
        None \<Rightarrow> None
      | Some index \<Rightarrow>
          let e = AST_FORMAT_LIST ! index;
              framems =
                (case find_pos (\<lambda>slot. slot = int index + 1) (take (length AST_FORMAT_LIST) (pref_order pref)) of
                   None \<Rightarrow> 0
                 | Some x \<Rightarrow> pref_framing pref ! x)
          in Some (e\<lparr> fl_cur_ms := validate_ms e framems \<rparr>))"

section \<open>Choosing a codec\<close>

definition best_codec_prefs :: "int list" where
  "best_codec_prefs =
     [AST_FORMAT_ULAW, AST_FORMAT_ALAW, AST_FORMAT_G722, AST_FORMAT_SLINEAR, AST_FORMAT_G726,
      AST_FORMAT_G726_AAL2, AST_FORMAT_ADPCM, AST_FORMAT_GSM, AST_FORMAT_ILBC, AST_FORMAT_SPEEX,
      AST_FORMAT_LPC10, AST_FORMAT_G729A, AST_FORMAT_G723_1]"

definition ast_best_codec :: "int \<Rightarrow> int" where
  "ast_best_codec fmts =
     (let fmts = fmts AND AST_FORMAT_AUDIO_MASK
      in case find (\<lambda>p. fmts AND p \<noteq> 0) best_codec_prefs of None \<Rightarrow> 0 | Some p \<Rightarrow> p)"

fun choose_slot :: "int \<Rightarrow> int list \<Rightarrow> int option" where
  "choose_slot formats [] = Some 0"
| "choose_slot formats (slot # rest) =
     (if slot = 0 then Some 0
      else do {
        bits \<leftarrow> slot_bits slot;
        if formats AND bits \<noteq> 0 then Some bits else choose_slot formats rest
      })"

definition ast_codec_choose :: "ast_codec_pref \<Rightarrow> int \<Rightarrow> bool \<Rightarrow> int option" where
  "ast_codec_choose pref formats find_best =
     do {
       ret \<leftarrow> choose_slot formats (take (length AST_FORMAT_LIST) (pref_order pref));
       Some (if ret AND AST_FORMAT_AUDIO_MASK \<noteq> 0 then ret
             else if find_best then ast_best_codec formats else 0)
     }"

section \<open>Parsing allow and disallow lines\<close>

text \<open>\<open>strsep\<close> with a single delimiter: the tokens, empty ones included.\<close>

fun strsep_tokens :: "char \<Rightarrow> string \<Rightarrow> string \<Rightarrow> string list" where
  "strsep_tokens d [] tok = [rev tok]"
| "strsep_tokens d (c # cs) tok =
     (if c = d then rev tok # strsep_tokens d cs [] else strsep_tokens d cs (c # tok))"

text \<open>\<open>strrchr\<close>: the text before and after the last occurrence.\<close>

fun strrchr_split :: "char \<Rightarrow> string \<Rightarrow> (string \<times> string) option" where
  "strrchr_split d [] = None"
| "strrchr_split d (c # cs) =
     (case strrchr_split d cs of
        Some (a, b) \<Rightarrow> Some (c # a, b)
      | None \<Rightarrow> if c = d then Some ([], cs) else None)"

definition parse_allow_named ::
    "ast_codec_pref option \<times> int option \<Rightarrow> bool \<Rightarrow> string \<Rightarrow> int \<Rightarrow> (ast_codec_pref option \<times> int option) option" where
  "parse_allow_named st allowing this framems =
     (case st of (pref, msk) \<Rightarrow>
      let format = ast_getformatbyname this in
      if format = 0 then Some (pref, msk)
      else
        let msk = map_option (\<lambda>m. if allowing then m OR format else m AND NOT format) msk
        in case pref of
             None \<Rightarrow> Some (pref, msk)
           | Some p \<Rightarrow>
               if format AND AST_FORMAT_AUDIO_MASK = 0 then Some (pref, msk)
               else if \<not> strcaseeq this ''all'' then
                 if allowing then
                   map_option (\<lambda>(p, r). (Some (fst (ast_codec_pref_setsize p format framems)), msk))
                     (ast_codec_pref_append p format)
                 else map_option (\<lambda>p. (Some p, msk)) (ast_codec_pref_remove p format)
               else if \<not> allowing then Some (Some pref_zero, msk)
               else Some (pref, msk))"

definition parse_allow_token ::
    "ast_codec_pref option \<times> int option \<Rightarrow> bool \<Rightarrow> string \<Rightarrow> (ast_codec_pref option \<times> int option) option" where
  "parse_allow_token st allowing tok =
     (case strrchr_split (CHR '':'') tok of
        None \<Rightarrow> parse_allow_named st allowing tok 0
      | Some (this, psize) \<Rightarrow> parse_allow_named st allowing this (if atoi psize < 0 then 0 else atoi psize))"

fun parse_allow_tokens ::
    "ast_codec_pref option \<times> int option \<Rightarrow> bool \<Rightarrow> string list \<Rightarrow> (ast_codec_pref option \<times> int option) option" where
  "parse_allow_tokens st allowing [] = Some st"
| "parse_allow_tokens st allowing (tok # toks) =
     do { st \<leftarrow> parse_allow_token st allowing tok; parse_allow_tokens st allowing toks }"

definition ast_parse_allow_disallow ::
    "ast_codec_pref option \<Rightarrow> int option \<Rightarrow> string \<Rightarrow> bool \<Rightarrow> (ast_codec_pref option \<times> int option) option" where
  "ast_parse_allow_disallow pref msk lst allowing =
     parse_allow_tokens (pref, msk) allowing (strsep_tokens (CHR '','') lst [])"

section \<open>Sample counts\<close>

definition g723_len :: "byte \<Rightarrow> int" where
  "g723_len b =
     (let t = b AND 0x3 in if t = 3 then 0 else if t = 2 then 4 else if t = 0 then 24 else 20)"

text \<open>\<open>g723_samples\<close>: \<open>buf\<close> holds at least \<open>maxlen\<close> octets.\<close>

function g723_samples :: "byte list \<Rightarrow> nat \<Rightarrow> nat \<Rightarrow> int \<Rightarrow> int" where
  "g723_samples buf maxlen pos samples =
     (if pos < maxlen then
        let res = g723_len (buf ! pos) in
        if res \<le> 0 then samples else g723_samples buf maxlen (pos + nat res) (samples + 240)
      else samples)"
  by pat_completeness auto
termination
  by (relation "measure (\<lambda>(_, maxlen, pos, _). maxlen - pos)") auto

declare g723_samples.simps [simp del]

definition ast_codec_get_len :: "int \<Rightarrow> int \<Rightarrow> int" where
  "ast_codec_get_len format samples =
     (if format = AST_FORMAT_ILBC then (samples sdiv 240) * 50
      else if format = AST_FORMAT_GSM then (samples sdiv 160) * 33
      else if format = AST_FORMAT_G729A then samples sdiv 8
      else if format = AST_FORMAT_SLINEAR then samples * 2
      else if format = AST_FORMAT_ULAW \<or> format = AST_FORMAT_ALAW then samples
      else if format = AST_FORMAT_G722 \<or> format = AST_FORMAT_ADPCM \<or> format = AST_FORMAT_G726
           \<or> format = AST_FORMAT_G726_AAL2 then samples sdiv 2
      else 0)"

section \<open>Preference lists as lists of formats\<close>

lemma length_FORMAT_LIST [simp]: "length AST_FORMAT_LIST = 28"
  by (simp add: AST_FORMAT_LIST_def)

lemma find_pos_some:
  "find_pos P xs = Some i \<longleftrightarrow> i < length xs \<and> P (xs ! i) \<and> (\<forall>j<i. \<not> P (xs ! j))"
proof (induction xs arbitrary: i)
  case (Cons x xs)
  show ?case
  proof (cases i)
    case 0
    then show ?thesis by auto
  next
    case (Suc k)
    have "(\<forall>j<Suc k. \<not> P ((x # xs) ! j)) \<longleftrightarrow> \<not> P x \<and> (\<forall>j<k. \<not> P (xs ! j))"
      by (metis Suc_less_eq bot_nat_0.not_eq_extremum less_Suc_eq_0_disj nth_Cons_0 nth_Cons_Suc zero_less_Suc)
    with Suc Cons show ?thesis by auto
  qed
qed simp

lemma find_pos_none: "find_pos P xs = None \<longleftrightarrow> (\<forall>x\<in>set xs. \<not> P x)"
  by (induction xs) auto

lemma find_pos_append:
  "\<forall>x\<in>set xs. \<not> P x \<Longrightarrow> P y \<Longrightarrow> find_pos P (xs @ y # ys) = Some (length xs)"
  by (induction xs) auto

definition known :: "int \<Rightarrow> bool" where
  "known f \<longleftrightarrow> format_pos f \<noteq> None"

definition fmt_slot :: "int \<Rightarrow> int" where
  "fmt_slot f = int (the (format_pos f)) + 1"

lemma format_pos_bits: "format_pos f = Some i \<Longrightarrow> i < 28 \<and> fl_bits (AST_FORMAT_LIST ! i) = f"
  by (simp add: format_pos_def find_pos_some)

lemma fmt_slot_range: "known f \<Longrightarrow> 1 \<le> fmt_slot f \<and> fmt_slot f \<le> 28"
  using format_pos_bits [of f] by (fastforce simp: known_def fmt_slot_def)

lemma slot_bits_fmt [simp]: "known f \<Longrightarrow> slot_bits (fmt_slot f) = Some f"
  using format_pos_bits [of f]
  by (fastforce simp: known_def fmt_slot_def slot_bits_def ast_get_format_list_index_def)

lemma fmt_slot_inj: "known f \<Longrightarrow> known g \<Longrightarrow> fmt_slot f = fmt_slot g \<longleftrightarrow> f = g"
  by (metis option.inject slot_bits_fmt)

text \<open>
  The abstract preference list: formats with their packet sizes, most preferred first, each at
  most once. \<open>pref_rep\<close> is its representation.
\<close>

type_synonym pref_list = "(int \<times> int) list"

definition pref_list_ok :: "pref_list \<Rightarrow> bool" where
  "pref_list_ok fs \<longleftrightarrow> distinct (map fst fs) \<and> (\<forall>f\<in>set (map fst fs). known f)"

definition pref_rep :: "pref_list \<Rightarrow> ast_codec_pref" where
  "pref_rep fs = pref_of (map (\<lambda>(f, ms). (fmt_slot f, ms)) fs)"

lemma pref_list_length:
  assumes "pref_list_ok fs"
  shows "length fs \<le> 28" and "known f \<Longrightarrow> f \<notin> set (map fst fs) \<Longrightarrow> length fs < 28"
proof -
  let ?S = "fmt_slot ` set (map fst fs)"
  have inj: "inj_on fmt_slot (set (map fst fs))"
    using assms by (auto simp: inj_on_def pref_list_ok_def fmt_slot_inj)
  have card: "card ?S = length fs"
    using assms by (simp add: card_image [OF inj] distinct_card pref_list_ok_def del: set_map)
  have sub: "?S \<subseteq> {1..28}"
    using assms fmt_slot_range by (force simp: pref_list_ok_def)
  from card_mono [OF _ sub] card show "length fs \<le> 28" by simp
  assume f: "known f" "f \<notin> set (map fst fs)"
  have "fmt_slot f \<notin> ?S"
    using f assms by (metis (no_types, lifting) fmt_slot_inj imageE pref_list_ok_def)
  then have "?S \<subset> {1..28}"
    using sub fmt_slot_range [OF f(1)] by auto
  from psubset_card_mono [OF _ this] card show "length fs < 28" by simp
qed

lemma pref_rep_order:
  "pref_list_ok fs \<Longrightarrow> pref_order (pref_rep fs) = map (\<lambda>(f, ms). fmt_slot f) fs @ replicate (32 - length fs) 0"
  "pref_list_ok fs \<Longrightarrow> pref_framing (pref_rep fs) = map snd fs @ replicate (32 - length fs) 0"
  by (simp_all add: pref_rep_def pref_of_def o_def case_prod_beta)

lemma fmt_slot_nonzero: "known f \<Longrightarrow> fmt_slot f \<noteq> 0"
  using fmt_slot_range by fastforce

lemma pref_keep_rep:
  assumes "\<forall>f\<in>set (map fst fs). known f"
  shows "pref_keep format (map (\<lambda>(f, ms). (fmt_slot f, ms)) fs @ replicate n (0, 0)) =
    Some (map (\<lambda>(f, ms). (fmt_slot f, ms)) (filter (\<lambda>(f, ms). f \<noteq> format) fs))"
  using assms
proof (induction fs)
  case Nil
  then show ?case by (cases n) auto
qed (auto simp: fmt_slot_nonzero)

text \<open>The specification of the operations.\<close>

definition spec_remove :: "pref_list \<Rightarrow> int \<Rightarrow> pref_list" where
  "spec_remove fs format = filter (\<lambda>(f, ms). f \<noteq> format) fs"

definition spec_append :: "pref_list \<Rightarrow> int \<Rightarrow> pref_list" where
  "spec_append fs format = spec_remove fs format @ (if known format then [(format, 0)] else [])"

definition spec_prepend :: "pref_list \<Rightarrow> int \<Rightarrow> bool \<Rightarrow> pref_list" where
  "spec_prepend fs format only_if_existing =
     (if known format \<and> (only_if_existing \<longrightarrow> format \<in> set (map fst fs))
      then (format, 0) # spec_remove fs format else fs)"

definition spec_setsize :: "pref_list \<Rightarrow> int \<Rightarrow> int \<Rightarrow> pref_list" where
  "spec_setsize fs format framems =
     map (\<lambda>(f, ms). if f = format
            then (f, signed_take_bit 7 (validate_ms (AST_FORMAT_LIST ! the (format_pos format)) framems)) else (f, ms)) fs"

lemma map_fst_spec_remove: "map fst (spec_remove fs f) = filter (\<lambda>g. g \<noteq> f) (map fst fs)"
  by (induction fs) (auto simp: spec_remove_def)

lemma spec_remove_id: "f \<notin> set (map fst fs) \<Longrightarrow> spec_remove fs f = fs"
  by (induction fs) (auto simp: spec_remove_def)

lemma spec_remove_append: "spec_remove (fs @ (f, ms) # gs) f = spec_remove fs f @ spec_remove gs f"
  by (simp add: spec_remove_def)

lemma spec_ok:
  assumes "pref_list_ok fs"
  shows "pref_list_ok (spec_remove fs f)" "pref_list_ok (spec_append fs f)"
    "pref_list_ok (spec_prepend fs f e)" "pref_list_ok (spec_setsize fs f ms)"
proof -
  have "map fst (spec_setsize fs f ms) = map fst fs"
    by (auto simp: spec_setsize_def)
  then show "pref_list_ok (spec_setsize fs f ms)"
    using assms by (simp add: pref_list_ok_def)
qed (use assms in \<open>auto simp: pref_list_ok_def spec_append_def spec_prepend_def map_fst_spec_remove simp del: set_map\<close>)

lemma remove_refines:
  assumes "pref_list_ok fs"
  shows "ast_codec_pref_remove (pref_rep fs) format = Some (pref_rep (spec_remove fs format))"
proof (cases fs)
  case Nil
  then show ?thesis
    by (simp add: ast_codec_pref_remove_def pref_rep_def pref_of_def spec_remove_def)
next
  case (Cons e es)
  have "pref_order (pref_rep fs) ! 0 \<noteq> 0"
    using assms Cons by (cases e) (auto simp: pref_rep_order pref_list_ok_def fmt_slot_nonzero)
  moreover have "take 28 (zip (pref_order (pref_rep fs)) (pref_framing (pref_rep fs))) =
      map (\<lambda>(f, ms). (fmt_slot f, ms)) fs @ replicate (28 - length fs) (0, 0)"
    using pref_list_length(1) [OF assms]
    by (simp add: pref_rep_order assms zip_append zip_map1 zip_map2 zip_same_conv_map o_def case_prod_beta
        zip_replicate min_def)
  ultimately show ?thesis
    using pref_keep_rep [of fs format] assms
    by (simp add: ast_codec_pref_remove_def pref_list_ok_def pref_rep_def spec_remove_def del: set_map)
qed

lemma append_refines:
  assumes ok: "pref_list_ok fs"
  shows "\<exists>x. ast_codec_pref_append (pref_rep fs) format = Some (pref_rep (spec_append fs format), x)"
proof (cases "format_pos format")
  case None
  then show ?thesis
    using remove_refines [OF ok, of format]
    by (simp add: ast_codec_pref_append_def spec_append_def known_def)
next
  case (Some i)
  let ?fs = "spec_remove fs format"
  have k: "known format" and slot: "int i + 1 = fmt_slot format"
    using Some by (simp_all add: known_def fmt_slot_def)
  have ok': "pref_list_ok ?fs" using spec_ok(1) [OF ok] .
  have "format \<notin> set (map fst ?fs)" by (simp add: map_fst_spec_remove del: set_map)
  then have len: "length ?fs < 28" using pref_list_length(2) [OF ok' k] by blast
  have z: "replicate (32 - length ?fs) (0::int) = 0 # replicate (31 - length ?fs) 0"
    "replicate (28 - length ?fs) (0::int) = 0 # replicate (27 - length ?fs) 0"
    using len by (simp_all flip: replicate_Suc add: Suc_diff_le)
  have "\<forall>x\<in>set (map (\<lambda>(f, ms). fmt_slot f) ?fs). x \<noteq> 0"
    using ok' by (auto simp: pref_list_ok_def fmt_slot_nonzero)
  then have "find_pos (\<lambda>slot. slot = 0) (take 28 (pref_order (pref_rep ?fs))) = Some (length ?fs)"
    using len find_pos_append [of "map (\<lambda>(f, ms). fmt_slot f) ?fs" "\<lambda>slot. slot = 0" 0]
    by (simp add: pref_rep_order [OF ok'] z(2) min.absorb1 min.absorb2 diff_le_mono)
  moreover have "(pref_rep ?fs)\<lparr> pref_order := (pref_order (pref_rep ?fs))[length ?fs := fmt_slot format] \<rparr> =
      pref_rep (?fs @ [(format, 0)])"
    using len by (simp add: pref_rep_def pref_of_def z(1) list_update_append)
  ultimately show ?thesis
    using remove_refines [OF ok, of format] Some k
    by (simp add: ast_codec_pref_append_def spec_append_def slot)
qed

lemma shift_down_eq: "x < length xs \<Longrightarrow> (shift_down x xs)[0 := v] = v # take x xs @ drop (Suc x) xs"
proof (induction x arbitrary: xs)
  case 0
  then show ?case by (cases xs) (simp_all add: shift_down_def)
next
  case (Suc x)
  have "shift_down (Suc x) xs = shift_down x (xs[Suc x := xs ! x])"
    by (simp add: shift_down_def)
  moreover have "take x (xs[Suc x := xs ! x]) @ drop (Suc x) (xs[Suc x := xs ! x]) = take (Suc x) xs @ drop (Suc (Suc x)) xs"
    using Suc.prems
    by (simp add: take_Suc_conv_app_nth drop_update_swap Cons_nth_drop_Suc [symmetric])
  ultimately show ?case
    using Suc.IH [of "xs[Suc x := xs ! x]"] Suc.prems by simp
qed

lemma prepend_refines:
  assumes ok: "pref_list_ok fs"
  shows "ast_codec_pref_prepend (pref_rep fs) format e = Some (pref_rep (spec_prepend fs format e))"
proof (cases "format_pos format")
  case None
  then show ?thesis by (simp add: ast_codec_pref_prepend_def spec_prepend_def known_def)
next
  case (Some i)
  have k: "known format" and slot: "int i + 1 = fmt_slot format"
    using Some by (simp_all add: known_def fmt_slot_def)
  have kn: "\<forall>f\<in>set (map fst fs). known f" and d: "distinct (map fst fs)"
    using ok by (auto simp: pref_list_ok_def)
  have len: "length fs \<le> 28" using pref_list_length(1) [OF ok] .
  let ?P = "\<lambda>slot. slot = 0 \<or> slot = fmt_slot format"
  show ?thesis
  proof (cases "format \<in> set (map fst fs)")
    case True
    then obtain ys ms zs where fs: "fs = ys @ (format, ms) # zs" "format \<notin> set (map fst ys)" "format \<notin> set (map fst zs)"
      using d by (force simp: in_set_conv_decomp)
    have "\<forall>x\<in>set (map (\<lambda>(f, ms). fmt_slot f) ys). \<not> ?P x"
      using kn k fs(2) by (force simp: fs(1) fmt_slot_nonzero fmt_slot_inj)
    then have pos: "find_pos ?P (pref_order (pref_rep fs)) = Some (length ys)"
      using find_pos_append [of _ ?P "fmt_slot format"] by (simp add: pref_rep_order [OF ok]) (simp add: fs(1))
    have rm: "spec_remove fs format = ys @ zs"
      using fs(2,3) by (simp add: fs(1) spec_remove_append spec_remove_id del: set_map)
    have nz: "pref_order (pref_rep fs) ! length ys \<noteq> 0"
      unfolding pref_rep_order [OF ok] using k by (simp add: fs(1) nth_append fmt_slot_nonzero)
    have "pref_rep (spec_prepend fs format e) =
       (pref_rep fs)\<lparr> pref_order := (shift_down (length ys) (pref_order (pref_rep fs)))[0 := fmt_slot format],
          pref_framing := (shift_down (length ys) (pref_framing (pref_rep fs)))[0 := 0] \<rparr>"
      using k True len by (simp add: pref_rep_def pref_of_def spec_prepend_def rm) (simp add: fs(1) shift_down_eq)
    then show ?thesis
      by (simp add: ast_codec_pref_prepend_def Some slot pos nz)
  next
    case False
    have "\<forall>x\<in>set (map (\<lambda>(f, ms). fmt_slot f) fs). \<not> ?P x"
      using kn k False by (force simp: fmt_slot_nonzero fmt_slot_inj)
    moreover have z: "replicate (32 - length fs) (0::int) = 0 # replicate (31 - length fs) 0"
      using len by (simp flip: replicate_Suc add: Suc_diff_le)
    ultimately have pos: "find_pos ?P (pref_order (pref_rep fs)) = Some (length fs)"
      using find_pos_append [of "map (\<lambda>(f, ms). fmt_slot f) fs" ?P 0] by (simp add: pref_rep_order [OF ok])
    have zero: "pref_order (pref_rep fs) ! length fs = 0"
      by (simp add: pref_rep_order [OF ok] nth_append z)
    have rm: "spec_remove fs format = fs"
      using False by (rule spec_remove_id)
    have "pref_rep ((format, 0) # fs) =
       (pref_rep fs)\<lparr> pref_order := (shift_down (length fs) (pref_order (pref_rep fs)))[0 := fmt_slot format],
          pref_framing := (shift_down (length fs) (pref_framing (pref_rep fs)))[0 := 0] \<rparr>"
      using len by (simp add: shift_down_eq pref_rep_def pref_of_def z)
    then show ?thesis
      using False k by (simp add: ast_codec_pref_prepend_def Some slot pos zero spec_prepend_def rm del: set_map)
  qed
qed

text \<open>The position of a listed format in the array of slots.\<close>

lemma find_pos_slot:
  assumes ok: "pref_list_ok fs" and k: "known format"
  shows "find_pos (\<lambda>slot. slot = fmt_slot format) (take 28 (pref_order (pref_rep fs))) =
    find_pos (\<lambda>f. f = format) (map fst fs)"
proof -
  have kn: "\<forall>f\<in>set (map fst fs). known f" using ok by (simp add: pref_list_ok_def)
  have len: "length fs \<le> 28" using pref_list_length(1) [OF ok] .
  have "find_pos (\<lambda>slot. slot = fmt_slot format) (map (\<lambda>(f, ms). fmt_slot f) gs @ replicate n 0) =
      find_pos (\<lambda>f. f = format) (map fst gs)" if "\<forall>f\<in>set (map fst gs). known f" for gs :: pref_list and n
    using that
  proof (induction gs)
    case Nil
    have "fmt_slot format \<noteq> 0" using k by (rule fmt_slot_nonzero)
    then show ?case by (induction n) auto
  qed (auto simp: fmt_slot_inj k)
  from this [OF kn, of "28 - length fs"] show ?thesis
    using len by (simp add: pref_rep_order [OF ok] min.absorb1 min.absorb2 diff_le_mono)
qed

lemma setsize_refines:
  assumes ok: "pref_list_ok fs"
  shows "fst (ast_codec_pref_setsize (pref_rep fs) format framems) = pref_rep (spec_setsize fs format framems)"
proof (cases "format_pos format")
  case None
  then have "format \<notin> set (map fst fs)"
    using ok by (auto simp: pref_list_ok_def known_def)
  then have "spec_setsize fs format framems = fs"
    by (force simp: spec_setsize_def intro: map_idI)
  with None show ?thesis by (simp add: ast_codec_pref_setsize_def)
next
  case (Some i)
  have k: "known format" and slot: "int i + 1 = fmt_slot format"
    using Some by (simp_all add: known_def fmt_slot_def)
  note pos = find_pos_slot [OF ok k]
  show ?thesis
  proof (cases "find_pos (\<lambda>f. f = format) (map fst fs)")
    case None
    then have "spec_setsize fs format framems = fs"
      by (force simp: spec_setsize_def find_pos_none intro: map_idI)
    with None show ?thesis by (simp add: ast_codec_pref_setsize_def Some slot pos)
  next
    case (Some x)
    let ?v = "signed_take_bit 7 (validate_ms (AST_FORMAT_LIST ! i) framems)"
    have x: "x < length fs" "fst (fs ! x) = format"
      using Some by (auto simp: find_pos_some)
    have d: "distinct (map fst fs)" using ok by (simp add: pref_list_ok_def)
    have upd: "spec_setsize fs format framems = fs[x := (format, ?v)]"
    proof (rule nth_equalityI)
      fix j assume "j < length (spec_setsize fs format framems)"
      then have j: "j < length fs" by (simp add: spec_setsize_def)
      have "fst (fs ! j) = format \<longleftrightarrow> j = x"
        using d x j by (auto simp: distinct_conv_nth)
      with j x show "spec_setsize fs format framems ! j = fs[x := (format, ?v)] ! j"
        using \<open>format_pos format = Some i\<close> by (cases "fs ! j") (auto simp: spec_setsize_def nth_list_update)
    qed (simp add: spec_setsize_def)
    have "map (\<lambda>(f, ms). (fmt_slot f, ms)) (fs[x := (format, ?v)]) = (map (\<lambda>(f, ms). (fmt_slot f, ms)) fs)[x := (fmt_slot format, ?v)]"
      by (simp add: map_update)
    moreover have "map fst (map (\<lambda>(f, ms). (fmt_slot f, ms)) fs) ! x = fmt_slot format"
      using x by (cases "fs ! x") simp
    ultimately have "pref_rep (fs[x := (format, ?v)]) =
        (pref_rep fs)\<lparr> pref_framing := (pref_framing (pref_rep fs))[x := ?v] \<rparr>"
      using x(1) by (simp add: pref_rep_def pref_of_def map_update list_update_append list_update_same_conv)
    then show ?thesis
      by (simp add: ast_codec_pref_setsize_def \<open>format_pos format = Some i\<close> slot pos Some upd)
  qed
qed

lemma choose_refines:
  assumes "pref_list_ok fs"
  shows "choose_slot formats (take 28 (pref_order (pref_rep fs))) =
    Some (case find (\<lambda>f. formats AND f \<noteq> 0) (map fst fs) of None \<Rightarrow> 0 | Some f \<Rightarrow> f)"
proof -
  have "choose_slot formats (map (\<lambda>(f, ms). fmt_slot f) gs @ replicate n 0) =
      Some (case find (\<lambda>f. formats AND f \<noteq> 0) (map fst gs) of None \<Rightarrow> 0 | Some f \<Rightarrow> f)"
    if "\<forall>f\<in>set (map fst gs). known f" for gs :: pref_list and n
    using that
  proof (induction gs)
    case Nil
    then show ?case by (cases n) auto
  qed (auto simp: fmt_slot_nonzero)
  from this [of fs "28 - length fs"] assms pref_list_length(1) [OF assms] show ?thesis
    by (simp add: pref_rep_order min.absorb1 min.absorb2 diff_le_mono pref_list_ok_def)
qed

section \<open>Packet sizes\<close>

definition entry_ok :: "ast_format_list \<Rightarrow> bool" where
  "entry_ok e \<longleftrightarrow>
     0 \<le> fl_min_ms e \<and> fl_min_ms e \<le> fl_max_ms e \<and> 0 \<le> fl_inc_ms e \<and>
     (fl_inc_ms e \<noteq> 0 \<longrightarrow> 0 < fl_min_ms e \<and> fl_min_ms e smod fl_inc_ms e = 0 \<and> fl_max_ms e smod fl_inc_ms e = 0) \<and>
     (fl_inc_ms e = 0 \<longrightarrow> fl_max_ms e = 0)"

lemma format_entries_ok: "\<forall>e\<in>set AST_FORMAT_LIST. entry_ok e"
  by (simp add: AST_FORMAT_LIST_def fmt_entry_def entry_ok_def)

lemma smod_nonneg: "0 \<le> a \<Longrightarrow> 0 < b \<Longrightarrow> (a::int) smod b = a mod b"
  by (auto simp: signed_modulo_int_def sgn_if)

lemma validate_ms_range:
  assumes "entry_ok e"
  shows "fl_min_ms e \<le> validate_ms e ms" "validate_ms e ms \<le> fl_max_ms e"
    "fl_inc_ms e \<noteq> 0 \<Longrightarrow> validate_ms e ms smod fl_inc_ms e = 0"
proof -
  show "fl_min_ms e \<le> validate_ms e ms" "validate_ms e ms \<le> fl_max_ms e"
    using assms by (auto simp: validate_ms_def entry_ok_def Let_def)
  assume i: "fl_inc_ms e \<noteq> 0"
  have "(a - a smod fl_inc_ms e) smod fl_inc_ms e = 0" if "fl_min_ms e \<le> a - a smod fl_inc_ms e" for a
  proof -
    have "0 < fl_min_ms e" "0 < fl_inc_ms e" using assms i by (auto simp: entry_ok_def)
    moreover have "a - a smod fl_inc_ms e = fl_inc_ms e * (a sdiv fl_inc_ms e)"
      by (rule minus_smod_eq_mult_sdiv)
    ultimately show ?thesis using that by (simp add: smod_nonneg)
  qed
  with assms i show "validate_ms e ms smod fl_inc_ms e = 0"
    by (auto simp: validate_ms_def entry_ok_def Let_def not_less)
qed

lemma validate_ms_idem:
  assumes "entry_ok e"
  shows "validate_ms e (validate_ms e ms) = validate_ms e ms"
  using validate_ms_range [OF assms, of ms] assms
  by (auto simp: validate_ms_def [of e "validate_ms e ms"] entry_ok_def Let_def)

section \<open>Sequences of operations\<close>

datatype pref_op = Pref_remove int | Pref_append int | Pref_prepend int bool | Pref_setsize int int

fun pref_step :: "ast_codec_pref \<Rightarrow> pref_op \<Rightarrow> ast_codec_pref option" where
  "pref_step pref (Pref_remove f) = ast_codec_pref_remove pref f"
| "pref_step pref (Pref_append f) = map_option fst (ast_codec_pref_append pref f)"
| "pref_step pref (Pref_prepend f e) = ast_codec_pref_prepend pref f e"
| "pref_step pref (Pref_setsize f ms) = Some (fst (ast_codec_pref_setsize pref f ms))"

fun pref_run :: "ast_codec_pref \<Rightarrow> pref_op list \<Rightarrow> ast_codec_pref option" where
  "pref_run pref [] = Some pref"
| "pref_run pref (e # es) = do { pref \<leftarrow> pref_step pref e; pref_run pref es }"

fun spec_step :: "pref_list \<Rightarrow> pref_op \<Rightarrow> pref_list" where
  "spec_step fs (Pref_remove f) = spec_remove fs f"
| "spec_step fs (Pref_append f) = spec_append fs f"
| "spec_step fs (Pref_prepend f e) = spec_prepend fs f e"
| "spec_step fs (Pref_setsize f ms) = spec_setsize fs f ms"

lemma pref_step_refines:
  assumes "pref_list_ok fs"
  shows "pref_step (pref_rep fs) e = Some (pref_rep (spec_step fs e)) \<and> pref_list_ok (spec_step fs e)"
proof -
  have "map_option fst (ast_codec_pref_append (pref_rep fs) f) = Some (pref_rep (spec_append fs f))" for f
    using append_refines [OF assms, of f] by auto
  then show ?thesis
    by (cases e) (simp_all add: assms remove_refines prepend_refines setsize_refines spec_ok)
qed

lemma pref_run_refines:
  "pref_list_ok fs \<Longrightarrow> pref_run (pref_rep fs) es = Some (pref_rep (foldl spec_step fs es)) \<and> pref_list_ok (foldl spec_step fs es)"
  by (induction es arbitrary: fs) (simp_all add: pref_step_refines)

lemma pref_zero_rep: "pref_zero = pref_rep []" "pref_list_ok []"
  by (simp_all add: pref_zero_def pref_rep_def pref_of_def pref_list_ok_def)

lemma parse_allow_named_ok:
  assumes "pref_list_ok fs"
  shows "\<exists>fs' m'. parse_allow_named (Some (pref_rep fs), m) allowing this framems = Some (Some (pref_rep fs'), m') \<and> pref_list_ok fs'"
proof -
  let ?f = "ast_getformatbyname this"
  obtain x where app: "ast_codec_pref_append (pref_rep fs) ?f = Some (pref_rep (spec_append fs ?f), x)"
    using append_refines [OF assms] by blast
  note app' = setsize_refines [OF spec_ok(2) [OF assms]] spec_ok(4) [OF spec_ok(2) [OF assms]]
  show ?thesis
    using assms spec_ok(1) [OF assms] app'(2) pref_zero_rep(2)
    by (auto simp: parse_allow_named_def Let_def app app'(1) remove_refines [OF assms] pref_zero_rep(1))
qed

lemma parse_allow_token_ok:
  assumes "pref_list_ok fs"
  shows "\<exists>fs' m'. parse_allow_token (Some (pref_rep fs), m) allowing tok = Some (Some (pref_rep fs'), m') \<and> pref_list_ok fs'"
  using parse_allow_named_ok [OF assms] by (simp add: parse_allow_token_def split: option.splits)

lemma parse_allow_tokens_ok:
  "pref_list_ok fs \<Longrightarrow>
   \<exists>fs' m'. parse_allow_tokens (Some (pref_rep fs), m) allowing toks = Some (Some (pref_rep fs'), m') \<and> pref_list_ok fs'"
proof (induction toks arbitrary: fs m)
  case (Cons t ts)
  obtain fs1 m1 where "parse_allow_token (Some (pref_rep fs), m) allowing t = Some (Some (pref_rep fs1), m1)" "pref_list_ok fs1"
    using parse_allow_token_ok [OF Cons.prems] by blast
  with Cons.IH show ?case by simp
qed auto

section \<open>Properties\<close>

text \<open>
  C16. The two arrays of a preference list implement a list of distinct formats: any sequence of
  removals, insertions at either end and changes of packet size, starting from an empty
  preference, stays inside the arrays and ends in the representation of the list that the
  specification computes; and the choice among offered formats is the first one of that list
  that is offered, if it is an audio format.
\<close>

theorem codec_pref_refines:
  "case foldl spec_step [] es of fs \<Rightarrow>
     pref_run pref_zero es = Some (pref_rep fs) \<and> distinct (map fst fs) \<and>
     ast_codec_choose (pref_rep fs) formats find_best =
       Some (case find (\<lambda>f. formats AND f \<noteq> 0) (map fst fs) of
               Some f \<Rightarrow> if f AND AST_FORMAT_AUDIO_MASK \<noteq> 0 then f
                         else if find_best then ast_best_codec formats else 0
             | None \<Rightarrow> if find_best then ast_best_codec formats else 0)"
  using pref_run_refines [OF pref_zero_rep(2), of es]
  by (auto simp: pref_zero_rep(1) ast_codec_choose_def choose_refines pref_list_ok_def split: option.splits)

text \<open>The allow and disallow lines of a configuration, processed one after the other as the
  channel drivers do.\<close>

fun config_lines :: "ast_codec_pref option \<times> int option \<Rightarrow> (string \<times> bool) list \<Rightarrow>
    (ast_codec_pref option \<times> int option) option" where
  "config_lines st [] = Some st"
| "config_lines (p, m) ((line, allowing) # lines) =
     Option.bind (ast_parse_allow_disallow p m line allowing) (\<lambda>st. config_lines st lines)"

lemma config_lines_ok:
  "pref_list_ok fs \<Longrightarrow>
   \<exists>fs' m'. config_lines (Some (pref_rep fs), m) lines = Some (Some (pref_rep fs'), m') \<and> pref_list_ok fs'"
proof (induction lines arbitrary: fs m)
  case (Cons l ls)
  obtain line allowing where l: "l = (line, allowing)" by (cases l)
  obtain fs1 m1 where "ast_parse_allow_disallow (Some (pref_rep fs)) m line allowing = Some (Some (pref_rep fs1), m1)"
      "pref_list_ok fs1"
    unfolding ast_parse_allow_disallow_def using parse_allow_tokens_ok [OF Cons.prems] by blast
  with Cons.IH show ?case by (simp add: l)
qed auto

text \<open>
  C25. Whatever allow and disallow lines a configuration contains, processing them stays inside
  the arrays and leaves a well-formed preference list: distinct known formats.
\<close>

theorem allow_disallow_lines_safe:
  "\<exists>fs m'. config_lines (Some pref_zero, m) lines = Some (Some (pref_rep fs), m') \<and> pref_list_ok fs"
  using config_lines_ok [OF pref_zero_rep(2)] by (simp add: pref_zero_rep(1))

text \<open>
  C36. The packet size set for a listed format is the one read back, after rounding to the
  format's increment and clamping to its limits, as long as it fits a \<open>char\<close>.
\<close>

theorem codec_pref_framing_roundtrip:
  assumes "pref_list_ok fs" "format \<in> set (map fst fs)" "format_pos format = Some i"
    and "validate_ms (AST_FORMAT_LIST ! i) framems \<le> 127"
  shows "map_option fl_cur_ms
      (ast_codec_pref_getsize (fst (ast_codec_pref_setsize (pref_rep fs) format framems)) format) =
    Some (validate_ms (AST_FORMAT_LIST ! i) framems)"
proof -
  let ?v = "validate_ms (AST_FORMAT_LIST ! i) framems" and ?fs = "spec_setsize fs format framems"
  have e: "entry_ok (AST_FORMAT_LIST ! i)"
    using format_entries_ok format_pos_bits [OF assms(3)] by simp
  have char: "signed_take_bit 7 ?v = ?v"
    using validate_ms_range(1) [OF e, of framems] assms(4) e by (simp add: signed_take_bit_int_eq_self entry_ok_def)
  have ok: "pref_list_ok ?fs" and k: "known format"
    using spec_ok(4) [OF assms(1)] assms(3) by (simp_all add: known_def)
  have m: "map fst ?fs = map fst fs" by (auto simp: spec_setsize_def)
  obtain x where x: "find_pos (\<lambda>f. f = format) (map fst ?fs) = Some x"
    using assms(2) find_pos_none [of "\<lambda>f. f = format" "map fst fs"] m by (cases "find_pos (\<lambda>f. f = format) (map fst ?fs)") auto
  have "x < length fs" "fst (?fs ! x) = format"
    using x by (auto simp: find_pos_some spec_setsize_def)
  then have "pref_framing (pref_rep ?fs) ! x = ?v"
    using assms(3) char by (cases "fs ! x") (simp add: pref_rep_order [OF ok] nth_append del: One_nat_def, simp add: spec_setsize_def split: if_splits)
  then show ?thesis
    using find_pos_slot [OF ok k] x assms(3) validate_ms_idem [OF e, of framems]
    by (simp add: setsize_refines [OF assms(1)] ast_codec_pref_getsize_def fmt_slot_def Let_def)
qed

theorem codec_pref_framing_roundtrip_witness:
  "map_option fl_cur_ms (ast_codec_pref_getsize (fst (ast_codec_pref_setsize
     (pref_rep [(AST_FORMAT_GSM, 0), (AST_FORMAT_ULAW, 0)]) AST_FORMAT_ULAW 35)) AST_FORMAT_ULAW) =
   Some (validate_ms (AST_FORMAT_LIST ! 2) 35)"
proof (rule codec_pref_framing_roundtrip)
  have k: "format_pos AST_FORMAT_ULAW = Some 2" "format_pos AST_FORMAT_GSM = Some 1" by code_simp+
  show "pref_list_ok [(AST_FORMAT_GSM, 0), (AST_FORMAT_ULAW, 0)]"
    by (simp add: pref_list_ok_def known_def k) (simp add: format_consts)
  show "format_pos AST_FORMAT_ULAW = Some 2" by (rule k)
  show "validate_ms (AST_FORMAT_LIST ! 2) 35 \<le> 127" by code_simp
qed simp

text \<open>
  A larger packet size is lost in the \<open>char\<close>: allowing u-law with 150 ms, which the format
  table permits, makes the packet size 10 ms, and GSM with 300 ms makes it 40 ms.
\<close>

theorem codec_pref_framing_overflow:
  "map_option (\<lambda>(p, m). map_option (\<lambda>e. (fl_max_ms e, fl_cur_ms e)) (ast_codec_pref_getsize (the p) AST_FORMAT_ULAW))
     (ast_parse_allow_disallow (Some pref_zero) (Some 0) ''ulaw:150'' True) = Some (Some (150, 10)) \<and>
   map_option (\<lambda>(p, m). map_option (\<lambda>e. (fl_max_ms e, fl_cur_ms e)) (ast_codec_pref_getsize (the p) AST_FORMAT_GSM))
     (ast_parse_allow_disallow (Some pref_zero) (Some 0) ''gsm:300'' True) = Some (Some (300, 40))"
  by code_simp

end
