(* ===== verification/Translate.thy ===== *)
theory Translate
  imports Formats "HOL-Library.While_Combinator"
begin

text \<open>
  The registry of codec translators and the choice of translation paths, \<open>main/translate.c\<close>.

  \<^item> A translator is its descriptor; \<open>tr_id\<close> stands for its address. The callbacks of a codec appear
    as arguments of the operations that call them.
  \<^item> The matrix is a function of the indices of the source and the destination format. Costs are
    integers without overflow.
  \<^item> A format mask is an integer; \<open>powerof\<close> gives the index of its lowest bit, or -1.
  \<^item> \<open>None\<close> is a null pointer followed, or a loop that does not end.
\<close>

section \<open>Data\<close>

definition MAX_AUDIO_FORMAT :: nat where "MAX_AUDIO_FORMAT = 15"
definition MAX_FORMAT :: nat where "MAX_FORMAT = 32"

record ast_translator =
  tr_id :: nat
  tr_name :: string
  tr_srcfmt :: int
  tr_dstfmt :: int
  tr_buf_size :: int
  tr_cost :: int
  tr_active :: bool

record translator_path =
  tp_step :: "ast_translator option"
  tp_cost :: int
  tp_multistep :: int

type_synonym tr_matrix = "nat \<Rightarrow> nat \<Rightarrow> translator_path"

text \<open>The list of translators and the matrix.\<close>

record tr_state =
  ts_translators :: "ast_translator list"
  ts_matrix :: tr_matrix

definition powerof :: "int \<Rightarrow> int" where
  "powerof d = (case find (\<lambda>i. bit d i) [0..<32] of Some i \<Rightarrow> int i | None \<Rightarrow> -1)"

section \<open>The cost of a step\<close>

text \<open>
  The loop that feeds sample frames to a translator: \<open>sample k\<close> says whether the \<open>k\<close>th sample frame
  could be made, \<open>out k\<close> gives the samples of the frames the translator returns after it.
\<close>

partial_function (option) cost_loop :: "(nat \<Rightarrow> bool) \<Rightarrow> (nat \<Rightarrow> int list) \<Rightarrow> int \<Rightarrow> nat \<Rightarrow> int \<Rightarrow> bool option" where
  "cost_loop sample out target k num_samples =
     (if num_samples < target then
        if sample k then cost_loop sample out target (k + 1) (num_samples + sum_list (out k)) else Some False
      else Some True)"

text \<open>
  What happens while a translator is timed: whether it has a sample callback, whether \<open>newpvt\<close>
  succeeds, the two functions above, and the time the loop takes, in milliseconds.
\<close>

record cost_env =
  ce_has_sample :: bool
  ce_newpvt :: bool
  ce_sample :: "nat \<Rightarrow> bool"
  ce_out :: "nat \<Rightarrow> int list"
  ce_elapsed :: int

definition calc_cost :: "cost_env \<Rightarrow> ast_translator \<Rightarrow> int \<Rightarrow> ast_translator option" where
  "calc_cost env t seconds =
     (let out_rate = ast_format_rate (tr_dstfmt t);
          seconds = (if seconds = 0 then 1 else seconds)
      in if \<not> ce_has_sample env then Some (t\<lparr> tr_cost := 99999 \<rparr>)
         else if \<not> ce_newpvt env then Some (t\<lparr> tr_cost := 99999 \<rparr>)
         else do { ok \<leftarrow> cost_loop (ce_sample env) (ce_out env) (seconds * out_rate) 0 0;
                   if \<not> ok then Some (t\<lparr> tr_cost := 99999 \<rparr>)
                   else let cost = ce_elapsed env sdiv seconds
                        in Some (t\<lparr> tr_cost := (if cost = 0 then 1 else cost) \<rparr>) })"

declare cost_loop.simps [code]

section \<open>The matrix\<close>

definition empty_matrix :: tr_matrix where
  "empty_matrix = (\<lambda>x z. \<lparr> tp_step = None, tp_cost = 0, tp_multistep = 0 \<rparr>)"

definition set_entry :: "tr_matrix \<Rightarrow> nat \<Rightarrow> nat \<Rightarrow> translator_path \<Rightarrow> tr_matrix" where
  "set_entry m x z e = m(x := (m x)(z := e))"

text \<open>The direct cost of one translator.\<close>

definition direct_step :: "ast_translator \<Rightarrow> tr_matrix \<Rightarrow> tr_matrix" where
  "direct_step t m =
     (let x = nat (tr_srcfmt t); z = nat (tr_dstfmt t) in
      if \<not> tr_active t then m
      else if tp_step (m x z) = None \<or> tr_cost t < tp_cost (m x z)
      then set_entry m x z ((m x z)\<lparr> tp_step := Some t, tp_cost := tr_cost t \<rparr>)
      else m)"

text \<open>One step of the search for a cheaper path from \<open>x\<close> to \<open>z\<close> through \<open>y\<close>, and a pass over all triples.\<close>

definition relax :: "nat \<times> nat \<times> nat \<Rightarrow> tr_matrix \<times> nat \<Rightarrow> tr_matrix \<times> nat" where
  "relax xyz st =
     (case (xyz, st) of ((x, y, z), (m, changed)) \<Rightarrow>
      if x = y \<or> z = x \<or> z = y \<or> tp_step (m x y) = None \<or> tp_step (m y z) = None then (m, changed)
      else
        let newcost = tp_cost (m x y) + tp_cost (m y z) in
        if tp_step (m x z) \<noteq> None \<and> newcost \<ge> tp_cost (m x z) then (m, changed)
        else (set_entry m x z \<lparr> tp_step = tp_step (m x y), tp_cost = newcost, tp_multistep = 1 \<rparr>,
              changed + 1))"

definition triples :: "(nat \<times> nat \<times> nat) list" where
  "triples = [(x, y, z). x \<leftarrow> [0..<MAX_FORMAT], y \<leftarrow> [0..<MAX_FORMAT], z \<leftarrow> [0..<MAX_FORMAT]]"

definition relax_pass :: "tr_matrix \<Rightarrow> tr_matrix \<times> nat" where
  "relax_pass m = fold relax triples (m, 0)"

definition relax_until_stable :: "tr_matrix \<Rightarrow> tr_matrix option" where
  "relax_until_stable m =
     map_option fst (while_option (\<lambda>(m, changed). changed \<noteq> 0) (\<lambda>(m, changed). relax_pass m) (m, 1))"

text \<open>
  \<open>rebuild_matrix\<close>. With \<open>samples\<close> 0 the costs stay; otherwise every active translator is timed
  again, \<open>envs t\<close> being what happens then.
\<close>

definition rebuild_matrix :: "(ast_translator \<Rightarrow> cost_env) \<Rightarrow> int \<Rightarrow> tr_state \<Rightarrow> tr_state option" where
  "rebuild_matrix envs samples st =
     do { ts \<leftarrow> those (map (\<lambda>t. if tr_active t \<and> samples \<noteq> 0 then calc_cost (envs t) t samples else Some t)
                        (ts_translators st));
          m \<leftarrow> relax_until_stable (fold direct_step ts empty_matrix);
          Some (st\<lparr> ts_translators := ts, ts_matrix := m \<rparr>) }"

text \<open>The environment of a call that times nothing.\<close>

definition untimed :: cost_env where
  "untimed = \<lparr> ce_has_sample = False, ce_newpvt = False, ce_sample = (\<lambda>_. False), ce_out = (\<lambda>_. []), ce_elapsed = 0 \<rparr>"

section \<open>Paths\<close>

datatype build_result =
    Path "ast_translator list"
  | No_path "ast_translator list"
  | Alloc_failed "ast_translator list"

text \<open>
  The loop of \<open>ast_translator_build_path\<close>; \<open>chain\<close> is the list from \<open>head\<close> to \<open>tail\<close> and \<open>newpvt k\<close>
  says whether the \<open>k\<close>th descriptor can be allocated. Without a translator for the next step the
  function returns without freeing the chain: \<open>No_path\<close> keeps it. When an allocation fails the
  chain is freed.
\<close>

partial_function (option) build_loop ::
    "tr_matrix \<Rightarrow> (nat \<Rightarrow> bool) \<Rightarrow> nat \<Rightarrow> nat \<Rightarrow> ast_translator list \<Rightarrow> build_result option" where
  "build_loop m newpvt source dest chain =
     (if source \<noteq> dest then
        (case tp_step (m source dest) of
           None \<Rightarrow> Some (No_path chain)
         | Some t \<Rightarrow>
             if \<not> newpvt (length chain) then Some (Alloc_failed chain)
             else build_loop m newpvt (nat (tr_dstfmt t)) dest (chain @ [t]))
      else Some (Path chain))"

declare build_loop.simps [code]

definition ast_translator_build_path :: "tr_state \<Rightarrow> (nat \<Rightarrow> bool) \<Rightarrow> int \<Rightarrow> int \<Rightarrow> build_result option" where
  "ast_translator_build_path st newpvt dest source =
     (if powerof source = -1 \<or> powerof dest = -1 then Some (No_path [])
      else build_loop (ts_matrix st) newpvt (nat (powerof source)) (nat (powerof dest)) [])"

definition ast_translate_path_steps :: "tr_state \<Rightarrow> int \<Rightarrow> int \<Rightarrow> int" where
  "ast_translate_path_steps st dest src =
     (let s = powerof src; d = powerof dest in
      if s = -1 \<or> d = -1 then -1
      else case tp_step (ts_matrix st (nat s) (nat d)) of
             None \<Rightarrow> -1
           | Some t \<Rightarrow> tp_multistep (ts_matrix st (nat s) (nat d)) + 1)"

section \<open>The registry\<close>

text \<open>
  The search for a dearer translator between the same formats. Once the new translator has been
  inserted its pointer is cleared, and the comparison with the next entry follows the null pointer.
\<close>

fun insert_before_dearer ::
    "ast_translator option \<Rightarrow> ast_translator list \<Rightarrow> (ast_translator list \<times> ast_translator option) option" where
  "insert_before_dearer t [] = Some ([], t)"
| "insert_before_dearer None (u # us) = None"
| "insert_before_dearer (Some t) (u # us) =
     (if tr_srcfmt u = tr_srcfmt t \<and> tr_dstfmt u = tr_dstfmt t \<and> tr_cost u > tr_cost t
      then map_option (\<lambda>(us, r). (t # u # us, r)) (insert_before_dearer None us)
      else map_option (\<lambda>(us, r). (u # us, r)) (insert_before_dearer (Some t) us))"

definition round_up :: "int \<Rightarrow> int \<Rightarrow> int" where
  "round_up align n = ((n + align - 1) sdiv align) * align"

text \<open>\<open>ast_register_translator\<close>; \<open>align\<close> is the alignment of pointers and \<open>mod\<close> whether a module is given.\<close>

definition ast_register_translator ::
    "cost_env \<Rightarrow> int \<Rightarrow> bool \<Rightarrow> ast_translator \<Rightarrow> tr_state \<Rightarrow> (tr_state \<times> int) option" where
  "ast_register_translator env align has_mod t st =
     (if \<not> has_mod then Some (st, -1)
      else if tr_buf_size t = 0 then Some (st, -1)
      else
        let t = t\<lparr> tr_srcfmt := powerof (tr_srcfmt t), tr_dstfmt := powerof (tr_dstfmt t), tr_active := True \<rparr> in
        if tr_srcfmt t = -1 \<or> tr_dstfmt t = -1 then Some (st, -1)
        else if tr_srcfmt t \<ge> int MAX_FORMAT then Some (st, -1)
        else if tr_dstfmt t \<ge> int MAX_FORMAT then Some (st, -1)
        else
          do { t \<leftarrow> calc_cost env (t\<lparr> tr_buf_size := round_up align (tr_buf_size t) \<rparr>) 1;
               (ts, rest) \<leftarrow> insert_before_dearer (Some t) (ts_translators st);
               let ts = (case rest of Some t \<Rightarrow> t # ts | None \<Rightarrow> ts);
               st \<leftarrow> rebuild_matrix (\<lambda>_. untimed) 0 (st\<lparr> ts_translators := ts \<rparr>);
               Some (st, 0) })"

definition ast_unregister_translator :: "nat \<Rightarrow> tr_state \<Rightarrow> (tr_state \<times> int) option" where
  "ast_unregister_translator i st =
     (case List.extract (\<lambda>u. tr_id u = i) (ts_translators st) of
        None \<Rightarrow> Some (st, -1)
      | Some (before, u, after) \<Rightarrow>
          map_option (\<lambda>st. (st, 0)) (rebuild_matrix (\<lambda>_. untimed) 0 (st\<lparr> ts_translators := before @ after \<rparr>)))"

definition set_active :: "bool \<Rightarrow> nat \<Rightarrow> tr_state \<Rightarrow> tr_state" where
  "set_active a i st =
     st\<lparr> ts_translators := map (\<lambda>u. if tr_id u = i then u\<lparr> tr_active := a \<rparr> else u) (ts_translators st) \<rparr>"

definition ast_translator_activate :: "nat \<Rightarrow> tr_state \<Rightarrow> tr_state option" where
  "ast_translator_activate i st = rebuild_matrix (\<lambda>_. untimed) 0 (set_active True i st)"

definition ast_translator_deactivate :: "nat \<Rightarrow> tr_state \<Rightarrow> tr_state option" where
  "ast_translator_deactivate i st = rebuild_matrix (\<lambda>_. untimed) 0 (set_active False i st)"

section \<open>Choosing formats\<close>

text \<open>The pairs of formats in the order in which they are tried, and the choice so far: source, destination, cost, steps.\<close>

definition better_pair :: "tr_state \<Rightarrow> int \<Rightarrow> int \<Rightarrow> nat \<times> nat \<Rightarrow> int \<times> int \<times> int \<times> int \<Rightarrow> int \<times> int \<times> int \<times> int" where
  "better_pair st dst srcs yx cand =
     (case (yx, cand) of ((y, x), (best, bestdst, besttime, beststeps)) \<Rightarrow>
      let e = ts_matrix st x y in
      if \<not> bit dst y \<or> \<not> bit srcs x \<or> tp_step e = None \<or> tp_cost e > besttime then cand
      else if tp_cost e < besttime \<or> tp_multistep e < beststeps
      then (2 ^ x, 2 ^ y, tp_cost e, tp_multistep e) else cand)"

definition ast_translator_best_choice :: "tr_state \<Rightarrow> int \<Rightarrow> int \<Rightarrow> int \<times> int \<times> int" where
  "ast_translator_best_choice st dst srcs =
     (let common = (dst AND srcs) AND AST_FORMAT_AUDIO_MASK in
      if common \<noteq> 0 then
        (case find (\<lambda>y. bit common y) [0..<MAX_AUDIO_FORMAT + 1] of
           Some y \<Rightarrow> (2 ^ y, 2 ^ y, 0)
         | None \<Rightarrow> (2 ^ (MAX_AUDIO_FORMAT + 1), 2 ^ (MAX_AUDIO_FORMAT + 1), 0))
      else
        case fold (better_pair st dst srcs)
               [(y, x). y \<leftarrow> [0..<MAX_AUDIO_FORMAT + 1], x \<leftarrow> [0..<MAX_AUDIO_FORMAT + 1]] (-1, 0, 2 ^ 31 - 1, 2 ^ 31 - 1) of
          (best, bestdst, besttime, beststeps) \<Rightarrow>
            if best > -1 then (bestdst, best, 0) else (dst, srcs, best))"

text \<open>The two loops of \<open>ast_translate_available_formats\<close> over the bits \<open>xs\<close>, for a source format index.\<close>

definition mask_unreachable :: "tr_state \<Rightarrow> int \<Rightarrow> int \<Rightarrow> nat \<Rightarrow> nat \<Rightarrow> int \<Rightarrow> int" where
  "mask_unreachable st dest src idx x res =
     (if \<not> bit dest x then res
      else if bit src x then res
      else if tp_step (ts_matrix st idx x) = None then res AND NOT (2 ^ x)
      else if tp_step (ts_matrix st x idx) = None then res AND NOT (2 ^ x)
      else res)"

definition ast_translate_available_formats :: "tr_state \<Rightarrow> int \<Rightarrow> int \<Rightarrow> int" where
  "ast_translate_available_formats st dest src =
     (let src_audio = src AND AST_FORMAT_AUDIO_MASK; src_video = src AND AST_FORMAT_VIDEO_MASK in
      if src = 0 then dest
      else
        let src_audio = (if src_audio \<noteq> 0 then powerof src_audio else src_audio);
            src_video = (if src_video \<noteq> 0 then powerof src_video else src_video);
            x = (if src_audio \<noteq> 0 then 15 else 0);
            res = (if src_audio \<noteq> 0 then fold (mask_unreachable st dest src (nat src_audio)) [0..<15] dest else dest)
        in if src_video \<noteq> 0 then fold (mask_unreachable st dest src (nat src_video)) [x..<24] res else res)"
section \<open>Cheapest paths\<close>

text \<open>The chains of active translators of \<open>ts\<close> from one format index to another.\<close>

fun tr_chain :: "ast_translator list \<Rightarrow> nat \<Rightarrow> ast_translator list \<Rightarrow> nat \<Rightarrow> bool" where
  "tr_chain ts x [] z \<longleftrightarrow> x = z"
| "tr_chain ts x (t # p) z \<longleftrightarrow>
     t \<in> set ts \<and> tr_active t \<and> nat (tr_srcfmt t) = x \<and> tr_chain ts (nat (tr_dstfmt t)) p z"

definition chain_cost :: "ast_translator list \<Rightarrow> int" where
  "chain_cost p = sum_list (map tr_cost p)"

definition translator_ok :: "ast_translator \<Rightarrow> bool" where
  "translator_ok t \<longleftrightarrow> 0 \<le> tr_srcfmt t \<and> tr_srcfmt t < int MAX_FORMAT \<and> 0 \<le> tr_dstfmt t \<and> tr_dstfmt t < int MAX_FORMAT \<and> 1 \<le> tr_cost t"

text \<open>
  Every entry of the matrix is the cost of some chain that begins with its step; every direct
  translation is known; and a matrix is stable when no detour is cheaper.
\<close>

definition entries_sound :: "ast_translator list \<Rightarrow> tr_matrix \<Rightarrow> bool" where
  "entries_sound ts m \<longleftrightarrow>
     (\<forall>x z t. tp_step (m x z) = Some t \<longrightarrow> (\<exists>p. tr_chain ts x (t # p) z \<and> tp_cost (m x z) = chain_cost (t # p)))"

definition knows :: "tr_matrix \<Rightarrow> nat \<Rightarrow> nat \<Rightarrow> int \<Rightarrow> bool" where
  "knows m x z c \<longleftrightarrow> tp_step (m x z) \<noteq> None \<and> tp_cost (m x z) \<le> c"

definition direct_known :: "ast_translator list \<Rightarrow> tr_matrix \<Rightarrow> bool" where
  "direct_known ts m \<longleftrightarrow> (\<forall>t\<in>set ts. tr_active t \<longrightarrow> knows m (nat (tr_srcfmt t)) (nat (tr_dstfmt t)) (tr_cost t))"

definition stable :: "tr_matrix \<Rightarrow> bool" where
  "stable m \<longleftrightarrow>
     (\<forall>x y z. x < MAX_FORMAT \<longrightarrow> y < MAX_FORMAT \<longrightarrow> z < MAX_FORMAT \<longrightarrow> x \<noteq> y \<longrightarrow> z \<noteq> x \<longrightarrow> z \<noteq> y \<longrightarrow>
        tp_step (m x y) \<noteq> None \<longrightarrow> tp_step (m y z) \<noteq> None \<longrightarrow> knows m x z (tp_cost (m x y) + tp_cost (m y z)))"

lemma entries_soundD:
  "entries_sound ts m \<Longrightarrow> tp_step (m x z) = Some t \<Longrightarrow> \<exists>p. tr_chain ts x (t # p) z \<and> tp_cost (m x z) = chain_cost (t # p)"
  unfolding entries_sound_def by blast

lemma tr_chain_append: "tr_chain ts x p y \<Longrightarrow> tr_chain ts y q z \<Longrightarrow> tr_chain ts x (p @ q) z"
  by (induction p arbitrary: x) auto

lemma chain_cost_simps [simp]:
  "chain_cost [] = 0" "chain_cost (t # p) = tr_cost t + chain_cost p" "chain_cost (p @ q) = chain_cost p + chain_cost q"
  by (simp_all add: chain_cost_def)

lemma chain_cost_nonneg:
  "\<forall>t\<in>set ts. translator_ok t \<Longrightarrow> tr_chain ts x p z \<Longrightarrow> 0 \<le> chain_cost p"
  by (induction p arbitrary: x) (auto simp: translator_ok_def)

lemma set_entry_apply: "set_entry m x z e a b = (if a = x \<and> b = z then e else m a b)"
  by (simp add: set_entry_def)

lemma knows_mono: "knows m x z c \<Longrightarrow> c \<le> c' \<Longrightarrow> knows m x z c'"
  by (auto simp: knows_def)

lemma direct_step_keeps:
  assumes "knows m x z c"
  shows "knows (direct_step t m) x z c"
  using assms by (auto simp: knows_def direct_step_def Let_def set_entry_apply)

lemma direct_step_sound:
  assumes "entries_sound ts m" "t \<in> set ts"
  shows "entries_sound ts (direct_step t m)"
proof -
  have "tr_chain ts (nat (tr_srcfmt t)) [t] (nat (tr_dstfmt t))" if "tr_active t"
    using assms(2) that by simp
  then show ?thesis
    using assms(1) by (auto simp: entries_sound_def direct_step_def Let_def set_entry_apply intro: exI [of _ "[]"])
qed

lemma direct_fold:
  "entries_sound ts m \<Longrightarrow> set us \<subseteq> set ts \<Longrightarrow> entries_sound ts (fold direct_step us m)"
  "knows m x z c \<Longrightarrow> knows (fold direct_step us m) x z c"
  by (induction us arbitrary: m) (auto simp: direct_step_sound direct_step_keeps)

lemma direct_matrix:
  "entries_sound ts (fold direct_step ts empty_matrix)" "direct_known ts (fold direct_step ts empty_matrix)"
proof -
  show "entries_sound ts (fold direct_step ts empty_matrix)"
    by (rule direct_fold) (auto simp: entries_sound_def empty_matrix_def)
  show "direct_known ts (fold direct_step ts empty_matrix)"
    unfolding direct_known_def
  proof (intro ballI impI)
    fix t assume t: "t \<in> set ts" "tr_active t"
    obtain us vs where "ts = us @ t # vs" using split_list [OF t(1)] by blast
    moreover have "knows (direct_step t m) (nat (tr_srcfmt t)) (nat (tr_dstfmt t)) (tr_cost t)" for m
      using t(2) by (auto simp: knows_def direct_step_def Let_def set_entry_apply)
    ultimately show "knows (fold direct_step ts empty_matrix) (nat (tr_srcfmt t)) (nat (tr_dstfmt t)) (tr_cost t)"
      by (simp add: direct_fold(2))
  qed
qed

lemma relax_cases:
  assumes "relax (x, y, z) (m, n) = (m', n')"
  obtains (keep) "m' = m" "n' = n"
      "x = y \<or> z = x \<or> z = y \<or> tp_step (m x y) = None \<or> tp_step (m y z) = None \<or>
       knows m x z (tp_cost (m x y) + tp_cost (m y z))"
  | (change) "n' = n + 1" "x \<noteq> y" "z \<noteq> x" "z \<noteq> y" "tp_step (m x y) \<noteq> None" "tp_step (m y z) \<noteq> None"
      "\<not> knows m x z (tp_cost (m x y) + tp_cost (m y z))"
      "m' = set_entry m x z \<lparr> tp_step = tp_step (m x y), tp_cost = tp_cost (m x y) + tp_cost (m y z), tp_multistep = 1 \<rparr>"
proof -
  let ?skip = "x = y \<or> z = x \<or> z = y \<or> tp_step (m x y) = None \<or> tp_step (m y z) = None"
  let ?c = "tp_cost (m x y) + tp_cost (m y z)"
  show thesis
  proof (cases "?skip \<or> knows m x z ?c")
    case True
    then have "relax (x, y, z) (m, n) = (m, n)" by (auto simp: relax_def Let_def knows_def)
    with assms True keep show thesis by auto
  next
    case False
    then have "relax (x, y, z) (m, n) =
        (set_entry m x z \<lparr> tp_step = tp_step (m x y), tp_cost = ?c, tp_multistep = 1 \<rparr>, n + 1)"
      by (auto simp: relax_def Let_def knows_def)
    with assms False change show thesis by simp
  qed
qed

lemma relax_keeps:
  assumes "relax (x, y, z) (m, n) = (m', n')" "knows m a b c"
  shows "knows m' a b c"
  using assms by (cases rule: relax_cases) (auto simp: knows_def set_entry_apply)

lemma relax_sound:
  assumes "relax (x, y, z) (m, n) = (m', n')" "entries_sound ts m"
  shows "entries_sound ts m'"
  using assms(1)
proof (cases rule: relax_cases)
  case change
  obtain t u where t: "tp_step (m x y) = Some t" and u: "tp_step (m y z) = Some u" using change by auto
  obtain p where p: "tr_chain ts x (t # p) y" "tp_cost (m x y) = chain_cost (t # p)"
    using entries_soundD [OF assms(2) t] by blast
  obtain q where q: "tr_chain ts y (u # q) z" "tp_cost (m y z) = chain_cost (u # q)"
    using entries_soundD [OF assms(2) u] by blast
  have "tr_chain ts x (t # (p @ u # q)) z" using tr_chain_append [OF p(1) q(1)] by simp
  moreover have "tp_cost (m x y) + tp_cost (m y z) = chain_cost (t # (p @ u # q))" using p q by simp
  ultimately show ?thesis
    using entries_soundD [OF assms(2)] t unfolding change(8) entries_sound_def set_entry_apply
    by (auto simp del: tr_chain.simps chain_cost_simps)
qed (use assms in simp)
text \<open>A pass changes nothing only when no detour is cheaper; otherwise the matrix gets smaller.\<close>

definition missing :: "tr_matrix \<Rightarrow> nat" where
  "missing m = (\<Sum>(a, b)\<in>{..<MAX_FORMAT} \<times> {..<MAX_FORMAT}. if tp_step (m a b) = None then 1 else 0)"

definition total_cost :: "tr_matrix \<Rightarrow> nat" where
  "total_cost m = (\<Sum>(a, b)\<in>{..<MAX_FORMAT} \<times> {..<MAX_FORMAT}. if tp_step (m a b) = None then 0 else nat (tp_cost (m a b)))"

abbreviation rank_less :: "((nat \<times> nat) \<times> (nat \<times> nat)) set" where
  "rank_less \<equiv> less_than <*lex*> less_than"

lemma sum_set_entry:
  fixes g :: "translator_path \<Rightarrow> nat"
  assumes "x < MAX_FORMAT" "z < MAX_FORMAT"
  shows "(\<Sum>(a, b)\<in>{..<MAX_FORMAT} \<times> {..<MAX_FORMAT}. g (set_entry m x z e a b)) + g (m x z) =
    (\<Sum>(a, b)\<in>{..<MAX_FORMAT} \<times> {..<MAX_FORMAT}. g (m a b)) + g e"
proof -
  let ?P = "{..<MAX_FORMAT} \<times> {..<MAX_FORMAT}"
  have f: "finite ?P" "(x, z) \<in> ?P" using assms by auto
  have "(\<Sum>(a, b)\<in>?P - {(x, z)}. g (set_entry m x z e a b)) = (\<Sum>(a, b)\<in>?P - {(x, z)}. g (m a b))"
    by (rule sum.cong) (auto simp: set_entry_apply split: if_splits)
  then show ?thesis
    using sum.remove [OF f, of "\<lambda>(a, b). g (set_entry m x z e a b)"] sum.remove [OF f, of "\<lambda>(a, b). g (m a b)"]
    by (simp add: set_entry_apply)
qed

definition costs_nonneg :: "tr_matrix \<Rightarrow> bool" where
  "costs_nonneg m \<longleftrightarrow> (\<forall>x z. tp_step (m x z) \<noteq> None \<longrightarrow> 0 \<le> tp_cost (m x z))"

lemma sound_nonneg: "entries_sound ts m \<Longrightarrow> \<forall>t\<in>set ts. translator_ok t \<Longrightarrow> costs_nonneg m"
  unfolding costs_nonneg_def using entries_soundD chain_cost_nonneg by (metis not_Some_eq)

definition settled :: "tr_matrix \<Rightarrow> nat \<times> nat \<times> nat \<Rightarrow> bool" where
  "settled m xyz \<longleftrightarrow>
     (case xyz of (x, y, z) \<Rightarrow>
        x = y \<or> z = x \<or> z = y \<or> tp_step (m x y) = None \<or> tp_step (m y z) = None \<or>
        knows m x z (tp_cost (m x y) + tp_cost (m y z)))"

lemma relax_rank:
  assumes "relax (x, y, z) (m, n) = (m', n')" "n' \<noteq> n" "costs_nonneg m" "x < MAX_FORMAT" "z < MAX_FORMAT"
  shows "((missing m', total_cost m'), (missing m, total_cost m)) \<in> rank_less"
  using assms(1)
proof (cases rule: relax_cases)
  case change
  let ?e = "\<lparr> tp_step = tp_step (m x y), tp_cost = tp_cost (m x y) + tp_cost (m y z), tp_multistep = 1 \<rparr>"
  have c: "0 \<le> tp_cost (m x y)" "0 \<le> tp_cost (m y z)" using assms(3) change by (auto simp: costs_nonneg_def)
  have m: "missing m' + (if tp_step (m x z) = None then 1 else 0) = missing m"
    using sum_set_entry [OF assms(4,5), of "\<lambda>e. if tp_step e = None then 1 else 0" m ?e] change
    by (simp add: missing_def)
  have "total_cost m' + nat (tp_cost (m x z)) = total_cost m + nat (tp_cost ?e)" if "tp_step (m x z) \<noteq> None"
    using sum_set_entry [OF assms(4,5), of "\<lambda>e. if tp_step e = None then 0 else nat (tp_cost e)" m ?e] change that
    by (simp add: total_cost_def)
  moreover have "nat (tp_cost ?e) < nat (tp_cost (m x z))" if "tp_step (m x z) \<noteq> None"
    using change(7) c that by (auto simp: knows_def)
  ultimately show ?thesis using m by (cases "tp_step (m x z)") auto
qed (use assms in simp)

text \<open>What a sequence of steps does to the matrix and to the count of changes.\<close>

definition pass_effect :: "ast_translator list \<Rightarrow> (nat \<times> nat \<times> nat) list \<Rightarrow> tr_matrix \<times> nat \<Rightarrow> tr_matrix \<times> nat \<Rightarrow> bool" where
  "pass_effect ts ps st st' \<longleftrightarrow>
     (case (st, st') of ((m, n), (m', n')) \<Rightarrow>
        entries_sound ts m' \<and> (\<forall>a b c. knows m a b c \<longrightarrow> knows m' a b c) \<and> n \<le> n' \<and>
        (n' \<noteq> n \<longrightarrow> ((missing m', total_cost m'), (missing m, total_cost m)) \<in> rank_less) \<and>
        (n' = n \<longrightarrow> m' = m \<and> (\<forall>q\<in>set ps. settled m q)))"

lemma fold_relax:
  assumes "\<forall>(x, y, z)\<in>set ps. x < MAX_FORMAT \<and> z < MAX_FORMAT"
    "entries_sound ts m" "\<forall>t\<in>set ts. translator_ok t"
  shows "pass_effect ts ps (m, n) (fold relax ps (m, n))"
  using assms(1,2)
proof (induction ps arbitrary: m n)
  case (Cons q ps)
  obtain x y z where q: "q = (x, y, z)" by (cases q)
  obtain m1 n1 where r: "relax (x, y, z) (m, n) = (m1, n1)" by force
  obtain m2 n2 where f: "fold relax ps (m1, n1) = (m2, n2)" by force
  have s: "entries_sound ts m1" by (rule relax_sound [OF r Cons.prems(2)])
  have IH: "pass_effect ts ps (m1, n1) (m2, n2)"
    using Cons.IH [OF _ s, of n1] Cons.prems(1) f by simp
  have n1: "n \<le> n1" "n1 = n \<Longrightarrow> m1 = m \<and> settled m q"
    using r by (auto simp: q settled_def elim: relax_cases)
  have rank: "n1 \<noteq> n \<Longrightarrow> ((missing m1, total_cost m1), (missing m, total_cost m)) \<in> rank_less"
    using relax_rank [OF r _ sound_nonneg [OF Cons.prems(2) assms(3)]] Cons.prems(1) by (simp add: q)
  have "n2 \<noteq> n \<Longrightarrow> ((missing m2, total_cost m2), (missing m, total_cost m)) \<in> rank_less"
    using IH n1 rank by (cases "n1 = n") (auto simp: pass_effect_def)
  moreover have "n2 = n \<Longrightarrow> m2 = m \<and> (\<forall>p\<in>set (q # ps). settled m p)"
    using IH n1 by (auto simp: pass_effect_def)
  moreover have "entries_sound ts m2" "n \<le> n2" "\<forall>a b c. knows m a b c \<longrightarrow> knows m2 a b c"
    using IH n1 relax_keeps [OF r] by (auto simp: pass_effect_def)
  ultimately show ?case
    by (simp add: pass_effect_def q r f)
qed (simp add: pass_effect_def)

lemma relax_pass_effect:
  assumes "entries_sound ts m" "\<forall>t\<in>set ts. translator_ok t"
  shows "pass_effect ts triples (m, 0) (relax_pass m)"
  unfolding relax_pass_def by (rule fold_relax [OF _ assms]) (auto simp: triples_def)

lemma settled_stable: "\<forall>q\<in>set triples. settled m q \<Longrightarrow> stable m"
proof -
  assume s: "\<forall>q\<in>set triples. settled m q"
  have all: "settled m (x, y, z)" if "x < MAX_FORMAT" "y < MAX_FORMAT" "z < MAX_FORMAT" for x y z
  proof -
    have "(x, y, z) \<in> set triples" using that by (auto simp: triples_def image_iff)
    with s show ?thesis by blast
  qed
  show "stable m"
    unfolding stable_def
  proof (intro allI impI)
    fix x y z
    assume "x < MAX_FORMAT" "y < MAX_FORMAT" "z < MAX_FORMAT" "x \<noteq> y" "z \<noteq> x" "z \<noteq> y"
      "tp_step (m x y) \<noteq> None" "tp_step (m y z) \<noteq> None"
    with all [of x y z] show "knows m x z (tp_cost (m x y) + tp_cost (m y z))"
      by (simp add: settled_def)
  qed
qed

lemma relax_until_stable_returns:
  assumes ok: "\<forall>t\<in>set ts. translator_ok t" and m: "entries_sound ts m" "direct_known ts m"
  shows "\<exists>m'. relax_until_stable m = Some m' \<and> entries_sound ts m' \<and> direct_known ts m' \<and> stable m'"
proof -
  let ?b = "\<lambda>(m, changed). changed \<noteq> (0::nat)" and ?c = "\<lambda>(m, changed :: nat). relax_pass m"
  let ?P = "\<lambda>(m, changed). entries_sound ts m \<and> direct_known ts m \<and> (changed = (0::nat) \<longrightarrow> stable m)"
  let ?f = "\<lambda>(m, changed). ((missing m, total_cost m), if changed = (0::nat) then 0 else 1 :: nat)"
  have step: "?P (?c s) \<and> (?c s, s) \<in> inv_image (rank_less <*lex*> less_than) ?f" if "?P s" "?b s" for s
  proof -
    obtain m n where s: "s = (m, n)" by (cases s)
    obtain m' n' where r: "relax_pass m = (m', n')" by force
    have e: "pass_effect ts triples (m, 0) (m', n')"
      using relax_pass_effect [OF _ ok, of m] that s r by simp
    with that show ?thesis
      using settled_stable [of m] by (auto simp: s r pass_effect_def direct_known_def)
  qed
  have "wf (inv_image (rank_less <*lex*> less_than) ?f)" by (intro wf_inv_image wf_lex_prod wf_less_than)
  then have "wf {(t, s). (?P s \<and> ?b s) \<and> t = ?c s}"
    by (rule wf_subset) (use step in auto)
  then have "\<exists>t. while_option ?b ?c (m, 1) = Some t"
    by (rule wf_while_option_Some [where P = ?P]) (use step m in auto)
  then obtain m' n' where w: "while_option ?b ?c (m, 1) = Some (m', n')" by auto
  moreover have "?P (m', n')"
    by (rule while_option_rule [where P = ?P, OF _ w]) (use step m in auto)
  moreover have "n' = 0" using while_option_stop [OF w] by simp
  ultimately show ?thesis by (simp add: relax_until_stable_def)
qed

text \<open>On a stable matrix no chain is cheaper than the entry.\<close>

lemma stable_cheapest:
  assumes ok: "\<forall>t\<in>set ts. translator_ok t" and m: "direct_known ts m" "stable m"
    and p: "tr_chain ts x p z" "x \<noteq> z"
  shows "knows m x z (chain_cost p)"
  using p
proof (induction p arbitrary: x)
  case (Cons t p)
  define s where "s = nat (tr_dstfmt t)"
  have t: "t \<in> set ts" "tr_active t" "nat (tr_srcfmt t) = x" and c: "tr_chain ts s p z" using Cons.prems by (auto simp: s_def)
  have tok: "translator_ok t" using ok t by blast
  have d: "knows m x s (tr_cost t)" using m(1) t by (auto simp: direct_known_def s_def)
  have p0: "0 \<le> chain_cost p" by (rule chain_cost_nonneg [OF ok c])
  show ?case
  proof (cases "s = z")
    case True
    with d p0 show ?thesis by (auto intro: knows_mono)
  next
    case False
    then have k: "knows m s z (chain_cost p)" by (rule Cons.IH [OF c])
    show ?thesis
    proof (cases "s = x")
      case True
      with k tok show ?thesis by (auto simp: translator_ok_def intro: knows_mono)
    next
      case sx: False
      have "z < MAX_FORMAT"
        using c False ok
      proof (induction p arbitrary: s)
        case (Cons u p)
        then have "nat (tr_dstfmt u) < MAX_FORMAT" by (force simp: translator_ok_def)
        with Cons show ?case by (cases "nat (tr_dstfmt u) = z") auto
      qed simp
      moreover have "x < MAX_FORMAT" "s < MAX_FORMAT" using tok t by (auto simp: translator_ok_def s_def)
      ultimately have "knows m x z (tp_cost (m x s) + tp_cost (m s z))"
        using m(2) d k False sx Cons.prems(2) by (auto simp: stable_def knows_def)
      with d k show ?thesis by (auto simp: knows_def)
    qed
  qed
qed simp
definition matrix_ok :: "ast_translator list \<Rightarrow> tr_matrix \<Rightarrow> bool" where
  "matrix_ok ts m \<longleftrightarrow> (\<forall>t\<in>set ts. translator_ok t) \<and> entries_sound ts m \<and> direct_known ts m \<and> stable m"

lemma matrix_ok_cheapest:
  "matrix_ok ts m \<Longrightarrow> tr_chain ts x p z \<Longrightarrow> x \<noteq> z \<Longrightarrow> knows m x z (chain_cost p)"
  unfolding matrix_ok_def using stable_cheapest by blast

text \<open>The first step of an entry leads to a format from which the rest of the way costs the rest.\<close>

lemma step_optimal:
  assumes m: "matrix_ok ts m" and t: "tp_step (m x z) = Some t" and xz: "x \<noteq> z"
  defines "s \<equiv> nat (tr_dstfmt t)"
  shows "tr_chain ts x [t] s" "1 \<le> tr_cost t"
    and "s = z \<Longrightarrow> tp_cost (m x z) = tr_cost t"
    and "s \<noteq> z \<Longrightarrow> tp_step (m s z) \<noteq> None \<and> tp_cost (m x z) = tr_cost t + tp_cost (m s z) \<and> 0 \<le> tp_cost (m s z)"
proof -
  have sound: "entries_sound ts m" and ok: "\<forall>t\<in>set ts. translator_ok t" using m by (auto simp: matrix_ok_def)
  obtain p where p: "tr_chain ts x (t # p) z" "tp_cost (m x z) = tr_cost t + chain_cost p"
    using entries_soundD [OF sound t] by auto
  then have c: "tr_chain ts s p z" and t1: "t \<in> set ts" "tr_active t" "nat (tr_srcfmt t) = x" by (auto simp: s_def)
  then show "tr_chain ts x [t] s" "1 \<le> tr_cost t" using ok by (auto simp: s_def translator_ok_def)
  have p0: "0 \<le> chain_cost p" by (rule chain_cost_nonneg [OF ok c])
  {
    assume "s = z"
    then have "knows m x z (tr_cost t)" using m t1 by (auto simp: matrix_ok_def direct_known_def s_def)
    with p p0 show "tp_cost (m x z) = tr_cost t" by (simp add: knows_def)
  next
    assume "s \<noteq> z"
    then have k: "knows m s z (chain_cost p)" using matrix_ok_cheapest [OF m c] by simp
    then obtain u where u: "tp_step (m s z) = Some u" by (auto simp: knows_def)
    obtain q where q: "tr_chain ts s (u # q) z" "tp_cost (m s z) = chain_cost (u # q)"
      using entries_soundD [OF sound u] by blast
    have "tr_chain ts x (t # u # q) z" using q t1 by (simp add: s_def)
    from matrix_ok_cheapest [OF m this xz] have "tp_cost (m x z) \<le> tr_cost t + tp_cost (m s z)"
      using q by (simp add: knows_def)
    moreover have "0 \<le> tp_cost (m s z)" using sound_nonneg [OF sound ok] u by (auto simp: costs_nonneg_def)
    ultimately show "tp_step (m s z) \<noteq> None \<and> tp_cost (m x z) = tr_cost t + tp_cost (m s z) \<and> 0 \<le> tp_cost (m s z)"
      using k p by (auto simp: knows_def)
  }
qed

text \<open>Following the steps ends at the destination, with a chain that costs what the entry says.\<close>

lemma build_loop_builds:
  assumes m: "matrix_ok ts m" and step: "tp_step (m x z) \<noteq> None" and xz: "x \<noteq> z"
  shows "\<exists>p. tr_chain ts x p z \<and> chain_cost p = tp_cost (m x z) \<and>
    (build_loop m newpvt x z chain = Some (Path (chain @ p)) \<or>
     (\<exists>k<length p. \<not> newpvt (length chain + k) \<and> build_loop m newpvt x z chain = Some (Alloc_failed (chain @ take k p))))"
  using step xz
proof (induction "nat (tp_cost (m x z))" arbitrary: x chain rule: less_induct)
  case less
  obtain t where t: "tp_step (m x z) = Some t" using less.prems by auto
  define s where "s = nat (tr_dstfmt t)"
  note opt = step_optimal [OF m t less.prems(2), folded s_def]
  have loop: "build_loop m newpvt x z chain =
      (if \<not> newpvt (length chain) then Some (Alloc_failed chain) else build_loop m newpvt s z (chain @ [t]))"
    using t less.prems by (simp add: build_loop.simps [of m newpvt x] s_def)
  show ?case
  proof (cases "s = z")
    case True
    have "tr_chain ts x [t] z" "chain_cost [t] = tp_cost (m x z)" using opt(1,3) True by auto
    then show ?thesis
      using loop True by (intro exI [of _ "[t]"]) (auto simp: build_loop.simps [of m newpvt z])
  next
    case False
    from opt(4) [OF False] opt(2) have lt: "nat (tp_cost (m s z)) < nat (tp_cost (m x z))"
      and st: "tp_step (m s z) \<noteq> None" and cost: "tp_cost (m x z) = tr_cost t + tp_cost (m s z)" by auto
    obtain p where p: "tr_chain ts s p z" "chain_cost p = tp_cost (m s z)"
      "build_loop m newpvt s z (chain @ [t]) = Some (Path ((chain @ [t]) @ p)) \<or>
       (\<exists>k<length p. \<not> newpvt (length (chain @ [t]) + k) \<and>
          build_loop m newpvt s z (chain @ [t]) = Some (Alloc_failed ((chain @ [t]) @ take k p)))"
      using less.hyps [OF lt st False, of "chain @ [t]"] by blast
    have c: "tr_chain ts x (t # p) z" "chain_cost (t # p) = tp_cost (m x z)"
      using opt(1) p cost by auto
    show ?thesis
    proof (cases "newpvt (length chain)")
      case True
      from p(3) show ?thesis
      proof
        assume "build_loop m newpvt s z (chain @ [t]) = Some (Path ((chain @ [t]) @ p))"
        then show ?thesis using c True loop by (intro exI [of _ "t # p"]) simp
      next
        assume "\<exists>k<length p. \<not> newpvt (length (chain @ [t]) + k) \<and>
          build_loop m newpvt s z (chain @ [t]) = Some (Alloc_failed ((chain @ [t]) @ take k p))"
        then obtain k where "k < length p" "\<not> newpvt (length chain + Suc k)"
          "build_loop m newpvt s z (chain @ [t]) = Some (Alloc_failed (chain @ take (Suc k) (t # p)))" by auto
        then show ?thesis using c True loop
          by (intro exI [of _ "t # p"] conjI disjI2 exI [of _ "Suc k"]) auto
      qed
    next
      case False
      then show ?thesis using c loop by (intro exI [of _ "t # p"] conjI disjI2 exI [of _ 0]) auto
    qed
  qed
qed

section \<open>The registry\<close>

definition registry_ok :: "tr_state \<Rightarrow> bool" where
  "registry_ok st \<longleftrightarrow> matrix_ok (ts_translators st) (ts_matrix st)"

definition env_ok :: "cost_env \<Rightarrow> bool" where
  "env_ok env \<longleftrightarrow> 0 \<le> ce_elapsed env"

lemma calc_cost_ok:
  assumes "calc_cost env t seconds = Some t'" "env_ok env" "0 \<le> seconds"
  shows "1 \<le> tr_cost t'" "tr_srcfmt t' = tr_srcfmt t" "tr_dstfmt t' = tr_dstfmt t" "tr_active t' = tr_active t" "tr_id t' = tr_id t"
proof -
  have e: "0 \<le> ce_elapsed env" "0 < seconds \<Longrightarrow> 0 \<le> ce_elapsed env sdiv seconds"
    using assms(2) by (simp_all add: env_ok_def sdiv_nonneg pos_imp_zdiv_nonneg_iff)
  then show "1 \<le> tr_cost t'" "tr_srcfmt t' = tr_srcfmt t" "tr_dstfmt t' = tr_dstfmt t" "tr_active t' = tr_active t" "tr_id t' = tr_id t"
    using assms(1,3) by (auto simp: calc_cost_def Let_def split: if_splits Option.bind_splits)
qed

lemma those_Some: "those (map Some xs) = Some xs"
  by (induction xs) auto

lemma rebuild_matrix_ok:
  assumes "\<forall>t\<in>set (ts_translators st). translator_ok t"
  shows "\<exists>st'. rebuild_matrix envs 0 st = Some st' \<and> registry_ok st' \<and> ts_translators st' = ts_translators st"
proof -
  have "those (map Some (ts_translators st)) = Some (ts_translators st)" 
    by (rule those_Some)
  then show ?thesis
    using relax_until_stable_returns [OF assms direct_matrix] assms
    by (auto simp: rebuild_matrix_def registry_ok_def matrix_ok_def)
qed
lemma insert_before_dearer_set:
  "insert_before_dearer t us = Some (us', r) \<Longrightarrow>
   set us' \<union> set_option r = set us \<union> set_option t"
proof (induction t us arbitrary: us' r rule: insert_before_dearer.induct)
  case (3 t u us)
  show ?case
  proof (cases "tr_srcfmt u = tr_srcfmt t \<and> tr_dstfmt u = tr_dstfmt t \<and> tr_cost u > tr_cost t")
    case True
    with 3 show ?thesis by (cases us) auto
  next
    case False
    with 3 show ?thesis by auto
  qed
qed auto

datatype tr_op =
    Tr_register cost_env int bool ast_translator
  | Tr_unregister nat
  | Tr_activate nat
  | Tr_deactivate nat
  | Tr_recalc "ast_translator \<Rightarrow> cost_env" int

fun tr_step :: "tr_state \<Rightarrow> tr_op \<Rightarrow> tr_state option" where
  "tr_step st (Tr_register env align has_mod t) = map_option fst (ast_register_translator env align has_mod t st)"
| "tr_step st (Tr_unregister i) = map_option fst (ast_unregister_translator i st)"
| "tr_step st (Tr_activate i) = ast_translator_activate i st"
| "tr_step st (Tr_deactivate i) = ast_translator_deactivate i st"
| "tr_step st (Tr_recalc envs samples) = rebuild_matrix envs samples st"

fun tr_run :: "tr_state \<Rightarrow> tr_op list \<Rightarrow> tr_state option" where
  "tr_run st [] = Some st"
| "tr_run st (e # es) = Option.bind (tr_step st e) (\<lambda>st. tr_run st es)"

text \<open>The clock does not run backwards while a translator is timed.\<close>

fun tr_op_ok :: "tr_op \<Rightarrow> bool" where
  "tr_op_ok (Tr_register env align has_mod t) \<longleftrightarrow> env_ok env"
| "tr_op_ok (Tr_recalc envs samples) \<longleftrightarrow> (\<forall>t. env_ok (envs t)) \<and> 0 \<le> samples"
| "tr_op_ok _ \<longleftrightarrow> True"

definition tr_start :: tr_state where
  "tr_start = \<lparr> ts_translators = [], ts_matrix = empty_matrix \<rparr>"

lemma registry_start: "registry_ok tr_start"
  by (simp add: registry_ok_def tr_start_def matrix_ok_def entries_sound_def direct_known_def stable_def empty_matrix_def)

lemma powerof_range: "-1 \<le> powerof d" "powerof d < 32"
  by (auto simp: powerof_def find_Some_iff split: option.splits)

lemma register_ok:
  assumes st: "registry_ok st" "env_ok env" and r: "ast_register_translator env align has_mod t st = Some (st', c)"
  shows "registry_ok st'"
proof (cases "ts_translators st' = ts_translators st \<and> ts_matrix st' = ts_matrix st")
  case True
  with st show ?thesis by (simp add: registry_ok_def)
next
  case False
  let ?t = "t\<lparr> tr_srcfmt := powerof (tr_srcfmt t), tr_dstfmt := powerof (tr_dstfmt t), tr_active := True,
    tr_buf_size := round_up align (tr_buf_size t) \<rparr>"
  from r False obtain t' ts rest where
    t': "calc_cost env ?t 1 = Some t'" and f: "powerof (tr_srcfmt t) \<noteq> -1" "powerof (tr_dstfmt t) \<noteq> -1"
    and ins: "insert_before_dearer (Some t') (ts_translators st) = Some (ts, rest)"
    and reb: "rebuild_matrix (\<lambda>_. untimed) 0 (st\<lparr> ts_translators := (case rest of Some t \<Rightarrow> t # ts | None \<Rightarrow> ts) \<rparr>) = Some st'"
    by (auto simp: ast_register_translator_def Let_def split: if_splits Option.bind_splits)
  have "translator_ok t'"
    using calc_cost_ok [OF t' st(2)] f powerof_range [of "tr_srcfmt t"] powerof_range [of "tr_dstfmt t"]
    by (simp add: translator_ok_def MAX_FORMAT_def)
  then have "\<forall>t\<in>set (case rest of Some t \<Rightarrow> t # ts | None \<Rightarrow> ts). translator_ok t"
    using insert_before_dearer_set [OF ins] st(1) by (auto simp: registry_ok_def matrix_ok_def split: option.splits)
  with rebuild_matrix_ok [of "st\<lparr> ts_translators := (case rest of Some t \<Rightarrow> t # ts | None \<Rightarrow> ts) \<rparr>" "\<lambda>_. untimed"] reb
  show ?thesis by auto
qed

lemma those_recalc:
  "those (map f xs) = Some ys \<Longrightarrow> \<forall>y\<in>set ys. \<exists>x\<in>set xs. f x = Some y"
  by (induction xs arbitrary: ys) (fastforce split: option.splits)+

lemma recalc_ok:
  assumes st: "registry_ok st" "\<forall>t. env_ok (envs t)" "0 \<le> samples" and r: "rebuild_matrix envs samples st = Some st'"
  shows "registry_ok st'"
proof -
  obtain ts m where ts: "those (map (\<lambda>t. if tr_active t \<and> samples \<noteq> 0 then calc_cost (envs t) t samples else Some t) (ts_translators st)) = Some ts"
    and m: "relax_until_stable (fold direct_step ts empty_matrix) = Some m" and st': "st' = st\<lparr> ts_translators := ts, ts_matrix := m \<rparr>"
    using r by (auto simp: rebuild_matrix_def split: Option.bind_splits)
  have "translator_ok u" if u: "u \<in> set ts" for u
  proof -
    obtain t where t: "t \<in> set (ts_translators st)" "(if tr_active t \<and> samples \<noteq> 0 then calc_cost (envs t) t samples else Some t) = Some u"
      using bspec [OF those_recalc [OF ts] u] by blast
    have "translator_ok t" using t(1) st(1) by (simp add: registry_ok_def matrix_ok_def)
    with t(2) st show ?thesis
      using calc_cost_ok [of "envs t" t samples u] by (auto simp: translator_ok_def split: if_splits)
  qed
  then have ok: "\<forall>u\<in>set ts. translator_ok u" by blast
  from relax_until_stable_returns [OF ok direct_matrix] m ok show ?thesis
    by (auto simp: registry_ok_def matrix_ok_def st')
qed

lemma registry_step:
  assumes "registry_ok st" "tr_op_ok e" "tr_step st e = Some st'"
  shows "registry_ok st'"
proof (cases e)
  case (Tr_register env align has_mod t)
  with assms(3) obtain c where "ast_register_translator env align has_mod t st = Some (st', c)" by auto
  then show ?thesis using register_ok [OF assms(1), of env align has_mod t st' c] assms(2) Tr_register by simp
next
  case (Tr_unregister i)
  show ?thesis
  proof (cases "List.extract (\<lambda>u. tr_id u = i) (ts_translators st)")
    case None
    with assms Tr_unregister show ?thesis by (simp add: ast_unregister_translator_def)
  next
    case (Some r)
    obtain us u vs where r: "r = (us, u, vs)" by (cases r)
    have "ts_translators st = us @ u # vs" using Some by (simp add: r extract_Some_iff)
    then have "\<forall>t\<in>set (ts_translators (st\<lparr> ts_translators := us @ vs \<rparr>)). translator_ok t"
      using assms(1) by (simp add: registry_ok_def matrix_ok_def)
    from rebuild_matrix_ok [OF this, of "\<lambda>_. untimed"] show ?thesis
      using assms(3) Tr_unregister Some by (auto simp: ast_unregister_translator_def r)
  qed
next
  case (Tr_activate i)
  have "\<forall>t\<in>set (ts_translators (set_active True i st)). translator_ok t"
    using assms(1) by (auto simp: set_active_def registry_ok_def matrix_ok_def translator_ok_def)
  from rebuild_matrix_ok [OF this, of "\<lambda>_. untimed"] show ?thesis
    using assms Tr_activate by (auto simp: ast_translator_activate_def)
next
  case (Tr_deactivate i)
  have "\<forall>t\<in>set (ts_translators (set_active False i st)). translator_ok t"
    using assms(1) by (auto simp: set_active_def registry_ok_def matrix_ok_def translator_ok_def)
  from rebuild_matrix_ok [OF this, of "\<lambda>_. untimed"] show ?thesis
    using assms Tr_deactivate by (auto simp: ast_translator_deactivate_def)
next
  case (Tr_recalc envs samples)
  then show ?thesis using recalc_ok [OF assms(1), of envs samples st'] assms(2,3) by simp
qed

lemma registry_run: "registry_ok st \<Longrightarrow> \<forall>e\<in>set es. tr_op_ok e \<Longrightarrow> tr_run st es = Some st' \<Longrightarrow> registry_ok st'"
proof (induction es arbitrary: st)
  case (Cons e es)
  then obtain st1 where s: "tr_step st e = Some st1" "tr_run st1 es = Some st'" by (auto split: Option.bind_splits)
  have "registry_ok st1" using registry_step [OF Cons.prems(1) _ s(1)] Cons.prems(2) by simp
  with Cons.IH s(2) Cons.prems(2) show ?case by simp
qed simp
section \<open>Choosing formats\<close>

definition eligible :: "tr_state \<Rightarrow> int \<Rightarrow> int \<Rightarrow> nat \<times> nat \<Rightarrow> bool" where
  "eligible st dst srcs yx \<longleftrightarrow>
     (case yx of (y, x) \<Rightarrow> bit dst y \<and> bit srcs x \<and> tp_step (ts_matrix st x y) \<noteq> None)"

definition pair_cost :: "tr_state \<Rightarrow> nat \<times> nat \<Rightarrow> int" where
  "pair_cost st yx = (case yx of (y, x) \<Rightarrow> tp_cost (ts_matrix st x y))"

text \<open>The choice after some pairs have been tried.\<close>

definition choice_ok :: "tr_state \<Rightarrow> int \<Rightarrow> int \<Rightarrow> (nat \<times> nat) set \<Rightarrow> int \<times> int \<times> int \<times> int \<Rightarrow> bool" where
  "choice_ok st dst srcs S cand \<longleftrightarrow>
     (case cand of (best, bestdst, besttime, beststeps) \<Rightarrow>
        besttime \<le> 2 ^ 31 - 1 \<and> (\<forall>p\<in>S. eligible st dst srcs p \<longrightarrow> besttime \<le> pair_cost st p) \<and>
        (best = -1 \<and> besttime = 2 ^ 31 - 1 \<or>
         (\<exists>y x. (y, x) \<in> S \<and> eligible st dst srcs (y, x) \<and> best = 2 ^ x \<and> bestdst = 2 ^ y \<and> besttime = pair_cost st (y, x))))"

lemma better_pair_ok:
  assumes "choice_ok st dst srcs S cand"
  shows "choice_ok st dst srcs (insert (y, x) S) (better_pair st dst srcs (y, x) cand)"
proof -
  obtain best bestdst besttime beststeps where cand: "cand = (best, bestdst, besttime, beststeps)" by (cases cand)
  let ?e = "ts_matrix st x y"
  consider (skip) "\<not> eligible st dst srcs (y, x)"
    | (dear) "eligible st dst srcs (y, x)" "besttime < tp_cost ?e"
    | (same) "eligible st dst srcs (y, x)" "besttime = tp_cost ?e" "\<not> tp_multistep ?e < beststeps"
    | (better) "eligible st dst srcs (y, x)" "tp_cost ?e < besttime \<or> tp_cost ?e = besttime \<and> tp_multistep ?e < beststeps"
    by fastforce
  then show ?thesis
  proof cases
    case better
    then have b: "better_pair st dst srcs (y, x) cand = (2 ^ x, 2 ^ y, tp_cost ?e, tp_multistep ?e)"
      by (auto simp: better_pair_def eligible_def cand Let_def)
    from assms better show ?thesis
      unfolding b by (fastforce simp: choice_ok_def cand pair_cost_def)
  next
    case skip
    then have b: "better_pair st dst srcs (y, x) cand = cand" by (auto simp: better_pair_def eligible_def cand Let_def)
    show ?thesis unfolding b using assms skip by (auto simp: choice_ok_def cand pair_cost_def)
  next
    case dear
    then have b: "better_pair st dst srcs (y, x) cand = cand" by (auto simp: better_pair_def eligible_def cand Let_def)
    show ?thesis unfolding b using assms dear by (auto simp: choice_ok_def cand pair_cost_def)
  next
    case same
    then have b: "better_pair st dst srcs (y, x) cand = cand" by (auto simp: better_pair_def eligible_def cand Let_def)
    show ?thesis unfolding b using assms same by (auto simp: choice_ok_def cand pair_cost_def)
  qed
qed

lemma better_pairs_ok:
  "choice_ok st dst srcs S cand \<Longrightarrow> choice_ok st dst srcs (set ps \<union> S) (fold (better_pair st dst srcs) ps cand)"
proof (induction ps arbitrary: S cand)
  case (Cons p ps)
  obtain y x where p: "p = (y, x)" by (cases p)
  from Cons.IH [OF better_pair_ok [OF Cons.prems, of y x]] show ?case by (simp add: p)
qed simp

lemma bit_clear: "bit (res AND NOT (2 ^ x)) b \<longleftrightarrow> bit (res :: int) b \<and> b \<noteq> x"
  by (auto simp: bit_and_iff bit_not_iff bit_exp_iff)

lemma mask_unreachable_bit:
  "bit (mask_unreachable st dest src idx x res) b \<longleftrightarrow>
     bit res b \<and> (b = x \<and> bit dest x \<and> \<not> bit src x \<longrightarrow>
       tp_step (ts_matrix st idx x) \<noteq> None \<and> tp_step (ts_matrix st x idx) \<noteq> None)"
  by (auto simp: mask_unreachable_def bit_clear)

lemma fold_mask_bit:
  "bit (fold (mask_unreachable st dest src idx) xs res) b \<longleftrightarrow>
     bit res b \<and> (b \<in> set xs \<and> bit dest b \<and> \<not> bit src b \<longrightarrow>
       tp_step (ts_matrix st idx b) \<noteq> None \<and> tp_step (ts_matrix st b idx) \<noteq> None)"
  by (induction xs arbitrary: res) (auto simp: mask_unreachable_bit)

section \<open>Properties\<close>

text \<open>
  C3. After any sequence of registrations, removals, activations and new timings of translators,
  the matrix says for every two distinct formats whether a chain of active translators leads from
  one to the other, and if so the cost of a cheapest one.
\<close>

theorem translate_matrix_cheapest:
  assumes "\<forall>e\<in>set es. tr_op_ok e" "tr_run tr_start es = Some st" "x \<noteq> z"
  shows "if tp_step (ts_matrix st x z) = None then \<nexists>p. tr_chain (ts_translators st) x p z
    else (\<exists>p. tr_chain (ts_translators st) x p z \<and> tp_cost (ts_matrix st x z) = chain_cost p) \<and>
      (\<forall>p. tr_chain (ts_translators st) x p z \<longrightarrow> tp_cost (ts_matrix st x z) \<le> chain_cost p)"
proof -
  have m: "matrix_ok (ts_translators st) (ts_matrix st)"
    using registry_run [OF registry_start assms(1,2)] by (simp add: registry_ok_def)
  have low: "knows (ts_matrix st) x z (chain_cost p)" if "tr_chain (ts_translators st) x p z" for p
    using matrix_ok_cheapest [OF m that assms(3)] .
  show ?thesis
  proof (cases "tp_step (ts_matrix st x z)")
    case None
    with low show ?thesis by (auto simp: knows_def)
  next
    case (Some t)
    have "\<exists>p. tr_chain (ts_translators st) x p z \<and> tp_cost (ts_matrix st x z) = chain_cost p"
      using entries_soundD [of "ts_translators st" "ts_matrix st" x z t] m Some unfolding matrix_ok_def by blast
    with low Some show ?thesis by (auto simp: knows_def)
  qed
qed

text \<open>A translator from the format of index 2 to that of index 6, timed at 3 ms, and one onwards to index 1.\<close>

definition ex_timed :: "int \<Rightarrow> cost_env" where
  "ex_timed ms = \<lparr> ce_has_sample = True, ce_newpvt = True, ce_sample = (\<lambda>_. True), ce_out = (\<lambda>_. [8000]), ce_elapsed = ms \<rparr>"

definition ex_translator :: "nat \<Rightarrow> int \<Rightarrow> int \<Rightarrow> ast_translator" where
  "ex_translator i src dst =
     \<lparr> tr_id = i, tr_name = [], tr_srcfmt = src, tr_dstfmt = dst, tr_buf_size = 100, tr_cost = 0, tr_active = False \<rparr>"

definition ex_tr_ops :: "tr_op list" where
  "ex_tr_ops = [Tr_register (ex_timed 3) 8 True (ex_translator 0 AST_FORMAT_ULAW AST_FORMAT_SLINEAR),
                Tr_register (ex_timed 5) 8 True (ex_translator 1 AST_FORMAT_SLINEAR AST_FORMAT_GSM)]"

definition ex_tr_list :: "ast_translator list" where
  "ex_tr_list =
     [\<lparr> tr_id = 1, tr_name = [], tr_srcfmt = 6, tr_dstfmt = 1, tr_buf_size = 104, tr_cost = 5, tr_active = True \<rparr>,
      \<lparr> tr_id = 0, tr_name = [], tr_srcfmt = 2, tr_dstfmt = 6, tr_buf_size = 104, tr_cost = 3, tr_active = True \<rparr>]"

lemma ex_tr_run: "\<exists>st. tr_run tr_start ex_tr_ops = Some st \<and> ts_translators st = ex_tr_list"
proof -
  have t: "calc_cost (ex_timed 3) ((ex_translator 0 AST_FORMAT_ULAW AST_FORMAT_SLINEAR)\<lparr> tr_srcfmt := 2, tr_dstfmt := 6, tr_active := True, tr_buf_size := 104 \<rparr>) 1 =
      Some (ex_tr_list ! 1)"
    "calc_cost (ex_timed 5) ((ex_translator 1 AST_FORMAT_SLINEAR AST_FORMAT_GSM)\<lparr> tr_srcfmt := 6, tr_dstfmt := 1, tr_active := True, tr_buf_size := 104 \<rparr>) 1 =
      Some (ex_tr_list ! 0)"
    by code_simp+
  have p: "powerof AST_FORMAT_ULAW = 2" "powerof AST_FORMAT_SLINEAR = 6" "powerof AST_FORMAT_GSM = 1" "round_up 8 100 = 104"
    by code_simp+
  have ok: "\<forall>t\<in>set ex_tr_list. translator_ok t" by code_simp
  obtain st1 where 1: "rebuild_matrix (\<lambda>_. untimed) 0 \<lparr> ts_translators = [ex_tr_list ! 1], ts_matrix = empty_matrix \<rparr> = Some st1"
      "ts_translators st1 = [ex_tr_list ! 1]"
    using rebuild_matrix_ok [of "\<lparr> ts_translators = [ex_tr_list ! 1], ts_matrix = empty_matrix \<rparr>"] ok by (auto simp: ex_tr_list_def)
  obtain st2 where 2: "rebuild_matrix (\<lambda>_. untimed) 0 (st1\<lparr> ts_translators := ex_tr_list \<rparr>) = Some st2" "ts_translators st2 = ex_tr_list"
    using rebuild_matrix_ok [of "st1\<lparr> ts_translators := ex_tr_list \<rparr>"] ok by auto
  have "tr_step tr_start (ex_tr_ops ! 0) = Some st1"
    using 1 t(1) by (simp add: ex_tr_ops_def ast_register_translator_def p tr_start_def MAX_FORMAT_def ex_translator_def)
  moreover have "tr_step st1 (ex_tr_ops ! 1) = Some st2"
    using 1 2 t(2) by (simp add: ex_tr_ops_def ast_register_translator_def p MAX_FORMAT_def ex_translator_def ex_tr_list_def)
  ultimately show ?thesis using 2 by (auto simp: ex_tr_ops_def)
qed

lemma ex_tr_ops_ok: "\<forall>e\<in>set ex_tr_ops. tr_op_ok e"
  by (simp add: ex_tr_ops_def env_ok_def ex_timed_def)

lemma ex_tr_chain: "\<exists>q. tr_chain ex_tr_list 2 q (Suc 0) \<and> chain_cost q = 8"
  by (rule exI [of _ "[ex_tr_list ! 1, ex_tr_list ! 0]"]) (simp add: ex_tr_list_def)

theorem translate_matrix_cheapest_witness:
  "\<exists>st. tr_run tr_start ex_tr_ops = Some st \<and> tp_step (ts_matrix st 2 1) \<noteq> None \<and> tp_cost (ts_matrix st 2 1) \<le> 8"
proof -
  obtain st where st: "tr_run tr_start ex_tr_ops = Some st" "ts_translators st = ex_tr_list" using ex_tr_run by blast
  have "(2::nat) \<noteq> 1" by simp
  from translate_matrix_cheapest [OF ex_tr_ops_ok st(1) this] ex_tr_chain st show ?thesis
    by (auto split: if_splits)
qed

text \<open>
  C6. Building a path always ends. If it succeeds the chain leads from the source to the
  destination and no chain of active translators is cheaper; if there is no such chain at all it
  fails without having allocated anything; otherwise it fails only because an allocation failed.
\<close>

theorem translator_path_cheapest:
  assumes "\<forall>e\<in>set es. tr_op_ok e" "tr_run tr_start es = Some st" "powerof source \<noteq> -1" "powerof dest \<noteq> -1"
  shows "case ast_translator_build_path st newpvt dest source of
      None \<Rightarrow> False
    | Some (Path p) \<Rightarrow> tr_chain (ts_translators st) (nat (powerof source)) p (nat (powerof dest)) \<and>
        (\<forall>q. tr_chain (ts_translators st) (nat (powerof source)) q (nat (powerof dest)) \<longrightarrow> chain_cost p \<le> chain_cost q)
    | Some (No_path leaked) \<Rightarrow> leaked = [] \<and>
        (\<nexists>q. tr_chain (ts_translators st) (nat (powerof source)) q (nat (powerof dest)))
    | Some (Alloc_failed freed) \<Rightarrow> (\<exists>k. \<not> newpvt k)"
proof -
  let ?x = "nat (powerof source)" and ?z = "nat (powerof dest)" and ?m = "ts_matrix st"
  have m: "matrix_ok (ts_translators st) ?m"
    using registry_run [OF registry_start assms(1,2)] by (simp add: registry_ok_def)
  have ok: "\<forall>t\<in>set (ts_translators st). translator_ok t" using m by (simp add: matrix_ok_def)
  have b: "ast_translator_build_path st newpvt dest source = build_loop ?m newpvt ?x ?z []"
    using assms(3,4) by (simp add: ast_translator_build_path_def)
  consider (same) "?x = ?z" | (none) "?x \<noteq> ?z" "tp_step (?m ?x ?z) = None" | (step) "?x \<noteq> ?z" "tp_step (?m ?x ?z) \<noteq> None" by blast
  then show ?thesis
  proof cases
    case same
    then show ?thesis using chain_cost_nonneg [OF ok] by (simp add: b build_loop.simps)
  next
    case none
    then have "\<not> tr_chain (ts_translators st) ?x q ?z" for q
      using matrix_ok_cheapest [OF m _ none(1), of q] by (auto simp: knows_def)
    with none show ?thesis by (simp add: b build_loop.simps [of ?m newpvt ?x])
  next
    case step
    have "chain_cost p \<le> chain_cost q"
      if "chain_cost p = tp_cost (?m ?x ?z)" "tr_chain (ts_translators st) ?x q ?z" for p q
      using matrix_ok_cheapest [OF m that(2) step(1)] that(1) by (simp add: knows_def)
    with build_loop_builds [OF m step(2,1), of newpvt "[]"] show ?thesis by (auto simp: b)
  qed
qed

theorem translator_path_cheapest_witness:
  "\<exists>st. tr_run tr_start ex_tr_ops = Some st \<and>
     (case ast_translator_build_path st (\<lambda>_. True) AST_FORMAT_GSM AST_FORMAT_ULAW of
        Some (Path p) \<Rightarrow> tr_chain ex_tr_list 2 p 1 \<and> chain_cost p \<le> 8 | _ \<Rightarrow> False)"
proof -
  obtain st where st: "tr_run tr_start ex_tr_ops = Some st" "ts_translators st = ex_tr_list" using ex_tr_run by blast
  have p: "powerof AST_FORMAT_ULAW = 2" "powerof AST_FORMAT_GSM = 1" by code_simp+
  obtain q where q: "tr_chain ex_tr_list 2 q (Suc 0)" "chain_cost q = 8" using ex_tr_chain by blast
  from translator_path_cheapest [OF ex_tr_ops_ok st(1), of AST_FORMAT_ULAW AST_FORMAT_GSM "\<lambda>_. True"]
  have "case ast_translator_build_path st (\<lambda>_. True) AST_FORMAT_GSM AST_FORMAT_ULAW of
        Some (Path p) \<Rightarrow> tr_chain ex_tr_list 2 p 1 \<and> chain_cost p \<le> 8 | _ \<Rightarrow> False"
    using q by (auto simp: p st(2) split: option.splits build_result.splits)
  with st show ?thesis by blast
qed

text \<open>
  C29. The choice of formats for a bridge: a format both sides know is taken if there is one;
  otherwise the chosen source and destination are offered and translatable, and no other offered
  pair is cheaper. It fails only if no offered pair is translatable at a cost below \<open>INT_MAX\<close>.
\<close>

theorem best_choice_cheapest:
  assumes "ast_translator_best_choice st dst srcs = (dst', srcs', r)"
  shows "if (dst AND srcs) AND AST_FORMAT_AUDIO_MASK \<noteq> 0
    then r = 0 \<and> dst' = srcs' \<and> (\<exists>y\<le>15. dst' = 2 ^ y \<and> bit dst y \<and> bit srcs y)
    else if r = 0
    then \<exists>y x. y \<le> 15 \<and> x \<le> 15 \<and> dst' = 2 ^ y \<and> srcs' = 2 ^ x \<and> eligible st dst srcs (y, x) \<and>
      (\<forall>y' x'. y' \<le> 15 \<longrightarrow> x' \<le> 15 \<longrightarrow> eligible st dst srcs (y', x') \<longrightarrow> pair_cost st (y, x) \<le> pair_cost st (y', x'))
    else r = -1 \<and> dst' = dst \<and> srcs' = srcs \<and>
      (\<forall>y x. y \<le> 15 \<longrightarrow> x \<le> 15 \<longrightarrow> eligible st dst srcs (y, x) \<longrightarrow> 2 ^ 31 - 1 \<le> pair_cost st (y, x))"
proof (cases "(dst AND srcs) AND AST_FORMAT_AUDIO_MASK = 0")
  case True
  let ?ps = "[(y, x). y \<leftarrow> [0..<MAX_AUDIO_FORMAT + 1], x \<leftarrow> [0..<MAX_AUDIO_FORMAT + 1]]"
  obtain best bestdst besttime beststeps where
    f: "fold (better_pair st dst srcs) ?ps (-1, 0, 2 ^ 31 - 1, 2 ^ 31 - 1) = (best, bestdst, besttime, beststeps)"
    by (metis prod_cases4)
  have "choice_ok st dst srcs {} (-1, 0, 2 ^ 31 - 1, 2 ^ 31 - 1)" by (simp add: choice_ok_def)
  define P where "P = set ?ps"
  from better_pairs_ok [OF \<open>choice_ok st dst srcs {} _\<close>, of ?ps]
  have c: "choice_ok st dst srcs P (best, bestdst, besttime, beststeps)"
    by (simp only: f Un_empty_right P_def)
  have mem: "(y, x) \<in> P \<longleftrightarrow> y \<le> 15 \<and> x \<le> 15" for y x by (auto simp: P_def MAX_AUDIO_FORMAT_def image_iff)
  have res: "(dst', srcs', r) = (if best > -1 then (bestdst, best, 0) else (dst, srcs, best))"
    using assms True f by (simp add: ast_translator_best_choice_def)
  show ?thesis
  proof (cases "best = -1")
    case best: True
    moreover have "(2::int) ^ x \<noteq> -1" for x using zero_le_power [of "2::int" x] by linarith
    ultimately have "besttime = 2 ^ 31 - 1" using c by (force simp: choice_ok_def)
    with c res best True mem show ?thesis by (auto simp: choice_ok_def)
  next
    case False
    with c obtain y x where yx: "(y, x) \<in> P" "eligible st dst srcs (y, x)" "best = 2 ^ x" "bestdst = 2 ^ y"
      "besttime = pair_cost st (y, x)" by (auto simp: choice_ok_def)
    have "(-1::int) < 2 ^ x" using zero_le_power [of "2::int" x] by linarith
    then have "r = 0" "dst' = 2 ^ y" "srcs' = 2 ^ x" using res yx(3,4) by simp_all
    moreover have "\<forall>y' x'. y' \<le> 15 \<longrightarrow> x' \<le> 15 \<longrightarrow> eligible st dst srcs (y', x') \<longrightarrow> pair_cost st (y, x) \<le> pair_cost st (y', x')"
    proof (intro allI impI)
      fix y' x' :: nat
      assume "y' \<le> 15" "x' \<le> 15" "eligible st dst srcs (y', x')"
      then have "(y', x') \<in> P" using mem by simp
      with c yx(5) \<open>eligible st dst srcs (y', x')\<close> show "pair_cost st (y, x) \<le> pair_cost st (y', x')"
        by (simp only: choice_ok_def prod.case)
    qed
    ultimately show ?thesis using True yx(1,2) mem by auto
  qed
next
  case False
  let ?c = "(dst AND srcs) AND AST_FORMAT_AUDIO_MASK"
  have mask: "AST_FORMAT_AUDIO_MASK = mask 16" by (simp add: AST_FORMAT_AUDIO_MASK_def mask_eq_exp_minus_1)
  have "?c = 0" if "\<nexists>n. bit ?c n" using that by (intro bit_eqI) simp
  with False obtain n where "bit ?c n" by blast
  then have "n < 16" by (simp add: mask bit_and_iff bit_mask_iff)
  obtain y where y: "find (\<lambda>y. bit ?c y) [0..<MAX_AUDIO_FORMAT + 1] = Some y" "y \<le> 15" "bit ?c y"
  proof (cases "find (\<lambda>y. bit ?c y) [0..<MAX_AUDIO_FORMAT + 1]")
    case None
    with \<open>bit ?c n\<close> \<open>n < 16\<close> show thesis by (auto simp: find_None_iff MAX_AUDIO_FORMAT_def)
  next
    case (Some y)
    moreover from Some have "y \<le> 15" "bit ?c y" by (auto simp: find_Some_iff MAX_AUDIO_FORMAT_def)
    ultimately show thesis by (rule that)
  qed
  from assms False y(1) have "(dst', srcs', r) = (2 ^ y, 2 ^ y, 0)"
    by (simp add: ast_translator_best_choice_def Let_def del: upt_Suc)
  with False y(2,3) show ?thesis by (auto simp: bit_and_iff)
qed

theorem best_choice_cheapest_witness:
  "\<exists>y x. (8 :: int) = 2 ^ y \<and> (4 :: int) = 2 ^ x \<and>
     pair_cost (tr_start\<lparr> ts_matrix := (\<lambda>x z. \<lparr> tp_step = Some (ex_translator 0 2 3), tp_cost = int (x + z), tp_multistep = 0 \<rparr>) \<rparr>) (y, x) \<le> 5"
proof -
  let ?st = "tr_start\<lparr> ts_matrix := (\<lambda>x z. \<lparr> tp_step = Some (ex_translator 0 2 3), tp_cost = int (x + z), tp_multistep = 0 \<rparr>) \<rparr>"
  have "ast_translator_best_choice ?st 8 4 = (8, 4, 0)" by code_simp
  from best_choice_cheapest [OF this] obtain y x :: nat where "(8 :: int) = 2 ^ y" "(4 :: int) = 2 ^ x"
    and low: "\<forall>y' x'. y' \<le> 15 \<longrightarrow> x' \<le> 15 \<longrightarrow> eligible ?st 8 4 (y', x') \<longrightarrow> pair_cost ?st (y, x) \<le> pair_cost ?st (y', x')"
    by (auto simp: AST_FORMAT_AUDIO_MASK_def)
  moreover have "eligible ?st 8 4 (3, 2)" "pair_cost ?st (3, 2) = 5" by code_simp+
  ultimately show ?thesis using low [rule_format, of 3 2] by auto
qed

lemma insert_before_dearer_gone: "insert_before_dearer None us = (if us = [] then Some ([], None) else None)"
  by (cases us) auto

text \<open>
  C40. Registering a translator that is cheaper than a registered one between the same formats
  follows a null pointer whenever the dearer one is not the last of the list: the loop goes on
  after it has cleared the pointer to the new translator.
\<close>

theorem register_cheaper_crashes:
  assumes "tr_buf_size t \<noteq> 0" "powerof (tr_srcfmt t) \<noteq> -1" "powerof (tr_dstfmt t) \<noteq> -1"
    and "calc_cost env (t\<lparr> tr_srcfmt := powerof (tr_srcfmt t), tr_dstfmt := powerof (tr_dstfmt t), tr_active := True,
      tr_buf_size := round_up align (tr_buf_size t) \<rparr>) 1 = Some t'"
    and "ts_translators st = us @ u # v # vs" "tr_srcfmt u = tr_srcfmt t'" "tr_dstfmt u = tr_dstfmt t'" "tr_cost t' < tr_cost u"
  shows "ast_register_translator env align True t st = None"
proof -
  have "insert_before_dearer (Some t') (us @ u # v # vs) = None"
    using assms(6-8) by (induction us) (auto simp: insert_before_dearer_gone)
  then show ?thesis
    using assms(1-5) powerof_range [of "tr_srcfmt t"] powerof_range [of "tr_dstfmt t"]
    by (simp add: ast_register_translator_def Let_def MAX_FORMAT_def)
qed

theorem register_cheaper_crashes_witness:
  "\<exists>st. tr_run tr_start ex_tr_ops = Some st \<and>
     ast_register_translator (ex_timed 2) 8 True (ex_translator 2 AST_FORMAT_SLINEAR AST_FORMAT_GSM) st = None"
proof -
  obtain st where st: "tr_run tr_start ex_tr_ops = Some st" "ts_translators st = ex_tr_list" using ex_tr_run by blast
  have p: "powerof AST_FORMAT_SLINEAR = 6" "powerof AST_FORMAT_GSM = 1" "round_up 8 100 = 104" by code_simp+
  have t: "calc_cost (ex_timed 2) ((ex_translator 2 AST_FORMAT_SLINEAR AST_FORMAT_GSM)\<lparr> tr_srcfmt := 6, tr_dstfmt := 1, tr_active := True, tr_buf_size := 104 \<rparr>) 1 =
      Some \<lparr> tr_id = 2, tr_name = [], tr_srcfmt = 6, tr_dstfmt = 1, tr_buf_size = 104, tr_cost = 2, tr_active = True \<rparr>"
    by code_simp
  have "ast_register_translator (ex_timed 2) 8 True (ex_translator 2 AST_FORMAT_SLINEAR AST_FORMAT_GSM) st = None"
    by (rule register_cheaper_crashes [where t' = "(ex_translator 2 6 1)\<lparr> tr_buf_size := 104, tr_cost := 2, tr_active := True \<rparr>" and us = "[]" and u = "ex_tr_list ! 0" and v = "ex_tr_list ! 1" and vs = "[]"])
      (use t p st(2) in \<open>simp_all add: ex_translator_def ex_tr_list_def\<close>)
  with st show ?thesis by blast
qed

text \<open>
  Masking the formats a source cannot be translated to: with an audio source other than
  G.723.1 and no video, exactly those audio formats are removed that the source does not have and
  that cannot be reached from it and back.
\<close>

theorem available_formats_masks:
  assumes "src AND AST_FORMAT_AUDIO_MASK \<noteq> 0" "src AND AST_FORMAT_VIDEO_MASK = 0" "0 < powerof (src AND AST_FORMAT_AUDIO_MASK)"
  shows "bit (ast_translate_available_formats st dest src) b \<longleftrightarrow> bit dest b \<and>
    (b < 15 \<and> \<not> bit src b \<longrightarrow>
      tp_step (ts_matrix st (nat (powerof (src AND AST_FORMAT_AUDIO_MASK))) b) \<noteq> None \<and>
      tp_step (ts_matrix st b (nat (powerof (src AND AST_FORMAT_AUDIO_MASK)))) \<noteq> None)"
proof -
  have "src \<noteq> 0" using assms(1) by auto
  then show ?thesis
    using assms by (auto simp: ast_translate_available_formats_def Let_def fold_mask_bit)
qed

theorem available_formats_masks_witness:
  "\<not> bit (ast_translate_available_formats tr_start (AST_FORMAT_ULAW OR AST_FORMAT_GSM) AST_FORMAT_ULAW) 1"
proof -
  have "AST_FORMAT_ULAW AND AST_FORMAT_AUDIO_MASK \<noteq> 0" "AST_FORMAT_ULAW AND AST_FORMAT_VIDEO_MASK = 0"
    "0 < powerof (AST_FORMAT_ULAW AND AST_FORMAT_AUDIO_MASK)" by code_simp+
  from available_formats_masks [OF this, of tr_start "AST_FORMAT_ULAW OR AST_FORMAT_GSM" 1] show ?thesis
    by (simp add: tr_start_def empty_matrix_def AST_FORMAT_ULAW_def)
qed

text \<open>
  With G.723.1 as the source nothing is masked, whatever can be translated: its index is 0, which
  the function takes for no audio source.
\<close>

theorem available_formats_g723:
  "ast_translate_available_formats st dest AST_FORMAT_G723_1 = dest"
proof -
  have "AST_FORMAT_G723_1 AND AST_FORMAT_AUDIO_MASK = 1" "AST_FORMAT_G723_1 AND AST_FORMAT_VIDEO_MASK = 0" "powerof 1 = 0" "AST_FORMAT_G723_1 \<noteq> 0"
    by code_simp+
  then show ?thesis by (simp add: ast_translate_available_formats_def)
qed

end
