(* ===== verification/Frame.thy ===== *)
theory Frame
  imports Timeval
begin

text \<open>
  Frames, the unit in which channels exchange media (\<open>include/asterisk/frame.h\<close>), and the
  functions of \<open>main/frame.c\<close> that duplicate, isolate and free them.

  \<^item> \<open>f_data\<close> is the data pointer: \<open>None\<close> when null, otherwise the octets it designates. The bits
    of \<open>mallocd\<close> are three flags. The list link is not a field: chains of frames are lists.
  \<^item> \<open>f_addr\<close> is the address of a frame whose header is a block of the allocator, and \<open>f_hdr_len\<close> the
    recorded size of that block. The cache of frame headers of a thread is the list of the addresses
    and sizes of the cached blocks; it is \<open>None\<close> when the thread storage cannot be obtained.
  \<^item> \<open>hs\<close> is \<open>sizeof(struct ast_frame)\<close>, and \<open>alloc\<close> is the answer of the allocator to a request for
    a header: the address of a new block, or \<open>None\<close>.
  \<^item> \<open>None\<close> at the outer level of a result is an access outside a buffer.
\<close>

section \<open>Data\<close>

text \<open>\<open>AST_FRAME_ZERO\<close> is the value 0 of a cleared header, which the enumeration does not name.\<close>

datatype ast_frame_type =
    AST_FRAME_ZERO | AST_FRAME_DTMF_END | AST_FRAME_VOICE | AST_FRAME_VIDEO | AST_FRAME_CONTROL
  | AST_FRAME_NULL | AST_FRAME_IAX | AST_FRAME_TEXT | AST_FRAME_IMAGE | AST_FRAME_HTML
  | AST_FRAME_CNG | AST_FRAME_MODEM | AST_FRAME_DTMF_BEGIN

abbreviation AST_FRAME_DTMF :: ast_frame_type where "AST_FRAME_DTMF \<equiv> AST_FRAME_DTMF_END"

definition AST_FRIENDLY_OFFSET :: nat where "AST_FRIENDLY_OFFSET = 64"
definition AST_MIN_OFFSET :: int where "AST_MIN_OFFSET = 32"
definition FRAME_CACHE_MAX_SIZE :: nat where "FRAME_CACHE_MAX_SIZE = 10"

record ast_frame =
  f_addr :: nat
  f_type :: ast_frame_type
  f_subclass :: int
  f_datalen :: nat
  f_samples :: int
  f_hdr :: bool
  f_hdr_len :: nat
  f_offset :: int
  f_src :: "string option"
  f_data :: "byte list option"
  f_delivery :: timeval
  f_timing :: bool
  f_ts :: int
  f_len :: int
  f_seqno :: int
  f_dat :: bool
  f_srcm :: bool

text \<open>A cleared header.\<close>

definition zero_frame :: ast_frame where
  "zero_frame =
     \<lparr> f_addr = 0, f_type = AST_FRAME_ZERO, f_subclass = 0, f_datalen = 0, f_samples = 0, f_hdr = False,
       f_hdr_len = 0, f_offset = 0, f_src = None, f_data = None, f_delivery = Tv 0 0,
       f_timing = False, f_ts = 0, f_len = 0, f_seqno = 0, f_dat = False, f_srcm = False \<rparr>"

record ast_frame_cache =
  fc_list :: "(nat \<times> nat) list"
  fc_size :: nat

section \<open>Operations\<close>

definition ast_frame_header_new ::
    "nat \<Rightarrow> nat option \<Rightarrow> ast_frame_cache option \<Rightarrow> ast_frame_cache option \<times> ast_frame option" where
  "ast_frame_header_new hs alloc cache =
     (let new = map_option (\<lambda>a. zero_frame\<lparr> f_addr := a, f_hdr_len := hs \<rparr>) alloc in
      case cache of
        Some c \<Rightarrow>
          (case fc_list c of
             (a, sz) # rest \<Rightarrow>
               (Some (c\<lparr> fc_list := rest, fc_size := fc_size c - 1 \<rparr>),
                Some (zero_frame\<lparr> f_addr := a, f_hdr_len := sz, f_hdr := True \<rparr>))
           | [] \<Rightarrow> (cache, new))
      | None \<Rightarrow> (cache, new))"

datatype freed = Freed_data | Freed_src | Freed_hdr nat

text \<open>\<open>__frame_free\<close>: the new cache and the blocks given back to the allocator.\<close>

definition frame_free1 :: "bool \<Rightarrow> ast_frame_cache option \<Rightarrow> ast_frame \<Rightarrow> ast_frame_cache option \<times> freed list" where
  "frame_free1 use_cache cache fr =
     (if \<not> f_hdr fr \<and> \<not> f_dat fr \<and> \<not> f_srcm fr then (cache, [])
      else
        let freed = (if f_dat fr \<and> f_data fr \<noteq> None then [Freed_data] else []) @
                    (if f_srcm fr \<and> f_src fr \<noteq> None then [Freed_src] else []) @
                    (if f_hdr fr then [Freed_hdr (f_addr fr)] else [])
        in if use_cache \<and> f_hdr fr \<and> \<not> f_dat fr \<and> \<not> f_srcm fr then
             (case cache of
                None \<Rightarrow> (cache, freed)
              | Some c \<Rightarrow>
                  if fc_size c < FRAME_CACHE_MAX_SIZE
                  then (Some (c\<lparr> fc_list := (f_addr fr, f_hdr_len fr) # fc_list c, fc_size := fc_size c + 1 \<rparr>), [])
                  else (cache, freed))
           else (cache, freed))"

text \<open>\<open>ast_frame_free\<close> on the chain that starts with the frame.\<close>

fun ast_frame_free ::
    "bool \<Rightarrow> ast_frame_cache option \<Rightarrow> ast_frame list \<Rightarrow> ast_frame_cache option \<times> freed list" where
  "ast_frame_free use_cache cache [] = (cache, [])"
| "ast_frame_free use_cache cache (fr # rest) =
     (let (cache, freed) = frame_free1 use_cache cache fr;
          (cache, freed') = ast_frame_free use_cache cache rest
      in (cache, freed @ freed'))"

text \<open>The search of \<open>ast_frdup\<close> for a cached block of at least the length.\<close>

fun frame_cache_take :: "nat \<Rightarrow> (nat \<times> nat) list \<Rightarrow> ((nat \<times> nat) \<times> (nat \<times> nat) list) option" where
  "frame_cache_take len [] = None"
| "frame_cache_take len (b # rest) =
     (if snd b \<ge> len then Some (b, rest)
      else map_option (\<lambda>(c, rest). (c, b # rest)) (frame_cache_take len rest))"

definition frdup_len :: "nat \<Rightarrow> ast_frame \<Rightarrow> nat" where
  "frdup_len hs f =
     (let srclen = (case f_src f of None \<Rightarrow> 0 | Some s \<Rightarrow> length s)
      in hs + AST_FRIENDLY_OFFSET + f_datalen f + (if srclen > 0 then srclen + 1 else 0))"

definition ast_frdup ::
    "nat \<Rightarrow> nat option \<Rightarrow> ast_frame_cache option \<Rightarrow> ast_frame
      \<Rightarrow> (ast_frame_cache option \<times> ast_frame option) option" where
  "ast_frdup hs alloc cache f =
     (let len = frdup_len hs f;
          (cache, block) =
            (case Option.bind cache (\<lambda>c. frame_cache_take len (fc_list c)) of
               Some (b, rest) \<Rightarrow>
                 (map_option (\<lambda>c. c\<lparr> fc_list := rest, fc_size := fc_size c - 1 \<rparr>) cache, Some b)
             | None \<Rightarrow> (cache, map_option (\<lambda>a. (a, len)) alloc))
      in case block of
           None \<Rightarrow> Some (cache, None)
         | Some (a, sz) \<Rightarrow>
             let data = (if f_datalen f = 0 then Some None
                         else case f_data f of
                             None \<Rightarrow> None
                           | Some d \<Rightarrow> if f_datalen f \<le> length d then Some (Some (take (f_datalen f) d)) else None)
             in map_option (\<lambda>data.
                  (cache, Some (zero_frame\<lparr> f_addr := a, f_hdr_len := sz, f_type := f_type f, f_subclass := f_subclass f,
                     f_datalen := f_datalen f, f_samples := f_samples f, f_delivery := f_delivery f,
                     f_hdr := True, f_offset := int AST_FRIENDLY_OFFSET, f_data := data,
                     f_src := (case f_src f of None \<Rightarrow> None | Some s \<Rightarrow> if length s > 0 then Some s else None),
                     f_timing := f_timing f, f_ts := f_ts f, f_len := f_len f, f_seqno := f_seqno f \<rparr>)))
                data)"

text \<open>
  \<open>ast_frisolate\<close>. The results are the frame passed in, as the function leaves it, and the frame
  returned with the flag that it is the same object. \<open>allocs\<close> is the answer to the allocation of the
  header, and whether those of the source and the data succeed.
\<close>

definition frisolate_header ::
    "nat \<Rightarrow> nat option \<Rightarrow> ast_frame_cache option \<Rightarrow> ast_frame \<Rightarrow> ast_frame_cache option \<times> ast_frame option \<times> bool" where
  "frisolate_header hs alloc cache fr =
     (if \<not> f_hdr fr then
        (case ast_frame_header_new hs alloc cache of
           (cache, None) \<Rightarrow> (cache, None, False)
         | (cache, Some out) \<Rightarrow>
             let out = out\<lparr> f_type := f_type fr, f_subclass := f_subclass fr, f_datalen := f_datalen fr,
                            f_samples := f_samples fr, f_offset := f_offset fr, f_timing := f_timing fr \<rparr>;
                 out = (if f_timing fr then out\<lparr> f_ts := f_ts fr, f_len := f_len fr, f_seqno := f_seqno fr \<rparr>
                        else out)
             in (cache, Some out, False))
      else (cache, Some fr, True))"

definition frisolate_rest ::
    "bool \<Rightarrow> bool \<Rightarrow> ast_frame \<Rightarrow> ast_frame \<Rightarrow> bool \<Rightarrow> (ast_frame \<times> (ast_frame \<times> bool) option) option" where
  "frisolate_rest alloc_src alloc_data fr out same =
     (let dup_src = (\<not> f_srcm fr \<and> f_src fr \<noteq> None) in
      if dup_src \<and> \<not> alloc_src then Some (if same then fr\<lparr> f_src := None \<rparr> else fr, None)
      else
        let out = out\<lparr> f_src := f_src fr \<rparr>;
            fr = (if dup_src then fr else fr\<lparr> f_src := None, f_srcm := False \<rparr>);
            out = (if same then fr else out)
        in
        if \<not> f_dat fr then
          if \<not> alloc_data then Some (fr, None)
          else
            let d = (case f_data fr of None \<Rightarrow> [] | Some d \<Rightarrow> d);
                out = out\<lparr> f_offset := int AST_FRIENDLY_OFFSET, f_datalen := f_datalen fr,
                           f_data := Some (take (f_datalen fr) d), f_hdr := True, f_dat := True, f_srcm := True \<rparr>
            in if f_datalen fr \<le> length d then Some (if same then out else fr, Some (out, same)) else None
        else
          let out = out\<lparr> f_data := f_data fr \<rparr>;
              fr = fr\<lparr> f_data := None, f_dat := False \<rparr>;
              out = (if same then fr else out)\<lparr> f_hdr := True, f_dat := True, f_srcm := True \<rparr>
          in Some (if same then out else fr, Some (out, same)))"

definition ast_frisolate ::
    "nat \<Rightarrow> nat option \<times> bool \<times> bool \<Rightarrow> ast_frame_cache option \<Rightarrow> ast_frame
      \<Rightarrow> (ast_frame_cache option \<times> ast_frame \<times> (ast_frame \<times> bool) option) option" where
  "ast_frisolate hs allocs cache fr =
     (case allocs of (alloc_hdr, alloc_src, alloc_data) \<Rightarrow>
      if \<not> f_hdr fr \<and> \<not> f_dat fr \<and> \<not> f_srcm fr then
        map_option (\<lambda>(cache, out). (cache, fr, map_option (\<lambda>out. (out, False)) out))
          (ast_frdup hs alloc_hdr cache fr)
      else if f_hdr fr \<and> f_dat fr \<and> f_srcm fr then Some (cache, fr, Some (fr, True))
      else
        case frisolate_header hs alloc_hdr cache fr of
          (cache, None, same) \<Rightarrow> Some (cache, fr, None)
        | (cache, Some out, same) \<Rightarrow>
            map_option (\<lambda>(fr, r). (cache, fr, r)) (frisolate_rest alloc_src alloc_data fr out same))"

section \<open>The cache of headers\<close>

lemma frame_cache_take_some:
  "frame_cache_take len xs = Some (b, rest) \<Longrightarrow>
     len \<le> snd b \<and> mset xs = add_mset b (mset rest) \<and> length xs = Suc (length rest)"
  by (induction xs arbitrary: rest) (auto split: if_splits)

definition cache_ok :: "nat \<Rightarrow> ast_frame_cache option \<Rightarrow> bool" where
  "cache_ok hs cache \<longleftrightarrow>
     (case cache of
        None \<Rightarrow> True
      | Some c \<Rightarrow> fc_size c = length (fc_list c) \<and> fc_size c \<le> FRAME_CACHE_MAX_SIZE \<and>
                  (\<forall>b\<in>set (fc_list c). hs \<le> snd b))"

text \<open>The blocks in the cache, and the block of a frame.\<close>

definition cached :: "ast_frame_cache option \<Rightarrow> (nat \<times> nat) list" where
  "cached cache = (case cache of None \<Rightarrow> [] | Some c \<Rightarrow> fc_list c)"

definition block_of :: "ast_frame \<Rightarrow> nat \<times> nat" where
  "block_of f = (f_addr f, f_hdr_len f)"

text \<open>The frame's data pointer covers \<open>datalen\<close> octets.\<close>

definition frame_readable :: "ast_frame \<Rightarrow> bool" where
  "frame_readable f \<longleftrightarrow> f_datalen f = 0 \<or> (\<exists>d. f_data f = Some d \<and> f_datalen f \<le> length d)"

text \<open>What a consumer of a frame reads.\<close>

definition frame_octets :: "ast_frame \<Rightarrow> byte list" where
  "frame_octets f = (case f_data f of None \<Rightarrow> [] | Some d \<Rightarrow> take (f_datalen f) d)"

definition frame_content ::
    "ast_frame \<Rightarrow> ast_frame_type \<times> int \<times> nat \<times> int \<times> byte list \<times> timeval \<times> bool \<times> int \<times> int \<times> int \<times> string" where
  "frame_content f =
     (f_type f, f_subclass f, f_datalen f, f_samples f, if f_datalen f = 0 then [] else frame_octets f,
      f_delivery f, f_timing f, f_ts f, f_len f, f_seqno f, case f_src f of None \<Rightarrow> [] | Some s \<Rightarrow> s)"

text \<open>A frame in one block, as \<open>ast_frdup\<close> makes it: the block has room for everything in it.\<close>

definition one_block :: "nat \<Rightarrow> ast_frame \<Rightarrow> bool" where
  "one_block hs f \<longleftrightarrow> f_hdr f \<and> \<not> f_dat f \<and> \<not> f_srcm f \<and> frdup_len hs f \<le> f_hdr_len f \<and> frame_readable f"

lemma frdup_len_hs: "hs \<le> frdup_len hs f"
  by (simp add: frdup_len_def Let_def)

lemma ast_frdup_cases:
  assumes "cache_ok hs cache" "frame_readable f" "ast_frdup hs alloc cache f = Some (cache', r)"
  obtains (failed) "r = None" "alloc = None" "cache' = cache"
  | (fresh) out a where "r = Some out" "one_block hs out" "frame_content out = frame_content f" "cache' = cache"
      "alloc = Some a" "block_of out = (a, frdup_len hs f)"
  | (reused) out where "r = Some out" "one_block hs out" "frame_content out = frame_content f"
      "cache_ok hs cache'" "mset (cached cache) = add_mset (block_of out) (mset (cached cache'))"
proof -
  define out where "out a sz = zero_frame\<lparr> f_addr := a, f_hdr_len := sz, f_type := f_type f, f_subclass := f_subclass f,
     f_datalen := f_datalen f, f_samples := f_samples f, f_delivery := f_delivery f,
     f_hdr := True, f_offset := int AST_FRIENDLY_OFFSET,
     f_data := (if f_datalen f = 0 then None else Some (take (f_datalen f) (the (f_data f)))),
     f_src := (case f_src f of None \<Rightarrow> None | Some s \<Rightarrow> if length s > 0 then Some s else None),
     f_timing := f_timing f, f_ts := f_ts f, f_len := f_len f, f_seqno := f_seqno f \<rparr>" for a sz
  have data: "(if f_datalen f = 0 then Some None
      else case f_data f of None \<Rightarrow> None
         | Some d \<Rightarrow> if f_datalen f \<le> length d then Some (Some (take (f_datalen f) d)) else None) =
      Some (if f_datalen f = 0 then None else Some (take (f_datalen f) (the (f_data f))))"
    using assms(2) by (auto simp: frame_readable_def)
  have block: "one_block hs (out a sz)" if "frdup_len hs f \<le> sz" for a sz
    using that assms(2)
    by (auto simp: one_block_def out_def zero_frame_def frdup_len_def Let_def frame_readable_def split: option.splits)
  have content: "frame_content (out a sz) = frame_content f" for a sz
    using assms(2) by (auto simp: frame_content_def out_def zero_frame_def frame_octets_def frame_readable_def split: option.splits)
  have addr: "block_of (out a sz) = (a, sz)" for a sz by (simp add: block_of_def out_def)
  show thesis
  proof (cases "Option.bind cache (\<lambda>c. frame_cache_take (frdup_len hs f) (fc_list c))")
    case None
    then have "ast_frdup hs alloc cache f = Some (cache, map_option (\<lambda>a. out a (frdup_len hs f)) alloc)"
      by (cases alloc) (simp_all add: ast_frdup_def data out_def)
    then show thesis
      using assms(3) block [of "frdup_len hs f"] content addr by (cases alloc) (auto intro: failed fresh)
  next
    case (Some p)
    then obtain c a sz rest where c: "cache = Some c" "frame_cache_take (frdup_len hs f) (fc_list c) = Some ((a, sz), rest)"
      "p = ((a, sz), rest)" by (cases cache; cases p) auto
    note t = frame_cache_take_some [OF c(2)]
    have "ast_frdup hs alloc cache f = Some (Some (c\<lparr> fc_list := rest, fc_size := fc_size c - 1 \<rparr>), Some (out a sz))"
      using Some by (simp add: ast_frdup_def data out_def c)
    moreover have "cache_ok hs (Some (c\<lparr> fc_list := rest, fc_size := fc_size c - 1 \<rparr>))"
      using assms(1) t by (auto simp: cache_ok_def c dest!: mset_eq_setD [of "fc_list c" "(a, sz) # rest", simplified])
    ultimately show thesis
      using assms(3) block [of sz a] content addr t c(1) by (auto intro!: reused simp: cached_def)
  qed
qed

lemma ast_frdup_total: "frame_readable f \<Longrightarrow> \<exists>cache' r. ast_frdup hs alloc cache f = Some (cache', r)"
  by (auto simp: ast_frdup_def Let_def frame_readable_def split: option.splits prod.splits)

lemma frame_free1_cases:
  assumes "cache_ok hs cache" "one_block hs fr" "frame_free1 use_cache cache fr = (cache', freed)"
  obtains (kept) "freed = []" "cached cache' = block_of fr # cached cache" "cache_ok hs cache'"
  | (freed) "freed = [Freed_hdr (f_addr fr)]" "cache' = cache"
  using assms frdup_len_hs [of hs fr]
  by (auto simp: frame_free1_def one_block_def Let_def cached_def block_of_def cache_ok_def split: if_splits option.splits)

section \<open>Duplicating and freeing\<close>

text \<open>
  A thread that duplicates frames and frees duplicates: the cache, the live duplicates with the
  frames they were made from, and the blocks, with their addresses and sizes, that the allocator has
  handed out and not got back. The allocator may offer any address but that of such a block; to give
  back anything that is not such a block is a fault.
\<close>

record frame_pool =
  p_cache :: "ast_frame_cache option"
  p_live :: "ast_frame list"
  p_from :: "ast_frame list"
  p_heap :: "(nat \<times> nat) list"

datatype pool_op = Pool_dup "nat option" ast_frame | Pool_free nat

definition offer :: "(nat \<times> nat) list \<Rightarrow> nat option \<Rightarrow> nat option" where
  "offer heap alloc = Option.bind alloc (\<lambda>a. if a \<in> fst ` set heap then None else Some a)"

fun give_back :: "freed list \<Rightarrow> (nat \<times> nat) list \<Rightarrow> (nat \<times> nat) list option" where
  "give_back [] heap = Some heap"
| "give_back (Freed_hdr a # fs) heap =
     (if a \<in> fst ` set heap then give_back fs (filter (\<lambda>b. fst b \<noteq> a) heap) else None)"
| "give_back (_ # fs) heap = None"

fun pool_step :: "nat \<Rightarrow> frame_pool \<Rightarrow> pool_op \<Rightarrow> frame_pool option" where
  "pool_step hs p (Pool_dup alloc f) =
     (let alloc = offer (p_heap p) alloc in
      case ast_frdup hs alloc (p_cache p) f of
        None \<Rightarrow> None
      | Some (cache, None) \<Rightarrow> Some (p\<lparr> p_cache := cache \<rparr>)
      | Some (cache, Some out) \<Rightarrow>
          Some (p\<lparr> p_cache := cache, p_live := out # p_live p, p_from := f # p_from p,
                  p_heap := (if alloc = Some (f_addr out) then [(f_addr out, frdup_len hs f)] else []) @ p_heap p \<rparr>))"
| "pool_step hs p (Pool_free i) =
     (if i < length (p_live p) then
        let (cache, freed) = ast_frame_free True (p_cache p) [p_live p ! i]
        in map_option (\<lambda>heap. p\<lparr> p_cache := cache, p_live := take i (p_live p) @ drop (Suc i) (p_live p),
                                 p_from := take i (p_from p) @ drop (Suc i) (p_from p), p_heap := heap \<rparr>)
             (give_back freed (p_heap p))
      else Some p)"

fun pool_run :: "nat \<Rightarrow> frame_pool \<Rightarrow> pool_op list \<Rightarrow> frame_pool option" where
  "pool_run hs p [] = Some p"
| "pool_run hs p (e # es) = Option.bind (pool_step hs p e) (\<lambda>p. pool_run hs p es)"

fun pool_op_ok :: "pool_op \<Rightarrow> bool" where
  "pool_op_ok (Pool_dup alloc f) = frame_readable f"
| "pool_op_ok (Pool_free i) = True"

text \<open>
  The blocks handed out are exactly the blocks of the live frames and those in the cache, each with
  the size recorded in its header, and no two of them have the same address.
\<close>

definition pool_ok :: "nat \<Rightarrow> frame_pool \<Rightarrow> bool" where
  "pool_ok hs p \<longleftrightarrow>
     cache_ok hs (p_cache p) \<and> (\<forall>f\<in>set (p_live p). one_block hs f) \<and>
     map frame_content (p_live p) = map frame_content (p_from p) \<and>
     distinct (map fst (p_heap p)) \<and>
     mset (p_heap p) = mset (map block_of (p_live p)) + mset (cached (p_cache p))"

lemma pool_step_dup:
  assumes "pool_ok hs p" "frame_readable f"
  shows "\<exists>p'. pool_step hs p (Pool_dup alloc f) = Some p' \<and> pool_ok hs p'"
proof -
  let ?alloc = "offer (p_heap p) alloc"
  obtain cache' r where d: "ast_frdup hs ?alloc (p_cache p) f = Some (cache', r)"
    using ast_frdup_total [OF assms(2)] by blast
  have heap: "mset (p_heap p) = mset (map block_of (p_live p)) + mset (cached (p_cache p))" and ok: "cache_ok hs (p_cache p)"
    using assms(1) by (simp_all add: pool_ok_def)
  have new: "a \<notin> fst ` set (p_heap p)" if "?alloc = Some a" for a
    using that by (auto simp: offer_def bind_eq_Some_conv split: if_splits)
  from ok assms(2) d show ?thesis
  proof (cases rule: ast_frdup_cases)
    case (fresh out a)
    then have "f_addr out = a" by (simp add: block_of_def)
    with fresh new show ?thesis using assms(1) d by (auto simp: pool_ok_def Let_def)
  next
    case (reused out)
    then have "block_of out \<in># mset (p_heap p)" using heap by simp
    then have "f_addr out \<in> fst ` set (p_heap p)" by (force simp: block_of_def)
    then have "?alloc \<noteq> Some (f_addr out)" using new by blast
    with reused show ?thesis using assms(1) d by (auto simp: pool_ok_def Let_def)
  qed (use assms(1) d in \<open>auto simp: pool_ok_def Let_def\<close>)
qed

lemma give_back_block:
  assumes "distinct (map fst heap)" "mset heap = add_mset (a, n) bs"
  shows "\<exists>heap'. give_back [Freed_hdr a] heap = Some heap' \<and> distinct (map fst heap') \<and> mset heap' = bs"
proof -
  have "(a, n) \<in> set heap" using assms(2) by (metis set_mset_mset union_single_eq_member)
  then obtain xs ys where heap: "heap = xs @ (a, n) # ys" by (meson split_list)
  then have "\<forall>b\<in>set (xs @ ys). fst b \<noteq> a" using assms(1) by force
  then have "filter (\<lambda>b. fst b \<noteq> a) heap = xs @ ys" unfolding heap by (simp add: filter_id_conv)
  moreover have "mset (xs @ ys) = bs" "distinct (map fst (xs @ ys))" "a \<in> fst ` set heap" using assms heap by auto
  ultimately show ?thesis by simp
qed

lemma mset_remove_nth: "i < length xs \<Longrightarrow> mset xs = add_mset (xs ! i) (mset (take i xs @ drop (Suc i) xs))"
  by (subst id_take_nth_drop [of i xs]) simp_all

lemma pool_step_free:
  assumes "pool_ok hs p"
  shows "\<exists>p'. pool_step hs p (Pool_free i) = Some p' \<and> pool_ok hs p'"
proof (cases "i < length (p_live p)")
  case True
  let ?live = "take i (p_live p) @ drop (Suc i) (p_live p)" let ?f = "p_live p ! i"
  obtain cache' freed where f: "frame_free1 True (p_cache p) ?f = (cache', freed)" by force
  have ok: "cache_ok hs (p_cache p)" and one: "one_block hs ?f" and dist: "distinct (map fst (p_heap p))"
    using assms True by (auto simp: pool_ok_def)
  have heap: "mset (p_heap p) = add_mset (block_of ?f) (mset (map block_of ?live) + mset (cached (p_cache p)))"
    using assms mset_remove_nth [of i "map block_of (p_live p)"] True by (simp add: pool_ok_def take_map drop_map)
  have rest: "\<forall>f\<in>set ?live. one_block hs f"
    using assms by (auto simp: pool_ok_def dest: in_set_takeD in_set_dropD)
  have same: "map frame_content ?live = map frame_content (take i (p_from p) @ drop (Suc i) (p_from p))"
    using assms by (simp add: pool_ok_def flip: take_map drop_map)
  from ok one f show ?thesis
  proof (cases rule: frame_free1_cases)
    case kept
    then show ?thesis using assms True f rest same heap dist by (auto simp: pool_ok_def simp del: map_append)
  next
    case freed
    obtain heap' where "give_back [Freed_hdr (f_addr ?f)] (p_heap p) = Some heap'" "distinct (map fst heap')"
      "mset heap' = mset (map block_of ?live) + mset (cached (p_cache p))"
      using give_back_block [OF dist heap [unfolded block_of_def [of ?f]]] by blast
    then show ?thesis
      using freed True f rest same ok by (simp add: pool_ok_def del: map_append give_back.simps)
  qed
qed (use assms in simp)

lemma pool_run_ok:
  "pool_ok hs p \<Longrightarrow> \<forall>e\<in>set es. pool_op_ok e \<Longrightarrow> \<exists>p'. pool_run hs p es = Some p' \<and> pool_ok hs p'"
proof (induction es arbitrary: p)
  case (Cons e es)
  have "\<exists>p'. pool_step hs p e = Some p' \<and> pool_ok hs p'"
  proof (cases e)
    case (Pool_dup alloc f)
    then show ?thesis using pool_step_dup [OF Cons.prems(1)] Cons.prems(2) by (simp del: pool_step.simps)
  next
    case (Pool_free i)
    then show ?thesis using pool_step_free [OF Cons.prems(1)] by (simp del: pool_step.simps)
  qed
  with Cons show ?case by (auto simp del: pool_step.simps)
qed simp

section \<open>Properties\<close>

text \<open>
  C24. Over any sequence of duplications of readable frames and releases of duplicates, starting with
  an empty cache, no release gives back a block that is not outstanding, and at the end the blocks
  obtained and not given back are exactly those of the live frames and those in the cache: none is
  lost, none belongs to two frames or to a frame and the cache, and each is as large as its header
  says. Every live frame has the content of the frame it was made from, in a block with room for the
  header, the data and the source, also when the block comes from the cache, and the cache holds at
  most ten headers.
\<close>

theorem frame_pool_balanced:
  assumes "\<forall>e\<in>set es. pool_op_ok e"
  shows "\<exists>p. pool_run hs \<lparr> p_cache = Some \<lparr> fc_list = [], fc_size = 0 \<rparr>, p_live = [], p_from = [], p_heap = [] \<rparr> es = Some p \<and>
    pool_ok hs p"
  by (rule pool_run_ok [OF _ assms]) (simp add: pool_ok_def cache_ok_def cached_def)

theorem frame_pool_balanced_witness:
  "\<exists>p. pool_run 100 \<lparr> p_cache = Some \<lparr> fc_list = [], fc_size = 0 \<rparr>, p_live = [], p_from = [], p_heap = [] \<rparr>
      [Pool_dup (Some 7) (zero_frame\<lparr> f_datalen := 2, f_data := Some [7, 8] \<rparr>), Pool_free 0,
       Pool_dup None (zero_frame\<lparr> f_datalen := 1, f_data := Some [9] \<rparr>)] = Some p \<and> pool_ok 100 p"
  by (rule frame_pool_balanced) (simp add: frame_readable_def)

text \<open>
  Isolating a frame whose header and data, but not its source, were allocated loses the
  data: the function moves the data pointer from the frame to the frame it returns and clears
  the original, but both are the same object. The result has no data although its length says
  so, contrary to the promise that all components are allocated on return.
\<close>

theorem ast_frisolate_loses_data:
  assumes "f_hdr fr" "f_dat fr" "\<not> f_srcm fr" "f_src fr = Some s" "alloc_src"
  shows "\<exists>out. ast_frisolate hs (alloc_hdr, alloc_src, alloc_data) cache fr = Some (cache, out, Some (out, True)) \<and>
    f_data out = None \<and> f_datalen out = f_datalen fr \<and> f_dat out"
  using assms by (simp add: ast_frisolate_def frisolate_header_def frisolate_rest_def Let_def)

theorem ast_frisolate_loses_data_witness:
  "\<exists>out. ast_frisolate 100 (None, True, True) None
      (zero_frame\<lparr> f_hdr := True, f_dat := True, f_src := Some ''RTP'', f_datalen := 2, f_data := Some [7, 8] \<rparr>) =
      Some (None, out, Some (out, True)) \<and> f_data out = None \<and> f_datalen out = 2"
  using ast_frisolate_loses_data [of "zero_frame\<lparr> f_hdr := True, f_dat := True, f_src := Some ''RTP'', f_datalen := 2,
      f_data := Some [7, 8] \<rparr>" "''RTP''" True 100 None True None]
  by (auto simp: zero_frame_def)

end
