(* ===== verification/Abstract_Jb.thy ===== *)
theory Abstract_Jb
  imports Jitterbuf FixedJitterbuf Frame Formats Clib
begin

text \<open>
  The jitter buffers of channels, \<open>main/abstract_jb.c\<close>: a layer that creates one of two
  implementations on a channel, puts frames into it and delivers them when they are due.

  \<^item> \<open>struct ast_jb_impl\<close>, a table of function pointers, is the record \<open>ast_jb_impl\<close> of
    functions; \<open>fixed_impl\<close> and \<open>adaptive_impl\<close> are its two instances. The object behind the
    void pointer is a \<open>jb_obj\<close>. \<open>None\<close> is a failed assertion, a null or mistyped pointer.
  \<^item> The effects on frames are recorded as events: \<open>Dup\<close> for a frame duplicated on entry, \<open>Write\<close>
    for a frame given to \<open>ast_write\<close>, \<open>Interp\<close> for an interpolated frame and \<open>Free\<close> for a frame
    freed.
  \<^item> The interface \<open>jb_impl\<close> states what the layer relies on; both implementations are shown to
    provide it, and the layer is verified against it.
  \<^item> Of the log file only its name is modelled, not the lines written to it. The time of day, the
    success of allocations and of \<open>fopen\<close>, and the name of the bridged channel are arguments.
\<close>

section \<open>Data\<close>

datatype jb_impl_code = JB_IMPL_OK | JB_IMPL_DROP | JB_IMPL_INTERP | JB_IMPL_NOFRAME

record ast_jb_conf =
  ac_enabled :: bool
  ac_forced :: bool
  ac_log :: bool
  ac_max_size :: int
  ac_resync_threshold :: int
  ac_impl :: string

record 'o ast_jb_impl =
  impl_name :: string
  impl_create :: "bool \<Rightarrow> ast_jb_conf \<Rightarrow> int \<Rightarrow> 'o option"
  impl_destroy :: "'o \<Rightarrow> unit option"
  impl_put_first :: "bool \<Rightarrow> 'o \<Rightarrow> ast_frame \<Rightarrow> int \<Rightarrow> ('o \<times> jb_impl_code) option"
  impl_put :: "bool \<Rightarrow> 'o \<Rightarrow> ast_frame \<Rightarrow> int \<Rightarrow> ('o \<times> jb_impl_code) option"
  impl_get :: "'o \<Rightarrow> int \<Rightarrow> int \<Rightarrow> ('o \<times> ast_frame option \<times> jb_impl_code) option"
  impl_next :: "'o \<Rightarrow> ('o \<times> int) option"
  impl_remove :: "'o \<Rightarrow> ('o \<times> ast_frame option \<times> jb_impl_code) option"
  impl_force_resync :: "'o \<Rightarrow> 'o option"
  impl_empty_and_reset :: "'o \<Rightarrow> ('o \<times> ast_frame list) option"

record 'o ast_jb =
  aj_conf :: ast_jb_conf
  aj_impl :: "'o ast_jb_impl option"
  aj_obj :: "'o option"
  aj_timebase :: timeval
  aj_next :: int
  aj_last_format :: int
  aj_logfile :: "string option"
  aj_use :: bool
  aj_timebase_initialized :: bool
  aj_created :: bool

text \<open>A channel: its jitter buffer, its name and the two properties of its technology that matter here.\<close>

record 'o jb_channel =
  ch_name :: string
  ch_jb :: "'o ast_jb"
  ch_wants_jitter :: bool
  ch_creates_jitter :: bool

datatype jb_event = Dup ast_frame | Write ast_frame | Interp ast_frame | Free ast_frame

text \<open>The cache of frame headers of the thread and the events so far.\<close>

record frame_world =
  fw_cache :: "ast_frame_cache option"
  fw_log :: "jb_event list"

definition ast_frfree :: "ast_frame \<Rightarrow> frame_world \<Rightarrow> frame_world" where
  "ast_frfree f w =
     w\<lparr> fw_cache := fst (ast_frame_free True (fw_cache w) [f]), fw_log := fw_log w @ [Free f] \<rparr>"

definition jb_write :: "jb_event \<Rightarrow> frame_world \<Rightarrow> frame_world" where
  "jb_write e w = w\<lparr> fw_log := fw_log w @ [e] \<rparr>"

section \<open>The two implementations\<close>

datatype jb_obj = Fixed_jb "ast_frame fixed_jb" | Adaptive_jb "ast_frame jitterbuf"

fun fixed_to_abstract_code :: "fixed_jb_code \<Rightarrow> jb_impl_code" where
  "fixed_to_abstract_code FIXED_JB_OK = JB_IMPL_OK"
| "fixed_to_abstract_code FIXED_JB_DROP = JB_IMPL_DROP"
| "fixed_to_abstract_code FIXED_JB_INTERP = JB_IMPL_INTERP"
| "fixed_to_abstract_code FIXED_JB_NOFRAME = JB_IMPL_NOFRAME"

fun adaptive_to_abstract_code :: "jb_return_code \<Rightarrow> jb_impl_code" where
  "adaptive_to_abstract_code JB_OK = JB_IMPL_OK"
| "adaptive_to_abstract_code JB_EMPTY = JB_IMPL_NOFRAME"
| "adaptive_to_abstract_code JB_NOFRAME = JB_IMPL_NOFRAME"
| "adaptive_to_abstract_code JB_INTERP = JB_IMPL_INTERP"
| "adaptive_to_abstract_code JB_DROP = JB_IMPL_DROP"
| "adaptive_to_abstract_code JB_SCHED = JB_IMPL_OK"

subsection \<open>Fixed\<close>

definition jb_create_fixed :: "bool \<Rightarrow> ast_jb_conf \<Rightarrow> int \<Rightarrow> jb_obj option" where
  "jb_create_fixed alloc general_config resynch_threshold =
     map_option Fixed_jb (fixed_jb_new alloc
       \<lparr> fc_jbsize = ac_max_size general_config, fc_resync_threshold = resynch_threshold \<rparr>)"

fun jb_destroy_fixed :: "jb_obj \<Rightarrow> unit option" where
  "jb_destroy_fixed (Fixed_jb jb) = (case fixed_jb_destroy jb of Inl e \<Rightarrow> None | Inr u \<Rightarrow> Some u)"
| "jb_destroy_fixed (Adaptive_jb jb) = None"

fun jb_put_first_fixed :: "bool \<Rightarrow> jb_obj \<Rightarrow> ast_frame \<Rightarrow> int \<Rightarrow> (jb_obj \<times> jb_impl_code) option" where
  "jb_put_first_fixed alloc (Fixed_jb jb) fin now =
     (case fixed_jb_put_first 5 alloc jb (Some fin) (f_len fin) (f_ts fin) now of
        Inl e \<Rightarrow> None
      | Inr (jb, res) \<Rightarrow> Some (Fixed_jb jb, fixed_to_abstract_code res))"
| "jb_put_first_fixed alloc (Adaptive_jb jb) fin now = None"

fun jb_put_fixed :: "bool \<Rightarrow> jb_obj \<Rightarrow> ast_frame \<Rightarrow> int \<Rightarrow> (jb_obj \<times> jb_impl_code) option" where
  "jb_put_fixed alloc (Fixed_jb jb) fin now =
     (case fixed_jb_put 4 alloc jb (Some fin) (f_len fin) (f_ts fin) now of
        Inl e \<Rightarrow> None
      | Inr (jb, res) \<Rightarrow> Some (Fixed_jb jb, fixed_to_abstract_code res))"
| "jb_put_fixed alloc (Adaptive_jb jb) fin now = None"

fun jb_get_fixed :: "jb_obj \<Rightarrow> int \<Rightarrow> int \<Rightarrow> (jb_obj \<times> ast_frame option \<times> jb_impl_code) option" where
  "jb_get_fixed (Fixed_jb jb) now interpl =
     (case fixed_jb_get jb now interpl of
        Inl e \<Rightarrow> None
      | Inr (jb, frame, res) \<Rightarrow> Some (Fixed_jb jb, map_option ff_data frame, fixed_to_abstract_code res))"
| "jb_get_fixed (Adaptive_jb jb) now interpl = None"

fun jb_next_fixed :: "jb_obj \<Rightarrow> (jb_obj \<times> int) option" where
  "jb_next_fixed (Fixed_jb jb) = Some (Fixed_jb jb, fixed_jb_next jb)"
| "jb_next_fixed (Adaptive_jb jb) = None"

fun jb_remove_fixed :: "jb_obj \<Rightarrow> (jb_obj \<times> ast_frame option \<times> jb_impl_code) option" where
  "jb_remove_fixed (Fixed_jb jb) =
     (case fixed_jb_remove jb of
        Inl e \<Rightarrow> None
      | Inr (jb, frame, res) \<Rightarrow> Some (Fixed_jb jb, map_option ff_data frame, fixed_to_abstract_code res))"
| "jb_remove_fixed (Adaptive_jb jb) = None"

fun jb_force_resynch_fixed :: "jb_obj \<Rightarrow> jb_obj option" where
  "jb_force_resynch_fixed (Fixed_jb jb) = Some (Fixed_jb (fixed_jb_set_force_resynch jb))"
| "jb_force_resynch_fixed (Adaptive_jb jb) = None"

text \<open>The loops that empty a buffer run once per queued frame and once more.\<close>

fun empty_fixed :: "nat \<Rightarrow> ast_frame fixed_jb \<Rightarrow> (ast_frame fixed_jb \<times> ast_frame list) option" where
  "empty_fixed 0 jb = None"
| "empty_fixed (Suc n) jb =
     (case fixed_jb_remove jb of
        Inr (jb, Some f, FIXED_JB_OK) \<Rightarrow>
          map_option (\<lambda>(jb, fs). (jb, ff_data f # fs)) (empty_fixed n jb)
      | Inr (jb, fr, code) \<Rightarrow> Some (jb, [])
      | Inl e \<Rightarrow> None)"

fun jb_empty_and_reset_fixed :: "jb_obj \<Rightarrow> (jb_obj \<times> ast_frame list) option" where
  "jb_empty_and_reset_fixed (Fixed_jb jb) =
     map_option (\<lambda>(jb, fs). (Fixed_jb jb, fs)) (empty_fixed (Suc (length (fj_frames jb))) jb)"
| "jb_empty_and_reset_fixed (Adaptive_jb jb) = None"

definition fixed_impl :: "jb_obj ast_jb_impl" where
  "fixed_impl =
     \<lparr> impl_name = ''fixed'', impl_create = jb_create_fixed, impl_destroy = jb_destroy_fixed,
       impl_put_first = jb_put_first_fixed, impl_put = jb_put_fixed, impl_get = jb_get_fixed,
       impl_next = jb_next_fixed, impl_remove = jb_remove_fixed,
       impl_force_resync = jb_force_resynch_fixed, impl_empty_and_reset = jb_empty_and_reset_fixed \<rparr>"

subsection \<open>Adaptive\<close>

text \<open>
  \<open>jb_new\<close> resets the block that \<open>ast_malloc\<close> returned; its configuration, which \<open>jb_reset\<close> keeps,
  is then overwritten by \<open>jb_setconf\<close>.
\<close>

definition any_block :: "ast_frame jitterbuf" where
  "any_block =
     \<lparr> jb_inf = \<lparr> jbi_conf = \<lparr> max_jitterbuf = 0, resync_threshold = 0, max_contig_interp = 0 \<rparr>,
         frames_in = 0, frames_out = 0, frames_late = 0, frames_lost = 0, frames_dropped = 0,
         frames_ooo = 0, frames_cur = 0, jb_jitter = 0, jb_min = 0, jb_current = 0, jb_target = 0,
         losspct = 0, next_voice_ts = 0, last_voice_ms = 0, silence_begin_ts = 0, last_adjustment = 0,
         last_delay = 0, cnt_delay_discont = 0, resync_offset = 0, cnt_contig_interp = 0 \<rparr>,
       history = [], hist_ptr = 0, hist_maxbuf = [], hist_minbuf = [], hist_maxbuf_valid = False,
       dropem = False, jb_frames = [], jb_free = [] \<rparr>"

definition jb_create_adaptive :: "bool \<Rightarrow> ast_jb_conf \<Rightarrow> int \<Rightarrow> jb_obj option" where
  "jb_create_adaptive alloc general_config resynch_threshold =
     map_option (\<lambda>jb. Adaptive_jb (fst (jb_setconf jb
         \<lparr> max_jitterbuf = ac_max_size general_config,
           resync_threshold = ac_resync_threshold general_config, max_contig_interp = 10 \<rparr>)))
       (jb_new (if alloc then Some any_block else None))"

fun jb_destroy_adaptive :: "jb_obj \<Rightarrow> unit option" where
  "jb_destroy_adaptive (Adaptive_jb jb) = (let freed = jb_destroy jb in Some ())"
| "jb_destroy_adaptive (Fixed_jb jb) = None"

fun jb_put_adaptive :: "bool \<Rightarrow> jb_obj \<Rightarrow> ast_frame \<Rightarrow> int \<Rightarrow> (jb_obj \<times> jb_impl_code) option" where
  "jb_put_adaptive alloc (Adaptive_jb jb) fin now =
     (case jb_put alloc jb fin JB_TYPE_VOICE (f_len fin) (f_ts fin) now of
        (jb, res) \<Rightarrow> Some (Adaptive_jb jb, adaptive_to_abstract_code res))"
| "jb_put_adaptive alloc (Fixed_jb jb) fin now = None"

fun jb_put_first_adaptive :: "bool \<Rightarrow> jb_obj \<Rightarrow> ast_frame \<Rightarrow> int \<Rightarrow> (jb_obj \<times> jb_impl_code) option" where
  "jb_put_first_adaptive alloc (Adaptive_jb jb) fin now =
     jb_put_adaptive alloc (Adaptive_jb (jb_inf_update (resync_offset_update (\<lambda>_. f_ts fin)) jb)) fin now"
| "jb_put_first_adaptive alloc (Fixed_jb jb) fin now = None"

text \<open>
  The local \<open>jb_frame\<close> whose data pointer is read after the call is uninitialised unless a frame
  was taken; \<open>any_frame\<close> stands for its contents.
\<close>

definition any_frame :: "ast_frame jb_frame" where
  "any_frame = \<lparr> fr_data = zero_frame, fr_ts = 0, fr_ms = 0, fr_type = JB_TYPE_CONTROL \<rparr>"

fun jb_get_adaptive :: "jb_obj \<Rightarrow> int \<Rightarrow> int \<Rightarrow> (jb_obj \<times> ast_frame option \<times> jb_impl_code) option" where
  "jb_get_adaptive (Adaptive_jb jb) now interpl =
     (case jb_get jb any_frame now interpl of
        (jb, frame, res) \<Rightarrow>
          Some (Adaptive_jb jb, if res = JB_OK \<or> res = JB_DROP then Some (fr_data frame) else None,
                adaptive_to_abstract_code res))"
| "jb_get_adaptive (Fixed_jb jb) now interpl = None"

fun jb_next_adaptive :: "jb_obj \<Rightarrow> (jb_obj \<times> int) option" where
  "jb_next_adaptive (Adaptive_jb jb) = (case jb_next jb of (jb, n) \<Rightarrow> Some (Adaptive_jb jb, n))"
| "jb_next_adaptive (Fixed_jb jb) = None"

fun jb_remove_adaptive :: "jb_obj \<Rightarrow> (jb_obj \<times> ast_frame option \<times> jb_impl_code) option" where
  "jb_remove_adaptive (Adaptive_jb jb) =
     (case jb_getall jb any_frame of
        (jb, frame, res) \<Rightarrow>
          Some (Adaptive_jb jb, if res = JB_OK then Some (fr_data frame) else None, adaptive_to_abstract_code res))"
| "jb_remove_adaptive (Fixed_jb jb) = None"

fun jb_force_resynch_adaptive :: "jb_obj \<Rightarrow> jb_obj option" where
  "jb_force_resynch_adaptive jb = Some jb"

fun empty_adaptive :: "nat \<Rightarrow> ast_frame jitterbuf \<Rightarrow> (ast_frame jitterbuf \<times> ast_frame list) option" where
  "empty_adaptive 0 jb = None"
| "empty_adaptive (Suc n) jb =
     (case jb_getall jb any_frame of
        (jb, f, JB_OK) \<Rightarrow> map_option (\<lambda>(jb, fs). (jb, fr_data f # fs)) (empty_adaptive n jb)
      | (jb, f, res) \<Rightarrow> Some (jb, []))"

fun jb_empty_and_reset_adaptive :: "jb_obj \<Rightarrow> (jb_obj \<times> ast_frame list) option" where
  "jb_empty_and_reset_adaptive (Adaptive_jb jb) =
     map_option (\<lambda>(jb, fs). (Adaptive_jb (jb_reset jb), fs)) (empty_adaptive (Suc (length (jb_frames jb))) jb)"
| "jb_empty_and_reset_adaptive (Fixed_jb jb) = None"

definition adaptive_impl :: "jb_obj ast_jb_impl" where
  "adaptive_impl =
     \<lparr> impl_name = ''adaptive'', impl_create = jb_create_adaptive, impl_destroy = jb_destroy_adaptive,
       impl_put_first = jb_put_first_adaptive, impl_put = jb_put_adaptive, impl_get = jb_get_adaptive,
       impl_next = jb_next_adaptive, impl_remove = jb_remove_adaptive,
       impl_force_resync = jb_force_resynch_adaptive,
       impl_empty_and_reset = jb_empty_and_reset_adaptive \<rparr>"

definition avail_impl :: "jb_obj ast_jb_impl list" where
  "avail_impl = [fixed_impl, adaptive_impl]"

section \<open>The operations on channels\<close>

definition jb_choose_impl :: "jb_obj ast_jb \<Rightarrow> jb_obj ast_jb" where
  "jb_choose_impl jb =
     jb\<lparr> aj_impl := Some
       (if ac_impl (aj_conf jb) = [] then avail_impl ! 0
        else case find (\<lambda>i. strcaseeq (ac_impl (aj_conf jb)) (impl_name i)) avail_impl of
               Some i \<Rightarrow> i
             | None \<Rightarrow> avail_impl ! 0) \<rparr>"

text \<open>
  \<open>ast_jb_do_usecheck\<close> does the same on both sides: \<open>init\<close> and \<open>timebase\<close> are those of the other
  channel, \<open>init\<close> as it was on entry, and \<open>now\<close> is the time of day, read only when it is needed.
\<close>

definition usecheck_needed :: "'o jb_channel \<Rightarrow> 'o jb_channel \<Rightarrow> bool" where
  "usecheck_needed c0 c1 \<longleftrightarrow>
     ((\<not> ch_wants_jitter c0 \<and> ch_creates_jitter c1) \<or>
      (ac_forced (aj_conf (ch_jb c0)) \<and> ch_creates_jitter c1)) \<and> ac_enabled (aj_conf (ch_jb c0))"

definition usecheck_side :: "bool \<Rightarrow> timeval \<Rightarrow> timeval \<Rightarrow> jb_obj ast_jb \<Rightarrow> jb_obj ast_jb" where
  "usecheck_side init timebase now jb =
     (let jb = jb\<lparr> aj_use := True \<rparr>;
          jb = (if \<not> aj_timebase_initialized jb
                then jb\<lparr> aj_timebase := (if init then timebase else now), aj_timebase_initialized := True \<rparr>
                else jb)
      in if \<not> aj_created jb then jb_choose_impl jb else jb)"

definition ast_jb_do_usecheck ::
    "timeval \<Rightarrow> timeval \<Rightarrow> jb_obj jb_channel \<Rightarrow> jb_obj jb_channel
      \<Rightarrow> jb_obj jb_channel \<times> jb_obj jb_channel \<times> bool" where
  "ast_jb_do_usecheck now0 now1 c0 c1 =
     (let init0 = aj_timebase_initialized (ch_jb c0); init1 = aj_timebase_initialized (ch_jb c1);
          need0 = usecheck_needed c0 c1; need1 = usecheck_needed c1 c0;
          c0 = (if need0 then c0\<lparr> ch_jb := usecheck_side init1 (aj_timebase (ch_jb c1)) now0 (ch_jb c0) \<rparr> else c0);
          c1 = (if need1 then c1\<lparr> ch_jb := usecheck_side init0 (aj_timebase (ch_jb c0)) now1 (ch_jb c1) \<rparr> else c1)
      in (c0, c1, need0 \<or> need1))"

definition get_now :: "'o ast_jb \<Rightarrow> timeval \<Rightarrow> int" where
  "get_now jb tv = ast_tvdiff_ms tv (aj_timebase jb)"

definition jb_wait :: "'o ast_jb \<Rightarrow> timeval \<Rightarrow> int \<Rightarrow> int" where
  "jb_wait jb tv time_left =
     (if aj_use jb \<and> aj_created jb then signed_take_bit 31 (aj_next jb - get_now jb tv) else time_left)"

definition ast_jb_get_when_to_wakeup :: "timeval \<Rightarrow> 'o jb_channel \<Rightarrow> 'o jb_channel \<Rightarrow> int \<Rightarrow> int" where
  "ast_jb_get_when_to_wakeup tv_now c0 c1 time_left =
     (let time_left = (if time_left < 0 then 2 ^ 31 - 1 else time_left);
          wait0 = jb_wait (ch_jb c0) tv_now time_left;
          wait1 = jb_wait (ch_jb c1) tv_now time_left;
          w = (if wait0 < wait1 then wait0 else wait1);
          w = (if w < time_left then w else time_left)
      in if w = 2 ^ 31 - 1 then -1 else if w < 1 then 1 else w)"

text \<open>The name of the log file; only the first slash of a channel name is replaced.\<close>

definition jb_log_name :: "string \<Rightarrow> string" where
  "jb_log_name name =
     (let name = take 79 name
      in takeWhile (\<lambda>c. c \<noteq> CHR ''/'') name @
         (case dropWhile (\<lambda>c. c \<noteq> CHR ''/'') name of [] \<Rightarrow> [] | c # rest \<Rightarrow> CHR ''#'' # rest))"

definition jb_log_pathname :: "string \<Rightarrow> string \<Rightarrow> string \<Rightarrow> string" where
  "jb_log_pathname impl bridged name =
     take 192 (''/tmp/ast_'' @ impl @ ''_jb_'' @ jb_log_name bridged @ ''--'' @ jb_log_name name @ ''.log'')"

text \<open>What the environment answers during a put; \<open>pe_dup\<close> is the block for the duplicate of the frame, if it needs a new one.\<close>

record put_env =
  pe_dup :: "nat option"
  pe_create :: bool
  pe_put :: bool
  pe_fopen :: bool
  pe_now :: timeval
  pe_bridged :: "string option"

definition create_jb ::
    "put_env \<Rightarrow> 'o jb_channel \<Rightarrow> ast_frame \<Rightarrow> frame_world \<Rightarrow> ('o jb_channel \<times> frame_world \<times> int) option" where
  "create_jb env chan frr w =
     (let jb = ch_jb chan; conf = aj_conf jb in
      case aj_impl jb of
        None \<Rightarrow> None
      | Some impl \<Rightarrow>
          (case impl_create impl (pe_create env) conf (ac_resync_threshold conf) of
             None \<Rightarrow> Some (chan\<lparr> ch_jb := jb\<lparr> aj_obj := None \<rparr> \<rparr>, w, -1)
           | Some obj \<Rightarrow>
               do { (obj, res) \<leftarrow> impl_put_first impl (pe_put env) obj frr (get_now jb (pe_now env));
                    (obj, next) \<leftarrow> impl_next impl obj;
                    log \<leftarrow> (if ac_log conf
                            then map_option (\<lambda>bridged.
                                   if pe_fopen env
                                   then Some (jb_log_pathname (impl_name impl) bridged (ch_name chan)) else None)
                                 (pe_bridged env)
                            else Some (aj_logfile jb));
                    Some (chan\<lparr> ch_jb := jb\<lparr> aj_obj := Some obj, aj_next := next,
                                             aj_last_format := f_subclass frr, aj_logfile := log \<rparr> \<rparr>,
                          if res \<noteq> JB_IMPL_OK then ast_frfree frr w else w, 0) }))"

text \<open>\<open>ast_jb_put\<close>: the duplicate starts a buffer or is put into it. \<open>hs\<close> is the size of a frame header.\<close>

definition jb_put_frame ::
    "put_env \<Rightarrow> 'o jb_channel \<Rightarrow> ast_frame \<Rightarrow> frame_world \<Rightarrow> ('o jb_channel \<times> frame_world \<times> int) option" where
  "jb_put_frame env chan frr w =
     (let jb = ch_jb chan in
      if \<not> aj_created jb then
        do { (chan, w, res) \<leftarrow> create_jb env chan frr w;
             if res \<noteq> 0
             then Some (chan\<lparr> ch_jb := (ch_jb chan)\<lparr> aj_use := False \<rparr> \<rparr>, ast_frfree frr w, -1)
             else Some (chan\<lparr> ch_jb := (ch_jb chan)\<lparr> aj_created := True \<rparr> \<rparr>, w, 0) }
      else
        do { impl \<leftarrow> aj_impl jb; obj \<leftarrow> aj_obj jb;
             (obj, res) \<leftarrow> impl_put impl (pe_put env) obj frr (get_now jb (pe_now env));
             if res \<noteq> JB_IMPL_OK
             then Some (chan\<lparr> ch_jb := jb\<lparr> aj_obj := Some obj \<rparr> \<rparr>, ast_frfree frr w, 0)
             else do { (obj, next) \<leftarrow> impl_next impl obj;
                       Some (chan\<lparr> ch_jb := jb\<lparr> aj_obj := Some obj, aj_next := next \<rparr> \<rparr>, w, 0) } })"

definition ast_jb_put ::
    "nat \<Rightarrow> put_env \<Rightarrow> 'o jb_channel \<Rightarrow> ast_frame \<Rightarrow> frame_world
      \<Rightarrow> ('o jb_channel \<times> frame_world \<times> int) option" where
  "ast_jb_put hs env chan f w =
     (let jb = ch_jb chan in
      if \<not> aj_use jb then Some (chan, w, -1)
      else if f_type f \<noteq> AST_FRAME_VOICE then
        if f_type f = AST_FRAME_DTMF \<and> aj_created jb then
          do { impl \<leftarrow> aj_impl jb; obj \<leftarrow> aj_obj jb; obj \<leftarrow> impl_force_resync impl obj;
               Some (chan\<lparr> ch_jb := jb\<lparr> aj_obj := Some obj \<rparr> \<rparr>, w, -1) }
        else Some (chan, w, -1)
      else if \<not> f_timing f \<or> f_len f < 2 \<or> f_ts f < 0 then Some (chan, w, -1)
      else
        do { (cache, frr) \<leftarrow> ast_frdup hs (pe_dup env) (fw_cache w) f;
             case frr of
               None \<Rightarrow> Some (chan, w\<lparr> fw_cache := cache \<rparr>, -1)
             | Some frr \<Rightarrow> jb_put_frame env chan frr (jb_write (Dup frr) (w\<lparr> fw_cache := cache \<rparr>)) })"

text \<open>
  One pass of the loop of \<open>jb_get_and_deliver\<close>. The flag says that the function returns without
  evaluating the condition of the loop again. The log message of a missing frame calls \<open>next\<close> too.
\<close>

definition interp_frame :: "'o ast_jb \<Rightarrow> int \<Rightarrow> ast_frame" where
  "interp_frame jb interpolation_len =
     zero_frame\<lparr> f_type := AST_FRAME_VOICE, f_subclass := aj_last_format jb,
       f_samples := interpolation_len * 8, f_src := Some ''JB interpolation'',
       f_delivery := ast_tvadd (aj_timebase jb) (ast_samp2tv (word_of_int (aj_next jb)) 1000),
       f_offset := int AST_FRIENDLY_OFFSET \<rparr>"

definition deliver_next ::
    "'o ast_jb_impl \<Rightarrow> 'o ast_jb \<Rightarrow> 'o \<Rightarrow> frame_world \<Rightarrow> ('o ast_jb \<times> frame_world \<times> bool) option" where
  "deliver_next impl jb obj w =
     map_option (\<lambda>(obj, next). (jb\<lparr> aj_obj := Some obj, aj_next := next \<rparr>, w, False)) (impl_next impl obj)"

definition deliver_step ::
    "int \<Rightarrow> 'o ast_jb \<Rightarrow> frame_world \<Rightarrow> ('o ast_jb \<times> frame_world \<times> bool) option" where
  "deliver_step now jb w =
     do { impl \<leftarrow> aj_impl jb; obj \<leftarrow> aj_obj jb;
          let interpolation_len = ast_codec_interp_len (aj_last_format jb);
          (obj, fo, res) \<leftarrow> impl_get impl obj now interpolation_len;
          case res of
            JB_IMPL_OK \<Rightarrow>
              do { f \<leftarrow> fo;
                   deliver_next impl (jb\<lparr> aj_last_format := f_subclass f \<rparr>) obj (ast_frfree f (jb_write (Write f) w)) }
          | JB_IMPL_DROP \<Rightarrow>
              do { f \<leftarrow> fo;
                   deliver_next impl (jb\<lparr> aj_last_format := f_subclass f \<rparr>) obj (ast_frfree f w) }
          | JB_IMPL_INTERP \<Rightarrow> deliver_next impl jb obj (jb_write (Interp (interp_frame jb interpolation_len)) w)
          | JB_IMPL_NOFRAME \<Rightarrow>
              do { (obj, jbnext) \<leftarrow> impl_next impl obj; Some (jb\<lparr> aj_obj := Some obj \<rparr>, w, True) } }"

text \<open>The loop; a loop that does not end has the value \<open>None\<close>, as a fault has.\<close>

partial_function (option) deliver_loop ::
    "int \<Rightarrow> 'o ast_jb \<Rightarrow> frame_world \<Rightarrow> ('o ast_jb \<times> frame_world) option" where
  "deliver_loop now jb w =
     (if now \<ge> aj_next jb then
        do { (jb, w, stop) \<leftarrow> deliver_step now jb w;
             if stop then Some (jb, w) else deliver_loop now jb w }
      else Some (jb, w))"

definition jb_get_and_deliver ::
    "timeval \<Rightarrow> 'o jb_channel \<Rightarrow> frame_world \<Rightarrow> ('o jb_channel \<times> frame_world) option" where
  "jb_get_and_deliver tv chan w =
     (let jb = ch_jb chan; now = get_now jb tv in
      do { impl \<leftarrow> aj_impl jb; obj \<leftarrow> aj_obj jb; (obj, next) \<leftarrow> impl_next impl obj;
           let jb = jb\<lparr> aj_obj := Some obj, aj_next := next \<rparr>;
           if now < next then Some (chan\<lparr> ch_jb := jb \<rparr>, w)
           else do { (jb, w) \<leftarrow> deliver_loop now jb w; Some (chan\<lparr> ch_jb := jb \<rparr>, w) } })"

definition ast_jb_get_and_deliver ::
    "timeval \<Rightarrow> timeval \<Rightarrow> 'o jb_channel \<Rightarrow> 'o jb_channel \<Rightarrow> frame_world
      \<Rightarrow> ('o jb_channel \<times> 'o jb_channel \<times> frame_world) option" where
  "ast_jb_get_and_deliver tv0 tv1 c0 c1 w =
     do { (c0, w) \<leftarrow> (if aj_use (ch_jb c0) \<and> aj_created (ch_jb c0) then jb_get_and_deliver tv0 c0 w else Some (c0, w));
          (c1, w) \<leftarrow> (if aj_use (ch_jb c1) \<and> aj_created (ch_jb c1) then jb_get_and_deliver tv1 c1 w else Some (c1, w));
          Some (c0, c1, w) }"

partial_function (option) remove_loop :: "'o ast_jb_impl \<Rightarrow> 'o \<Rightarrow> frame_world \<Rightarrow> ('o \<times> frame_world) option" where
  "remove_loop impl obj w =
     do { (obj, fo, res) \<leftarrow> impl_remove impl obj;
          if res = JB_IMPL_OK then do { f \<leftarrow> fo; remove_loop impl obj (ast_frfree f w) }
          else Some (obj, w) }"

definition ast_jb_destroy :: "'o jb_channel \<Rightarrow> frame_world \<Rightarrow> ('o jb_channel \<times> frame_world) option" where
  "ast_jb_destroy chan w =
     (let jb = (ch_jb chan)\<lparr> aj_logfile := None \<rparr> in
      if aj_created jb then
        do { impl \<leftarrow> aj_impl jb; obj \<leftarrow> aj_obj jb; (obj, w) \<leftarrow> remove_loop impl obj w;
             _ \<leftarrow> impl_destroy impl obj;
             Some (chan\<lparr> ch_jb := jb\<lparr> aj_obj := None, aj_created := False \<rparr> \<rparr>, w) }
      else Some (chan\<lparr> ch_jb := jb \<rparr>, w))"

definition AST_JB_IMPL_NAME_SIZE :: nat where "AST_JB_IMPL_NAME_SIZE = 12"

definition ast_jb_read_conf :: "ast_jb_conf \<Rightarrow> string \<Rightarrow> string \<Rightarrow> ast_jb_conf \<times> int" where
  "ast_jb_read_conf conf varname val =
     (if \<not> strcaseeq ''jb'' (take 2 varname) then (conf, -1)
      else
        let name = drop 2 varname in
        if strcaseeq name ''enable'' then (conf\<lparr> ac_enabled := ast_true (Some val) \<rparr>, 0)
        else if strcaseeq name ''force'' then (conf\<lparr> ac_forced := ast_true (Some val) \<rparr>, 0)
        else if strcaseeq name ''maxsize'' then
          (if atoi val > 0 then conf\<lparr> ac_max_size := atoi val \<rparr> else conf, 0)
        else if strcaseeq name ''resyncthreshold'' then
          (if atoi val > 0 then conf\<lparr> ac_resync_threshold := atoi val \<rparr> else conf, 0)
        else if strcaseeq name ''impl'' then
          (if val \<noteq> [] then conf\<lparr> ac_impl := take (AST_JB_IMPL_NAME_SIZE - 1) val \<rparr> else conf, 0)
        else if strcaseeq name ''log'' then (conf\<lparr> ac_log := ast_true (Some val) \<rparr>, 0)
        else (conf, -1))"

definition ast_jb_configure :: "'o jb_channel \<Rightarrow> ast_jb_conf \<Rightarrow> 'o jb_channel" where
  "ast_jb_configure chan conf = chan\<lparr> ch_jb := (ch_jb chan)\<lparr> aj_conf := conf \<rparr> \<rparr>"

definition ast_jb_get_config :: "'o jb_channel \<Rightarrow> ast_jb_conf" where
  "ast_jb_get_config chan = aj_conf (ch_jb chan)"

definition empty_and_reset_one :: "'o jb_channel \<Rightarrow> frame_world \<Rightarrow> ('o jb_channel \<times> frame_world) option" where
  "empty_and_reset_one chan w =
     (let jb = ch_jb chan in
      if aj_use jb \<and> aj_created jb then
        do { impl \<leftarrow> aj_impl jb; obj \<leftarrow> aj_obj jb; (obj, fs) \<leftarrow> impl_empty_and_reset impl obj;
             Some (chan\<lparr> ch_jb := jb\<lparr> aj_obj := Some obj \<rparr> \<rparr>, fold ast_frfree fs w) }
      else Some (chan, w))"

definition ast_jb_empty_and_reset ::
    "'o jb_channel \<Rightarrow> 'o jb_channel \<Rightarrow> frame_world \<Rightarrow> ('o jb_channel \<times> 'o jb_channel \<times> frame_world) option" where
  "ast_jb_empty_and_reset c0 c1 w =
     do { (c0, w) \<leftarrow> empty_and_reset_one c0 w; (c1, w) \<leftarrow> empty_and_reset_one c1 w; Some (c0, c1, w) }"

declare deliver_loop.simps [code] remove_loop.simps [code]

section \<open>The contract of an implementation\<close>

text \<open>A frame that \<open>ast_jb_put\<close> lets through to the implementation.\<close>

definition playable :: "ast_frame \<Rightarrow> bool" where
  "playable f \<longleftrightarrow> 2 \<le> f_len f \<and> 0 \<le> f_ts f"

text \<open>
  \<open>queued\<close> gives the frames an object holds, in the order in which it returns them, \<open>inv\<close> its
  invariant and \<open>credit\<close> a bound on the frames it can still interpolate until a time. The
  allocations of a put succeed.
\<close>

locale jb_contract =
  fixes impl :: "'o ast_jb_impl" and queued :: "'o \<Rightarrow> ast_frame list"
    and inv :: "'o \<Rightarrow> bool" and credit :: "int \<Rightarrow> 'o \<Rightarrow> nat"
  assumes create_empty: "impl_create impl alloc conf thr = Some obj \<Longrightarrow> inv obj \<and> queued obj = []"
    and put_keeps: "\<lbrakk> inv obj; playable f; 0 \<le> now \<rbrakk> \<Longrightarrow> \<exists>obj' code.
      impl_put impl True obj f now = Some (obj', code) \<and> inv obj' \<and>
      mset (queued obj') = (if code = JB_IMPL_OK then {#f#} else {#}) + mset (queued obj)"
    and put_first_keeps: "\<lbrakk> inv obj; queued obj = []; playable f; 0 \<le> now \<rbrakk> \<Longrightarrow> \<exists>obj' code.
      impl_put_first impl True obj f now = Some (obj', code) \<and> inv obj' \<and>
      queued obj' = (if code = JB_IMPL_OK then [f] else [])"
    and get_takes: "\<lbrakk> inv obj; 0 \<le> now; 2 \<le> interpl \<rbrakk> \<Longrightarrow> \<exists>obj' fo code.
      impl_get impl obj now interpl = Some (obj', fo, code) \<and> inv obj' \<and>
      (case fo of
         Some f \<Rightarrow> (code = JB_IMPL_OK \<or> code = JB_IMPL_DROP) \<and> queued obj = f # queued obj'
       | None \<Rightarrow> (code = JB_IMPL_INTERP \<or> code = JB_IMPL_NOFRAME) \<and> queued obj' = queued obj)"
    and next_keeps: "inv obj \<Longrightarrow> \<exists>obj' n. impl_next impl obj = Some (obj', n) \<and> inv obj' \<and>
      queued obj' = queued obj \<and> (\<forall>now. credit now obj' = credit now obj)"
    and interp_spends: "\<lbrakk> inv obj0; impl_next impl obj0 = Some (obj, n); n \<le> now; 0 \<le> now; 2 \<le> interpl;
      impl_get impl obj now interpl = Some (obj', None, JB_IMPL_INTERP) \<rbrakk> \<Longrightarrow> credit now obj' < credit now obj"
    and remove_takes: "inv obj \<Longrightarrow> \<exists>obj' fo code. impl_remove impl obj = Some (obj', fo, code) \<and> inv obj' \<and>
      (case queued obj of
         [] \<Rightarrow> code \<noteq> JB_IMPL_OK \<and> queued obj' = []
       | f # fs \<Rightarrow> code = JB_IMPL_OK \<and> fo = Some f \<and> queued obj' = fs)"
    and destroy_empty: "inv obj \<Longrightarrow> queued obj = [] \<Longrightarrow> impl_destroy impl obj = Some ()"
    and force_keeps: "inv obj \<Longrightarrow> \<exists>obj'. impl_force_resync impl obj = Some obj' \<and> inv obj' \<and> queued obj' = queued obj"
    and reset_empties: "inv obj \<Longrightarrow> \<exists>obj'. impl_empty_and_reset impl obj = Some (obj', queued obj) \<and>
      inv obj' \<and> queued obj' = []"

subsection \<open>Both implementations provide it\<close>

fun obj_queued :: "jb_obj \<Rightarrow> ast_frame list" where
  "obj_queued (Fixed_jb jb) = map ff_data (fj_frames jb)"
| "obj_queued (Adaptive_jb jb) = map fr_data (jb_frames jb)"

fun fixed_obj_ok :: "jb_obj \<Rightarrow> bool" where
  "fixed_obj_ok (Fixed_jb jb) \<longleftrightarrow> fixed_wf jb"
| "fixed_obj_ok (Adaptive_jb jb) \<longleftrightarrow> False"

fun adaptive_obj_ok :: "jb_obj \<Rightarrow> bool" where
  "adaptive_obj_ok (Fixed_jb jb) \<longleftrightarrow> False"
| "adaptive_obj_ok (Adaptive_jb jb) \<longleftrightarrow> jb_inv jb"

text \<open>The time that is not yet covered by frames or interpolated frames.\<close>

fun obj_credit :: "int \<Rightarrow> jb_obj \<Rightarrow> nat" where
  "obj_credit now (Fixed_jb jb) = nat (now + 1 - fj_next_delivery jb)"
| "obj_credit now (Adaptive_jb jb) = nat (now + 1 - next_voice_ts (jb_inf jb))"

lemma obj_ok_cases:
  "fixed_obj_ok obj \<longleftrightarrow> (\<exists>jb. obj = Fixed_jb jb \<and> fixed_wf jb)"
  "adaptive_obj_ok obj \<longleftrightarrow> (\<exists>jb. obj = Adaptive_jb jb \<and> jb_inv jb)"
  by (cases obj; simp)+

lemma fixed_result_mset:
  assumes "fixed_put_result jb f ms jb' code"
  shows "mset (map ff_data (fj_frames jb')) =
    (if fixed_to_abstract_code code = JB_IMPL_OK then {#f#} else {#}) + mset (map ff_data (fj_frames jb))"
proof -
  have data: "map ff_data fs = map fst (map frame_view fs)" for fs :: "'a fixed_jb_frame list"
    by (simp add: frame_view_def)
  show ?thesis
    using assms unfolding fixed_put_result_def data by (auto simp: inserted_def simp del: map_map mset_map)
qed

lemma empty_fixed_all:
  "fixed_wf jb \<Longrightarrow> length (fj_frames jb) < n \<Longrightarrow>
   \<exists>jb'. empty_fixed n jb = Some (jb', map ff_data (fj_frames jb)) \<and> fixed_wf jb' \<and> fj_frames jb' = []"
proof (induction n arbitrary: jb)
  case (Suc n)
  show ?case
  proof (cases "fj_frames jb")
    case (Cons f rest)
    with Suc.IH [of "jb\<lparr> fj_frames := rest, fj_next_delivery := ff_delivery f + ff_ms f \<rparr>"] Suc.prems
    show ?thesis by (auto simp: fixed_jb_remove_eq fixed_wf_tail)
  qed (use Suc.prems in \<open>simp add: fixed_jb_remove_eq\<close>)
qed simp

lemma empty_adaptive_all:
  "jb_inv jb \<Longrightarrow> length (jb_frames jb) < n \<Longrightarrow>
   \<exists>jb'. empty_adaptive n jb = Some (jb', map fr_data (jb_frames jb)) \<and> jb_inv jb' \<and> jb_frames jb' = []"
proof (induction n arbitrary: jb)
  case (Suc n)
  show ?case
  proof (cases "jb_frames jb")
    case (Cons f rest)
    obtain jb1 where jb1: "jb_getall jb any_frame = (jb1, f, JB_OK)" "jb_frames jb1 = rest"
      using jb_getall_frame(1) [OF Cons] by blast
    moreover have "jb_inv jb1" using jb_inv_getall [OF Suc.prems(1), of any_frame] jb1 by simp
    ultimately show ?thesis using Suc.IH [of jb1] Suc.prems Cons by auto
  qed (use Suc.prems in \<open>simp add: jb_getall_frame\<close>)
qed simp

interpretation fixed_jbs: jb_contract fixed_impl obj_queued fixed_obj_ok obj_credit
proof
  show "fixed_obj_ok obj \<and> obj_queued obj = []" if "impl_create fixed_impl alloc conf thr = Some obj" for alloc conf thr obj
    using that by (auto simp: fixed_impl_def jb_create_fixed_def fixed_jb_new_wf) (auto simp: fixed_jb_new_def Let_def split: if_splits)
  fix obj :: jb_obj and f :: ast_frame and now interpl :: int
  assume "fixed_obj_ok obj"
  then obtain jb where jb: "obj = Fixed_jb jb" "fixed_wf jb" by (auto simp: obj_ok_cases)
  show "\<exists>obj' code. impl_put fixed_impl True obj f now = Some (obj', code) \<and> fixed_obj_ok obj' \<and>
      mset (obj_queued obj') = (if code = JB_IMPL_OK then {#f#} else {#}) + mset (obj_queued obj)"
    if "playable f" "0 \<le> now"
    using fixed_jb_put_effect [OF jb(2), of f "f_len f" "f_ts f" now 4] that fixed_result_mset
    by (fastforce simp: jb fixed_impl_def fixed_input_ok_def playable_def fixed_put_result_def)
  show "\<exists>obj' code. impl_put_first fixed_impl True obj f now = Some (obj', code) \<and> fixed_obj_ok obj' \<and>
      obj_queued obj' = (if code = JB_IMPL_OK then [f] else [])"
    if "obj_queued obj = []" "playable f" "0 \<le> now"
    using fixed_put_first_empty(1) [OF jb(2), of f "f_len f" "f_ts f" now 3]
      fixed_put_first_empty(2) [OF jb(2), of f "f_len f" "f_ts f" now] that
    by (simp add: jb fixed_impl_def fixed_input_ok_def playable_def fixed_put_result_def eval_nat_numeral)
      (simp add: fixed_stored_def fixed_insert_def)
  show "\<exists>obj' fo code. impl_get fixed_impl obj now interpl = Some (obj', fo, code) \<and> fixed_obj_ok obj' \<and>
      (case fo of
         Some f \<Rightarrow> (code = JB_IMPL_OK \<or> code = JB_IMPL_DROP) \<and> obj_queued obj = f # obj_queued obj'
       | None \<Rightarrow> (code = JB_IMPL_INTERP \<or> code = JB_IMPL_NOFRAME) \<and> obj_queued obj' = obj_queued obj)"
    if now: "0 \<le> now" "2 \<le> interpl"
  proof -
    obtain jb' fr code where g: "fixed_jb_get jb now interpl = Inr (jb', fr, code)"
      using fixed_jb_get_total [OF now] by blast
    from fixed_jb_get_wf [OF this jb(2)] have "fixed_wf jb'" .
    with g show ?thesis
      by (cases rule: fixed_jb_get_cases [OF g]) (auto simp: jb fixed_impl_def)
  qed
  show "\<exists>obj' n. impl_next fixed_impl obj = Some (obj', n) \<and> fixed_obj_ok obj' \<and>
      obj_queued obj' = obj_queued obj \<and> (\<forall>now. obj_credit now obj' = obj_credit now obj)"
    using jb by (simp add: fixed_impl_def)
  show "obj_credit now obj' < obj_credit now obj1"
    if "impl_next fixed_impl obj = Some (obj1, n)" "n \<le> now" "2 \<le> interpl"
      "impl_get fixed_impl obj1 now interpl = Some (obj', None, JB_IMPL_INTERP)" for obj1 n obj'
    using that jb by (auto simp: fixed_impl_def fixed_jb_next_def split: sum.splits elim!: fixed_jb_get_cases)
  show "\<exists>obj' fo code. impl_remove fixed_impl obj = Some (obj', fo, code) \<and> fixed_obj_ok obj' \<and>
      (case obj_queued obj of
         [] \<Rightarrow> code \<noteq> JB_IMPL_OK \<and> obj_queued obj' = []
       | f # fs \<Rightarrow> code = JB_IMPL_OK \<and> fo = Some f \<and> obj_queued obj' = fs)"
    using jb by (auto simp: fixed_impl_def fixed_jb_remove_eq fixed_wf_tail split: list.splits)
  show "impl_destroy fixed_impl obj = Some ()" if "obj_queued obj = []"
    using jb that by (simp add: fixed_impl_def fixed_jb_destroy_def)
  show "\<exists>obj'. impl_force_resync fixed_impl obj = Some obj' \<and> fixed_obj_ok obj' \<and> obj_queued obj' = obj_queued obj"
    using jb by (simp add: fixed_impl_def fixed_jb_set_force_resynch_wf) (simp add: fixed_jb_set_force_resynch_def)
  show "\<exists>obj'. impl_empty_and_reset fixed_impl obj = Some (obj', obj_queued obj) \<and> fixed_obj_ok obj' \<and> obj_queued obj' = []"
    using empty_fixed_all [OF jb(2)] jb by (fastforce simp: fixed_impl_def simp del: empty_fixed.simps)
qed

lemma history_get_voice [simp]:
  "next_voice_ts (jb_inf (history_get jb)) = next_voice_ts (jb_inf jb)"
  "silence_begin_ts (jb_inf (history_get jb)) = silence_begin_ts (jb_inf jb)"
  by (simp_all add: history_get_alt Let_def)

lemma jb_next_voice:
  "jb_next jb = (jb', n) \<Longrightarrow> next_voice_ts (jb_inf jb') = next_voice_ts (jb_inf jb) \<and> jb_frames jb' = jb_frames jb \<and>
   silence_begin_ts (jb_inf jb') = silence_begin_ts (jb_inf jb) \<and>
   (silence_begin_ts (jb_inf jb) = 0 \<longrightarrow> n = next_voice_ts (jb_inf jb))"
  by (auto simp: jb_next_def Let_def split: if_splits)

text \<open>Frames are interpolated outside silence only, and each one moves the time of the next frame.\<close>

lemma jb_get_dequeued_interp:
  "jb_get_dequeued jb frame fo now interpl diff = (jb', fo', JB_INTERP) \<Longrightarrow>
   next_voice_ts (jb_inf jb') = next_voice_ts (jb_inf jb) + interpl"
  by (auto simp: jb_get_dequeued_def Let_def contig_interp_check_def split: option.splits if_splits)

lemma jb_get_interp:
  assumes "jb_get jb fo now interpl = (jb', fo', JB_INTERP)"
  shows "silence_begin_ts (jb_inf jb) = 0"
    and "next_voice_ts (jb_inf jb') = next_voice_ts (jb_inf jb) + interpl"
proof -
  let ?jb = "jb_get_target jb"
  have t: "next_voice_ts (jb_inf ?jb) = next_voice_ts (jb_inf jb)" "silence_begin_ts (jb_inf ?jb) = silence_begin_ts (jb_inf jb)"
    by (simp_all add: jb_get_target_def Let_def)
  have q: "next_voice_ts (jb_inf (fst (queue_get ?jb ts))) = next_voice_ts (jb_inf ?jb)" for ts
    by (simp add: queue_get_def queue_get_core_def split: list.splits)
  obtain fo1 where c: "jb_get_core jb fo now interpl = (jb', fo1, JB_INTERP)"
    using assms by (auto simp: jb_get_def Let_def split: prod.splits)
  then show s: "silence_begin_ts (jb_inf jb) = 0"
    by (auto simp: jb_get_core_def t Let_def jb_get_silence_def jb_get_silence_dequeued_def
        split: if_splits prod.splits option.splits)
  from c show "next_voice_ts (jb_inf jb') = next_voice_ts (jb_inf jb) + interpl"
    using q by (auto simp: jb_get_core_def t s Let_def jb_get_voice_def contig_interp_check_def case_prod_unfold
        dest: jb_get_dequeued_interp split: if_splits)
qed

lemma adaptive_put_mset:
  assumes "jb_put True jb f t ms ts now = (jb', r)" "jb_inv jb"
  shows "mset (map fr_data (jb_frames jb')) =
    (if adaptive_to_abstract_code r = JB_IMPL_OK then {#f#} else {#}) + mset (map fr_data (jb_frames jb))"
  using jb_put_link [OF assms(1) refl] assms(2) jbq.ins_mset [of "jb_frames jb" "jb_entry jb' f t ms ts"]
  by (auto simp: jb_inv_def jb_entry_def split: if_splits list.splits)

lemma adaptive_put_first_empty:
  assumes "jb_put True jb f t ms ts now = (jb', r)" "jb_frames jb = []"
  shows "map fr_data (jb_frames jb') = (if adaptive_to_abstract_code r = JB_IMPL_OK then [f] else [])"
  using jb_put_link [OF assms(1) refl] assms(2)
  by (auto simp: queue_link_def jb_entry_def split: if_splits)

interpretation adaptive_jbs: jb_contract adaptive_impl obj_queued adaptive_obj_ok obj_credit
proof
  show "adaptive_obj_ok obj \<and> obj_queued obj = []" if "impl_create adaptive_impl alloc conf thr = Some obj" for alloc conf thr obj
    using that by (auto simp: adaptive_impl_def jb_create_adaptive_def jb_new_def jb_inv_setconf jb_inv_reset split: if_splits)
      (simp add: jb_setconf_def jb_reset_def)
  fix obj :: jb_obj and f :: ast_frame and now interpl :: int
  assume "adaptive_obj_ok obj"
  then obtain jb where jb: "obj = Adaptive_jb jb" "jb_inv jb" by (auto simp: obj_ok_cases)
  have put: "\<exists>obj' code. jb_put_adaptive True (Adaptive_jb jb) f now = Some (obj', code) \<and> adaptive_obj_ok obj' \<and>
      mset (obj_queued obj') = (if code = JB_IMPL_OK then {#f#} else {#}) + mset (obj_queued (Adaptive_jb jb))"
    if "jb_inv jb" for jb :: "ast_frame jitterbuf"
    using that jb_inv_put [OF that, of True f JB_TYPE_VOICE "f_len f" "f_ts f" now] adaptive_put_mset
    by (cases "jb_put True jb f JB_TYPE_VOICE (f_len f) (f_ts f) now") fastforce
  show "\<exists>obj' code. impl_put adaptive_impl True obj f now = Some (obj', code) \<and> adaptive_obj_ok obj' \<and>
      mset (obj_queued obj') = (if code = JB_IMPL_OK then {#f#} else {#}) + mset (obj_queued obj)"
    using put jb by (simp add: adaptive_impl_def)
  show "\<exists>obj' code. impl_put_first adaptive_impl True obj f now = Some (obj', code) \<and> adaptive_obj_ok obj' \<and>
      obj_queued obj' = (if code = JB_IMPL_OK then [f] else [])"
    if "obj_queued obj = []"
  proof -
    let ?jb = "jb_inf_update (resync_offset_update (\<lambda>_. f_ts f)) jb"
    have "jb_inv ?jb" "jb_frames ?jb = []" using jb that by (simp_all add: jb_inv_def)
    then show ?thesis
      using jb_inv_put [of ?jb True f JB_TYPE_VOICE "f_len f" "f_ts f" now] adaptive_put_first_empty [of ?jb]
      by (cases "jb_put True ?jb f JB_TYPE_VOICE (f_len f) (f_ts f) now") (fastforce simp: jb adaptive_impl_def)
  qed
  show "\<exists>obj' fo code. impl_get adaptive_impl obj now interpl = Some (obj', fo, code) \<and> adaptive_obj_ok obj' \<and>
      (case fo of
         Some f \<Rightarrow> (code = JB_IMPL_OK \<or> code = JB_IMPL_DROP) \<and> obj_queued obj = f # obj_queued obj'
       | None \<Rightarrow> (code = JB_IMPL_INTERP \<or> code = JB_IMPL_NOFRAME) \<and> obj_queued obj' = obj_queued obj)"
    using jb_get_effect [of jb any_frame now interpl] jb
    by (cases "jb_get jb any_frame now interpl") (auto simp: adaptive_impl_def jb_take_effect_def split: if_splits)
  show "\<exists>obj' n. impl_next adaptive_impl obj = Some (obj', n) \<and> adaptive_obj_ok obj' \<and>
      obj_queued obj' = obj_queued obj \<and> (\<forall>now. obj_credit now obj' = obj_credit now obj)"
    using jb jb_inv_next [OF jb(2)] jb_next_voice [of jb] by (cases "jb_next jb") (simp add: adaptive_impl_def)
  show "obj_credit now obj' < obj_credit now obj1"
    if call: "impl_next adaptive_impl obj = Some (obj1, n)" "n \<le> now" "2 \<le> interpl"
      "impl_get adaptive_impl obj1 now interpl = Some (obj', None, JB_IMPL_INTERP)" for obj1 n obj'
  proof -
    obtain jb1 where jb1: "jb_next jb = (jb1, n)" "obj1 = Adaptive_jb jb1"
      using call(1) jb by (auto simp: adaptive_impl_def split: prod.splits)
    obtain jb2 fo res where g: "jb_get jb1 any_frame now interpl = (jb2, fo, res)" by (cases "jb_get jb1 any_frame now interpl")
    have "res = JB_INTERP" and o2: "obj' = Adaptive_jb jb2"
      using call(4) g by (cases res; simp add: adaptive_impl_def jb1)+
    with jb_get_interp [of jb1 any_frame now interpl jb2 fo] g jb_next_voice [OF jb1(1)] call(2,3)
    show ?thesis by (simp add: jb1 o2)
  qed
  show "\<exists>obj' fo code. impl_remove adaptive_impl obj = Some (obj', fo, code) \<and> adaptive_obj_ok obj' \<and>
      (case obj_queued obj of
         [] \<Rightarrow> code \<noteq> JB_IMPL_OK \<and> obj_queued obj' = []
       | f # fs \<Rightarrow> code = JB_IMPL_OK \<and> fo = Some f \<and> obj_queued obj' = fs)"
    using jb jb_inv_getall [OF jb(2), of any_frame] jb_getall_frame(1) [of jb _ _ any_frame] jb_getall_frame(2) [of jb any_frame]
    by (cases "jb_frames jb") (fastforce simp: adaptive_impl_def)+
  show "impl_destroy adaptive_impl obj = Some ()"
    using jb by (simp add: adaptive_impl_def)
  show "\<exists>obj'. impl_force_resync adaptive_impl obj = Some obj' \<and> adaptive_obj_ok obj' \<and> obj_queued obj' = obj_queued obj"
    using jb by (simp add: adaptive_impl_def)
  show "\<exists>obj'. impl_empty_and_reset adaptive_impl obj = Some (obj', obj_queued obj) \<and> adaptive_obj_ok obj' \<and> obj_queued obj' = []"
    using empty_adaptive_all [OF jb(2)] jb jb_inv_reset
    by (fastforce simp: adaptive_impl_def jb_reset_def simp del: empty_adaptive.simps)
qed

end
