(* ===== verification/Jb_Bridge.thy ===== *)
theory Jb_Bridge
  imports Abstract_Jb
begin

text \<open>
  Two bridged channels and their jitter buffers, on top of \<open>Abstract_Jb\<close>: the frames that
  \<open>ast_jb_put\<close> duplicates are followed through every operation until they are freed. The lemmas
  about one channel are proved once from the contract of an implementation; runs of a bridge then
  hold for either implementation on either side.
\<close>

section \<open>Accounting for frames\<close>

fun dup_of :: "jb_event \<Rightarrow> ast_frame multiset" where
  "dup_of (Dup f) = {#f#}" | "dup_of (Write f) = {#}" | "dup_of (Interp f) = {#}" | "dup_of (Free f) = {#}"

fun write_of :: "jb_event \<Rightarrow> ast_frame multiset" where
  "write_of (Dup f) = {#}" | "write_of (Write f) = {#f#}" | "write_of (Interp f) = {#}" | "write_of (Free f) = {#}"

fun free_of :: "jb_event \<Rightarrow> ast_frame multiset" where
  "free_of (Dup f) = {#}" | "free_of (Write f) = {#}" | "free_of (Interp f) = {#}" | "free_of (Free f) = {#f#}"

definition dups :: "frame_world \<Rightarrow> ast_frame multiset" where
  "dups w = sum_list (map dup_of (fw_log w))"

definition writes :: "frame_world \<Rightarrow> ast_frame multiset" where
  "writes w = sum_list (map write_of (fw_log w))"

definition frees :: "frame_world \<Rightarrow> ast_frame multiset" where
  "frees w = sum_list (map free_of (fw_log w))"

text \<open>
  The frames duplicated so far are those freed and those in \<open>held\<close>, and what was delivered is
  among those freed.
\<close>

definition accounts :: "ast_frame multiset \<Rightarrow> frame_world \<Rightarrow> bool" where
  "accounts held w \<longleftrightarrow> dups w = frees w + held \<and> writes w \<subseteq># frees w"

lemma accounts_events:
  "accounts (add_mset f held) w \<Longrightarrow> accounts held (ast_frfree f w)"
  "accounts (add_mset f held) w \<Longrightarrow> accounts held (ast_frfree f (jb_write (Write f) w))"
  "accounts held w \<Longrightarrow> accounts (add_mset f held) (jb_write (Dup f) w)"
  "accounts held w \<Longrightarrow> accounts held (jb_write (Interp f) w)"
  "accounts held (w\<lparr> fw_cache := c \<rparr>) = accounts held w"
  by (auto simp: accounts_def dups_def writes_def frees_def ast_frfree_def jb_write_def
      intro: subset_mset.order_trans)

lemma accounts_free_all: "accounts (mset fs + held) w \<Longrightarrow> accounts held (fold ast_frfree fs w)"
  by (induction fs arbitrary: w) (auto intro: accounts_events)

text \<open>The part of a jitter buffer's state that delivery does not change.\<close>

definition jb_core :: "'o ast_jb \<Rightarrow> 'o ast_jb" where
  "jb_core jb = jb\<lparr> aj_obj := None, aj_next := 0, aj_last_format := 0 \<rparr>"

lemma jb_core_upd [simp]:
  "jb_core (jb\<lparr> aj_obj := ob \<rparr>) = jb_core jb" "jb_core (jb\<lparr> aj_next := n \<rparr>) = jb_core jb"
  "jb_core (jb\<lparr> aj_last_format := n \<rparr>) = jb_core jb"
  by (simp_all add: jb_core_def)

lemma jb_core_eqD:
  assumes "jb_core jb' = jb_core jb"
  shows "aj_impl jb' = aj_impl jb" "aj_use jb' = aj_use jb" "aj_created jb' = aj_created jb"
    "aj_timebase jb' = aj_timebase jb" "aj_timebase_initialized jb' = aj_timebase_initialized jb"
    "aj_conf jb' = aj_conf jb"
  using arg_cong [OF assms, of aj_impl] arg_cong [OF assms, of aj_use] arg_cong [OF assms, of aj_created]
    arg_cong [OF assms, of aj_timebase] arg_cong [OF assms, of aj_timebase_initialized] arg_cong [OF assms, of aj_conf]
  by (simp_all add: jb_core_def)

lemma interp_len_ge: "2 \<le> ast_codec_interp_len format"
  by (simp add: ast_codec_interp_len_def)

context jb_contract begin

lemma deliver_step_effect:
  assumes jb: "aj_impl jb = Some impl" "aj_obj jb = Some obj"
    and fresh: "inv obj0" "impl_next impl obj0 = Some (obj, aj_next jb)" "aj_next jb \<le> now" "0 \<le> now"
    and acc: "accounts (mset (queued obj) + held) w"
  shows "\<exists>jb' w' stop obj'. deliver_step now jb w = Some (jb', w', stop) \<and> jb_core jb' = jb_core jb \<and>
    aj_obj jb' = Some obj' \<and> inv obj' \<and> accounts (mset (queued obj') + held) w' \<and>
    (\<not> stop \<longrightarrow> (\<exists>obj1. inv obj1 \<and> impl_next impl obj1 = Some (obj', aj_next jb')) \<and>
      ((length (queued obj'), credit now obj'), (length (queued obj), credit now obj)) \<in> less_than <*lex*> less_than)"
proof -
  let ?len = "ast_codec_interp_len (aj_last_format jb)"
  have inv: "inv obj" using next_keeps [OF fresh(1)] fresh(2) by auto
  obtain obj1 fo code where get: "impl_get impl obj now ?len = Some (obj1, fo, code)" "inv obj1"
    and cases: "case fo of
         Some f \<Rightarrow> (code = JB_IMPL_OK \<or> code = JB_IMPL_DROP) \<and> queued obj = f # queued obj1
       | None \<Rightarrow> (code = JB_IMPL_INTERP \<or> code = JB_IMPL_NOFRAME) \<and> queued obj1 = queued obj"
    using get_takes [OF inv fresh(4) interp_len_ge] by blast
  obtain obj2 n where nxt: "impl_next impl obj1 = Some (obj2, n)" "inv obj2" "queued obj2 = queued obj1"
    "credit now obj2 = credit now obj1"
    using next_keeps [OF get(2)] by blast
  show ?thesis
  proof (cases fo)
    case None
    with cases consider "code = JB_IMPL_INTERP" "queued obj1 = queued obj" | "code = JB_IMPL_NOFRAME" "queued obj1 = queued obj"
      by auto
    then show ?thesis
    proof cases
      case 1
      have "credit now obj1 < credit now obj"
        using interp_spends [OF fresh interp_len_ge] get(1) by (simp add: None 1)
      with 1 None get nxt acc show ?thesis
        by (auto simp: deliver_step_def jb deliver_next_def intro: accounts_events)
    qed (use None get nxt acc in \<open>auto simp: deliver_step_def jb\<close>)
  next
    case (Some f)
    with cases have q: "queued obj = f # queued obj1" and "code = JB_IMPL_OK \<or> code = JB_IMPL_DROP" by auto
    moreover have "accounts (mset (queued obj1) + held) (ast_frfree f (jb_write (Write f) w))"
        "accounts (mset (queued obj1) + held) (ast_frfree f w)"
      using acc by (simp_all add: q accounts_events)
    ultimately show ?thesis
      using Some get nxt by (auto simp: deliver_step_def jb deliver_next_def intro!: exI [of _ False])
  qed
qed

text \<open>The delivery loop ends: it runs out of frames or of time to interpolate.\<close>

lemma deliver_loop_effect:
  assumes "aj_impl jb = Some impl" "aj_obj jb = Some obj" "inv obj0" "impl_next impl obj0 = Some (obj, aj_next jb)"
    "0 \<le> now" "accounts (mset (queued obj) + held) w"
  shows "\<exists>jb' w' obj'. deliver_loop now jb w = Some (jb', w') \<and> jb_core jb' = jb_core jb \<and>
    aj_obj jb' = Some obj' \<and> inv obj' \<and> accounts (mset (queued obj') + held) w'"
  using assms
proof (induction "(length (queued obj), credit now obj)" arbitrary: jb obj obj0 w
    rule: wf_induct_rule [OF wf_lex_prod [OF wf_less_than wf_less_than]])
  case (1 obj jb obj0 w)
  show ?case
  proof (cases "aj_next jb \<le> now")
    case True
    obtain jb1 w1 stop obj1 where step: "deliver_step now jb w = Some (jb1, w1, stop)" "jb_core jb1 = jb_core jb"
        "aj_obj jb1 = Some obj1" "inv obj1" "accounts (mset (queued obj1) + held) w1"
      and more: "\<not> stop \<Longrightarrow> (\<exists>obj2. inv obj2 \<and> impl_next impl obj2 = Some (obj1, aj_next jb1)) \<and>
        ((length (queued obj1), credit now obj1), (length (queued obj), credit now obj)) \<in> less_than <*lex*> less_than"
      using deliver_step_effect [OF 1(2-5) True 1(6,7)] by blast
    show ?thesis
    proof (cases stop)
      case False
      then obtain obj2 where "inv obj2" "impl_next impl obj2 = Some (obj1, aj_next jb1)"
        using more by blast
      moreover have "aj_impl jb1 = Some impl" using jb_core_eqD(1) [OF step(2)] 1(2) by simp
      ultimately show ?thesis
        using 1(1) [of obj1 jb1 obj2 w1] more False step 1(6) True
        by (simp add: deliver_loop.simps [of now jb])
    qed (use step True in \<open>simp add: deliver_loop.simps [of now jb]\<close>)
  next
    case False
    then show ?thesis
      using 1(2-7) next_keeps [of obj0] by (simp add: deliver_loop.simps [of now jb])
  qed
qed

lemma get_and_deliver_effect:
  assumes "aj_impl (ch_jb c) = Some impl" "aj_obj (ch_jb c) = Some obj" "inv obj" "0 \<le> get_now (ch_jb c) tv"
    "accounts (mset (queued obj) + held) w"
  shows "\<exists>c' w' obj'. jb_get_and_deliver tv c w = Some (c', w') \<and> jb_core (ch_jb c') = jb_core (ch_jb c) \<and>
    aj_obj (ch_jb c') = Some obj' \<and> inv obj' \<and> accounts (mset (queued obj') + held) w'"
proof -
  obtain obj1 n where nxt: "impl_next impl obj = Some (obj1, n)" "inv obj1" "queued obj1 = queued obj"
    using next_keeps [OF assms(3)] by blast
  let ?jb = "(ch_jb c)\<lparr> aj_obj := Some obj1, aj_next := n \<rparr>"
  have "\<exists>jb' w' obj'. deliver_loop (get_now (ch_jb c) tv) ?jb w = Some (jb', w') \<and> jb_core jb' = jb_core ?jb \<and>
    aj_obj jb' = Some obj' \<and> inv obj' \<and> accounts (mset (queued obj') + held) w'"
    by (rule deliver_loop_effect [of ?jb obj1 obj]) (use assms nxt in simp_all)
  then show ?thesis
    using assms nxt by (auto simp: jb_get_and_deliver_def Let_def)
qed

lemma remove_loop_effect:
  assumes "inv obj" "accounts (mset (queued obj) + held) w"
  shows "\<exists>obj' w'. remove_loop impl obj w = Some (obj', w') \<and> inv obj' \<and> queued obj' = [] \<and> accounts held w'"
  using assms
proof (induction "queued obj" arbitrary: obj w)
  case Nil
  then show ?case
    using remove_takes [OF Nil(2)] by (auto simp: remove_loop.simps [of impl obj])
next
  case (Cons f fs)
  obtain obj1 where r: "impl_remove impl obj = Some (obj1, Some f, JB_IMPL_OK)" "inv obj1" "queued obj1 = fs"
    using remove_takes [OF Cons(3)] Cons(2) [symmetric] by auto
  moreover have "accounts (mset (queued obj1) + held) (ast_frfree f w)"
    using Cons(4) by (auto simp flip: Cons(2) simp: r intro: accounts_events)
  ultimately show ?case
    using Cons(1) [of obj1 "ast_frfree f w"] by (simp add: remove_loop.simps [of impl obj])
qed

end

section \<open>The operations on a channel keep the account\<close>

lemma ast_frdup_timing:
  assumes "frame_readable f"
  obtains cache' fo where "ast_frdup hs alloc cache f = Some (cache', fo)"
    "\<And>frr. fo = Some frr \<Longrightarrow> f_len frr = f_len f \<and> f_ts frr = f_ts f"
proof -
  have "\<exists>cache' fo. ast_frdup hs alloc cache f = Some (cache', fo) \<and>
      (\<forall>frr. fo = Some frr \<longrightarrow> f_len frr = f_len f \<and> f_ts frr = f_ts f)"
    using assms by (auto simp: ast_frdup_def frame_readable_def Let_def split: option.splits)
  with that show thesis by blast
qed

definition jb_held :: "('o \<Rightarrow> ast_frame list) \<Rightarrow> 'o ast_jb \<Rightarrow> ast_frame multiset" where
  "jb_held queued jb =
     (if aj_created jb then (case aj_obj jb of Some obj \<Rightarrow> mset (queued obj) | None \<Rightarrow> {#}) else {#})"

definition jb_obj_inv :: "('o \<Rightarrow> bool) \<Rightarrow> 'o ast_jb \<Rightarrow> bool" where
  "jb_obj_inv P jb \<longleftrightarrow> (aj_created jb \<longrightarrow> (\<exists>obj. aj_obj jb = Some obj \<and> P obj))"

lemma jb_held_simps:
  "aj_created jb \<Longrightarrow> aj_obj jb = Some obj \<Longrightarrow> jb_held queued jb = mset (queued obj)"
  "\<not> aj_created jb \<Longrightarrow> jb_held queued jb = {#}"
  "aj_obj jb = Some obj \<Longrightarrow> P obj \<Longrightarrow> jb_obj_inv P jb" "\<not> aj_created jb \<Longrightarrow> jb_obj_inv P jb"
  by (simp_all add: jb_held_def jb_obj_inv_def)

text \<open>The part that putting frames and destroying the buffer do not change.\<close>

definition jb_base :: "'o ast_jb \<Rightarrow> 'o ast_jb" where
  "jb_base jb = (jb_core jb)\<lparr> aj_logfile := None, aj_use := False, aj_created := False \<rparr>"

lemma jb_base_upd [simp]:
  "jb_base (jb\<lparr> aj_obj := ob \<rparr>) = jb_base jb" "jb_base (jb\<lparr> aj_next := n \<rparr>) = jb_base jb"
  "jb_base (jb\<lparr> aj_last_format := n \<rparr>) = jb_base jb" "jb_base (jb\<lparr> aj_logfile := l \<rparr>) = jb_base jb"
  "jb_base (jb\<lparr> aj_use := b \<rparr>) = jb_base jb" "jb_base (jb\<lparr> aj_created := b \<rparr>) = jb_base jb"
  by (simp_all add: jb_base_def jb_core_def)

lemma jb_base_core: "jb_core jb' = jb_core jb \<Longrightarrow> jb_base jb' = jb_base jb"
  by (simp add: jb_base_def)

lemma jb_base_eqD:
  assumes "jb_base jb' = jb_base jb"
  shows "aj_impl jb' = aj_impl jb" "aj_timebase jb' = aj_timebase jb"
    "aj_timebase_initialized jb' = aj_timebase_initialized jb"
  using arg_cong [OF assms, of aj_impl] arg_cong [OF assms, of aj_timebase]
    arg_cong [OF assms, of aj_timebase_initialized]
  by (simp_all add: jb_base_def jb_core_def)

context jb_contract begin

lemma create_jb_effect:
  assumes jb: "aj_impl (ch_jb c) = Some impl" and f: "playable f" "0 \<le> get_now (ch_jb c) (pe_now env)"
    and env: "pe_put env" "pe_bridged env \<noteq> None" and acc: "accounts (add_mset f held) w"
  shows "\<exists>c' w' res. create_jb env c f w = Some (c', w', res) \<and> jb_base (ch_jb c') = jb_base (ch_jb c) \<and>
    aj_use (ch_jb c') = aj_use (ch_jb c) \<and>
    (res \<noteq> 0 \<and> aj_created (ch_jb c') = aj_created (ch_jb c) \<and> accounts (add_mset f held) w' \<or>
     res = 0 \<and> (\<exists>obj. aj_obj (ch_jb c') = Some obj \<and> inv obj \<and> accounts (mset (queued obj) + held) w'))"
proof (cases "impl_create impl (pe_create env) (aj_conf (ch_jb c)) (ac_resync_threshold (aj_conf (ch_jb c)))")
  case None
  with jb acc show ?thesis by (simp add: create_jb_def Let_def)
next
  case (Some obj)
  note obj = create_empty [OF Some]
  obtain obj1 code where put: "impl_put_first impl True obj f (get_now (ch_jb c) (pe_now env)) = Some (obj1, code)"
      "inv obj1" "queued obj1 = (if code = JB_IMPL_OK then [f] else [])"
    using put_first_keeps [of obj, OF _ _ f] obj by blast
  obtain obj2 n where nxt: "impl_next impl obj1 = Some (obj2, n)" "inv obj2" "queued obj2 = queued obj1"
    using next_keeps [OF put(2)] by blast
  have "accounts (mset (queued obj2) + held) (if code \<noteq> JB_IMPL_OK then ast_frfree f w else w)"
    using acc by (auto simp: nxt put accounts_events)
  with Some put nxt jb env show ?thesis
    by (auto simp: create_jb_def Let_def)
qed

lemma jb_put_frame_effect:
  assumes jb: "aj_impl (ch_jb c) = Some impl" and ob: "jb_obj_inv inv (ch_jb c)"
    and f: "playable f" "0 \<le> get_now (ch_jb c) (pe_now env)"
    and env: "pe_put env" "pe_bridged env \<noteq> None"
    and acc: "accounts (add_mset f (jb_held queued (ch_jb c) + held)) w"
  shows "\<exists>c' w' r. jb_put_frame env c f w = Some (c', w', r) \<and> jb_base (ch_jb c') = jb_base (ch_jb c) \<and>
    jb_obj_inv inv (ch_jb c') \<and> accounts (jb_held queued (ch_jb c') + held) w'"
proof (cases "aj_created (ch_jb c)")
  case False
  then have "accounts (add_mset f held) w" using acc by (simp add: jb_held_def)
  from create_jb_effect [OF jb f env this] obtain c' w' res where
    c: "create_jb env c f w = Some (c', w', res)" "jb_base (ch_jb c') = jb_base (ch_jb c)"
    and r: "res \<noteq> 0 \<and> aj_created (ch_jb c') = aj_created (ch_jb c) \<and> accounts (add_mset f held) w' \<or>
     res = 0 \<and> (\<exists>obj. aj_obj (ch_jb c') = Some obj \<and> inv obj \<and> accounts (mset (queued obj) + held) w')" by blast
  from r show ?thesis
    using c False by (auto simp: jb_put_frame_def Let_def jb_obj_inv_def jb_held_def accounts_events)
next
  case True
  then obtain obj where obj: "aj_obj (ch_jb c) = Some obj" "inv obj" using ob by (auto simp: jb_obj_inv_def)
  obtain obj1 code where put: "impl_put impl True obj f (get_now (ch_jb c) (pe_now env)) = Some (obj1, code)" "inv obj1"
      "mset (queued obj1) = (if code = JB_IMPL_OK then {#f#} else {#}) + mset (queued obj)"
    using put_keeps [OF obj(2) f] by blast
  obtain obj2 n where nxt: "impl_next impl obj1 = Some (obj2, n)" "inv obj2" "queued obj2 = queued obj1"
    using next_keeps [OF put(2)] by blast
  show ?thesis
  proof (cases "code = JB_IMPL_OK")
    case ok: True
    with True obj put nxt jb acc env show ?thesis
      by (simp add: jb_put_frame_def Let_def jb_obj_inv_def jb_held_def)
  next
    case False
    with acc True obj put jb env show ?thesis
      by (simp add: jb_put_frame_def Let_def jb_obj_inv_def jb_held_def accounts_events(1))
  qed
qed

text \<open>\<open>ast_jb_put\<close> on a channel whose buffer uses this implementation.\<close>

lemma ast_jb_put_effect:
  assumes jb: "aj_use (ch_jb c) \<or> aj_created (ch_jb c) \<Longrightarrow> aj_impl (ch_jb c) = Some impl"
    and ob: "jb_obj_inv inv (ch_jb c)" and now: "aj_use (ch_jb c) \<Longrightarrow> 0 \<le> get_now (ch_jb c) (pe_now env)"
    and f: "frame_readable f" and env: "pe_put env" "pe_bridged env \<noteq> None"
    and acc: "accounts (jb_held queued (ch_jb c) + held) w"
  shows "\<exists>c' w' r. ast_jb_put hs env c f w = Some (c', w', r) \<and> jb_base (ch_jb c') = jb_base (ch_jb c) \<and>
    (aj_use (ch_jb c') \<or> aj_created (ch_jb c') \<longrightarrow> aj_use (ch_jb c) \<or> aj_created (ch_jb c)) \<and>
    jb_obj_inv inv (ch_jb c') \<and> accounts (jb_held queued (ch_jb c') + held) w'"
proof -
  let ?jb = "ch_jb c"
  consider (no) "\<not> aj_use ?jb \<or> f_type f \<noteq> AST_FRAME_VOICE \<and> \<not> (f_type f = AST_FRAME_DTMF \<and> aj_created ?jb)"
    | (dtmf) "aj_use ?jb" "f_type f = AST_FRAME_DTMF" "aj_created ?jb"
    | (invalid) "aj_use ?jb" "f_type f = AST_FRAME_VOICE" "\<not> f_timing f \<or> \<not> playable f"
    | (voice) "aj_use ?jb" "f_type f = AST_FRAME_VOICE" "f_timing f" "playable f"
    by blast
  then show ?thesis
  proof cases
    case no
    with ob acc show ?thesis by (auto simp: ast_jb_put_def Let_def)
  next
    case dtmf
    then obtain obj where obj: "aj_obj ?jb = Some obj" "inv obj" using ob by (auto simp: jb_obj_inv_def)
    then show ?thesis
      using force_keeps [OF obj(2)] dtmf jb acc by (auto simp: ast_jb_put_def Let_def jb_held_simps)
  next
    case invalid
    with ob acc show ?thesis by (auto simp: ast_jb_put_def Let_def playable_def)
  next
    case voice
    obtain cache fo where dup: "ast_frdup hs (pe_dup env) (fw_cache w) f = Some (cache, fo)"
        "\<And>frr. fo = Some frr \<Longrightarrow> f_len frr = f_len f \<and> f_ts frr = f_ts f"
      using ast_frdup_timing [OF f] by blast
    have put: "ast_jb_put hs env c f w = do { (cache, frr) \<leftarrow> Some (cache, fo);
        case frr of None \<Rightarrow> Some (c, w\<lparr> fw_cache := cache \<rparr>, -1) | Some frr \<Rightarrow> jb_put_frame env c frr (jb_write (Dup frr) (w\<lparr> fw_cache := cache \<rparr>)) }"
      using voice dup(1) by (simp add: ast_jb_put_def playable_def Let_def)
    show ?thesis
    proof (cases fo)
      case None
      with put ob acc show ?thesis by (simp add: accounts_events)
    next
      case (Some frr)
      have "playable frr" using dup(2) [OF Some] voice by (simp add: playable_def)
      then show ?thesis
        using put Some jb_put_frame_effect [OF _ ob, of frr env held "jb_write (Dup frr) (w\<lparr> fw_cache := cache \<rparr>)"]
          jb now env acc voice by (simp add: accounts_events)
    qed
  qed
qed

end

context jb_contract begin

lemma deliver_chan_effect:
  assumes "aj_use (ch_jb c) \<or> aj_created (ch_jb c) \<Longrightarrow> aj_impl (ch_jb c) = Some impl" "jb_obj_inv inv (ch_jb c)"
    "aj_use (ch_jb c) \<Longrightarrow> 0 \<le> get_now (ch_jb c) tv" "accounts (jb_held queued (ch_jb c) + held) w"
  shows "\<exists>c' w'. (if aj_use (ch_jb c) \<and> aj_created (ch_jb c) then jb_get_and_deliver tv c w else Some (c, w)) = Some (c', w') \<and>
    jb_core (ch_jb c') = jb_core (ch_jb c) \<and> jb_obj_inv inv (ch_jb c') \<and> accounts (jb_held queued (ch_jb c') + held) w'"
proof (cases "aj_use (ch_jb c) \<and> aj_created (ch_jb c)")
  case True
  then obtain obj where obj: "aj_obj (ch_jb c) = Some obj" "inv obj" using assms(2) by (auto simp: jb_obj_inv_def)
  obtain c' w' obj' where d: "jb_get_and_deliver tv c w = Some (c', w')" "jb_core (ch_jb c') = jb_core (ch_jb c)"
    "aj_obj (ch_jb c') = Some obj'" "inv obj'" "accounts (mset (queued obj') + held) w'"
    using get_and_deliver_effect [OF _ obj, of tv held w] assms True obj by (auto simp: jb_held_simps)
  with True jb_core_eqD(3) [OF d(2)] show ?thesis by (simp add: jb_held_simps)
qed (use assms in auto)

lemma destroy_effect:
  assumes "aj_use (ch_jb c) \<or> aj_created (ch_jb c) \<Longrightarrow> aj_impl (ch_jb c) = Some impl" "jb_obj_inv inv (ch_jb c)"
    "accounts (jb_held queued (ch_jb c) + held) w"
  shows "\<exists>c' w'. ast_jb_destroy c w = Some (c', w') \<and> jb_base (ch_jb c') = jb_base (ch_jb c) \<and>
    aj_use (ch_jb c') = aj_use (ch_jb c) \<and> \<not> aj_created (ch_jb c') \<and> accounts held w'"
proof (cases "aj_created (ch_jb c)")
  case True
  then obtain obj where obj: "aj_obj (ch_jb c) = Some obj" "inv obj" using assms(2) by (auto simp: jb_obj_inv_def)
  obtain obj' w' where "remove_loop impl obj w = Some (obj', w')" "inv obj'" "queued obj' = []" "accounts held w'"
    using remove_loop_effect [OF obj(2), of held w] assms(3) True obj by (auto simp: jb_held_simps)
  with True obj assms(1) destroy_empty [of obj'] show ?thesis by (simp add: ast_jb_destroy_def Let_def)
qed (use assms in \<open>simp add: ast_jb_destroy_def Let_def jb_held_simps\<close>)

lemma reset_effect:
  assumes "aj_use (ch_jb c) \<or> aj_created (ch_jb c) \<Longrightarrow> aj_impl (ch_jb c) = Some impl" "jb_obj_inv inv (ch_jb c)"
    "accounts (jb_held queued (ch_jb c) + held) w"
  shows "\<exists>c' w'. empty_and_reset_one c w = Some (c', w') \<and> jb_core (ch_jb c') = jb_core (ch_jb c) \<and>
    jb_obj_inv inv (ch_jb c') \<and> accounts (jb_held queued (ch_jb c') + held) w'"
proof (cases "aj_use (ch_jb c) \<and> aj_created (ch_jb c)")
  case True
  then obtain obj where obj: "aj_obj (ch_jb c) = Some obj" "inv obj" using assms(2) by (auto simp: jb_obj_inv_def)
  from reset_empties [OF obj(2)] accounts_free_all [of "queued obj"] assms True obj show ?thesis
    by (auto simp: empty_and_reset_one_def Let_def jb_held_simps)
qed (use assms in \<open>auto simp: empty_and_reset_one_def Let_def\<close>)

end

section \<open>Two bridged channels\<close>

text \<open>Whichever implementation a configuration names, the contract holds for it.\<close>

definition impl_ok :: "jb_obj ast_jb_impl \<Rightarrow> jb_obj \<Rightarrow> bool" where
  "impl_ok impl = (if impl_name impl = ''fixed'' then fixed_obj_ok else adaptive_obj_ok)"

lemma avail_contract:
  assumes "impl \<in> set avail_impl"
  shows "jb_contract impl obj_queued (impl_ok impl) obj_credit"
proof -
  have "impl_ok fixed_impl = fixed_obj_ok" "impl_ok adaptive_impl = adaptive_obj_ok"
    by (simp_all add: impl_ok_def fixed_impl_def adaptive_impl_def)
  with assms fixed_jbs.jb_contract_axioms adaptive_jbs.jb_contract_axioms show ?thesis
    by (auto simp: avail_impl_def)
qed

lemma jb_choose_impl_avail:
  "\<exists>impl\<in>set avail_impl. jb_choose_impl jb = jb\<lparr> aj_impl := Some impl \<rparr>"
  by (auto simp: jb_choose_impl_def avail_impl_def split: option.splits)

text \<open>A time between the first reading of the clock and 24 days later.\<close>

definition clock_ok :: "timeval \<Rightarrow> timeval \<Rightarrow> bool" where
  "clock_ok t0 t \<longleftrightarrow> tv_ok t0 \<and> tv_ok t \<and> t0 \<le> t \<and> tv_us t - tv_us t0 < 2 ^ 31 * 1000"

lemma clock_nonneg:
  assumes "clock_ok t0 tb" "clock_ok t0 t" "tb \<le> t"
  shows "0 \<le> ast_tvdiff_ms t tb"
proof -
  have "0 \<le> tv_us t - tv_us tb" "tv_us t - tv_us tb < 2 ^ 31 * 1000"
    using assms by (auto simp: clock_ok_def tv_us_le)
  moreover from this have "0 \<le> (tv_us t - tv_us tb) div 1000" "(tv_us t - tv_us tb) div 1000 < 2 ^ 31"
    by (simp_all add: pos_imp_zdiv_nonneg_iff)
  ultimately show ?thesis
    using assms by (subst ast_tvdiff_ms_eq) (auto simp: clock_ok_def)
qed

definition chan_ok :: "timeval \<Rightarrow> timeval \<Rightarrow> jb_obj jb_channel \<Rightarrow> bool" where
  "chan_ok t0 t c \<longleftrightarrow>
     (aj_use (ch_jb c) \<or> aj_created (ch_jb c) \<longrightarrow>
        aj_timebase_initialized (ch_jb c) \<and>
        (\<exists>impl\<in>set avail_impl. aj_impl (ch_jb c) = Some impl \<and> jb_obj_inv (impl_ok impl) (ch_jb c))) \<and>
     (aj_timebase_initialized (ch_jb c) \<longrightarrow> clock_ok t0 (aj_timebase (ch_jb c)) \<and> aj_timebase (ch_jb c) \<le> t)"

abbreviation chan_held :: "jb_obj jb_channel \<Rightarrow> ast_frame multiset" where
  "chan_held c \<equiv> jb_held obj_queued (ch_jb c)"

lemma chan_ok_later: "chan_ok t0 t c \<Longrightarrow> t \<le> t' \<Longrightarrow> chan_ok t0 t' c"
  by (auto simp: chan_ok_def)

text \<open>What a channel in order offers to the lemmas of the contract.\<close>

lemma chan_contract:
  assumes "chan_ok t0 t c"
  obtains impl where "impl \<in> set avail_impl" "jb_contract impl obj_queued (impl_ok impl) obj_credit"
    "aj_use (ch_jb c) \<or> aj_created (ch_jb c) \<Longrightarrow> aj_impl (ch_jb c) = Some impl"
    "jb_obj_inv (impl_ok impl) (ch_jb c)"
    "\<And>r. clock_ok t0 r \<Longrightarrow> t \<le> r \<Longrightarrow> aj_use (ch_jb c) \<Longrightarrow> 0 \<le> get_now (ch_jb c) r"
proof -
  have now: "0 \<le> get_now (ch_jb c) r" if "clock_ok t0 r" "t \<le> r" "aj_use (ch_jb c)" for r
    using assms that by (auto simp: chan_ok_def get_now_def intro: clock_nonneg order_trans)
  show thesis
  proof (cases "aj_use (ch_jb c) \<or> aj_created (ch_jb c)")
    case True
    with assms now avail_contract that show thesis by (fastforce simp: chan_ok_def)
  next
    case False
    have "fixed_impl \<in> set avail_impl" by (simp add: avail_impl_def)
    from that [OF this avail_contract [OF this]] now False show thesis by (simp add: jb_obj_inv_def)
  qed
qed

lemma chan_ok_base:
  assumes "chan_ok t0 t c" "jb_base (ch_jb c') = jb_base (ch_jb c)"
    and "aj_use (ch_jb c') \<or> aj_created (ch_jb c') \<Longrightarrow> aj_use (ch_jb c) \<or> aj_created (ch_jb c)"
    and "aj_use (ch_jb c) \<or> aj_created (ch_jb c) \<Longrightarrow> aj_impl (ch_jb c) = Some impl"
    and "jb_obj_inv (impl_ok impl) (ch_jb c')"
  shows "chan_ok t0 t c'"
  using assms jb_base_eqD [OF assms(2)] by (auto simp: chan_ok_def)

lemma chan_put:
  assumes c: "chan_ok t0 t c" and t: "clock_ok t0 (pe_now env)" "t \<le> pe_now env"
    and f: "frame_readable f" "pe_put env" "pe_bridged env \<noteq> None" and acc: "accounts (chan_held c + held) w"
  shows "\<exists>c' w' r. ast_jb_put hs env c f w = Some (c', w', r) \<and> chan_ok t0 t c' \<and> accounts (chan_held c' + held) w'"
proof -
  obtain impl where i: "jb_contract impl obj_queued (impl_ok impl) obj_credit"
    "aj_use (ch_jb c) \<or> aj_created (ch_jb c) \<Longrightarrow> aj_impl (ch_jb c) = Some impl"
    "jb_obj_inv (impl_ok impl) (ch_jb c)" "aj_use (ch_jb c) \<Longrightarrow> 0 \<le> get_now (ch_jb c) (pe_now env)"
    using chan_contract [OF c] t by metis
  from jb_contract.ast_jb_put_effect [OF i(1) i(2-4) f acc] i(2) chan_ok_base [OF c] show ?thesis
    by metis
qed

lemma chan_deliver:
  assumes c: "chan_ok t0 t c" and t: "clock_ok t0 r" "t \<le> r" and acc: "accounts (chan_held c + held) w"
  shows "\<exists>c' w'. (if aj_use (ch_jb c) \<and> aj_created (ch_jb c) then jb_get_and_deliver r c w else Some (c, w)) = Some (c', w') \<and>
    chan_ok t0 t c' \<and> accounts (chan_held c' + held) w'"
proof -
  obtain impl where i: "jb_contract impl obj_queued (impl_ok impl) obj_credit"
    "aj_use (ch_jb c) \<or> aj_created (ch_jb c) \<Longrightarrow> aj_impl (ch_jb c) = Some impl"
    "jb_obj_inv (impl_ok impl) (ch_jb c)" "aj_use (ch_jb c) \<Longrightarrow> 0 \<le> get_now (ch_jb c) r"
    using chan_contract [OF c] t by metis
  obtain c' w' where d: "(if aj_use (ch_jb c) \<and> aj_created (ch_jb c) then jb_get_and_deliver r c w else Some (c, w)) = Some (c', w')"
    "jb_core (ch_jb c') = jb_core (ch_jb c)" "jb_obj_inv (impl_ok impl) (ch_jb c')" "accounts (chan_held c' + held) w'"
    using jb_contract.deliver_chan_effect [OF i(1) i(2-4) acc] by blast
  have "chan_ok t0 t c'"
    using chan_ok_base [OF c jb_base_core [OF d(2)] _ i(2) d(3)] jb_core_eqD [OF d(2)] by simp
  with d show ?thesis by blast
qed

lemma chan_reset:
  assumes c: "chan_ok t0 t c" and acc: "accounts (chan_held c + held) w"
  shows "\<exists>c' w'. empty_and_reset_one c w = Some (c', w') \<and> chan_ok t0 t c' \<and> accounts (chan_held c' + held) w'"
proof -
  obtain impl where i: "jb_contract impl obj_queued (impl_ok impl) obj_credit"
    "aj_use (ch_jb c) \<or> aj_created (ch_jb c) \<Longrightarrow> aj_impl (ch_jb c) = Some impl"
    "jb_obj_inv (impl_ok impl) (ch_jb c)"
    using chan_contract [OF c] by metis
  obtain c' w' where d: "empty_and_reset_one c w = Some (c', w')"
    "jb_core (ch_jb c') = jb_core (ch_jb c)" "jb_obj_inv (impl_ok impl) (ch_jb c')" "accounts (chan_held c' + held) w'"
    using jb_contract.reset_effect [OF i(1) i(2-3) acc] by blast
  have "chan_ok t0 t c'"
    using chan_ok_base [OF c jb_base_core [OF d(2)] _ i(2) d(3)] jb_core_eqD [OF d(2)] by simp
  with d show ?thesis by blast
qed

lemma chan_destroy:
  assumes c: "chan_ok t0 t c" and acc: "accounts (chan_held c + held) w"
  shows "\<exists>c' w'. ast_jb_destroy c w = Some (c', w') \<and> chan_ok t0 t c' \<and> chan_held c' = {#} \<and> accounts held w'"
proof -
  obtain impl where i: "jb_contract impl obj_queued (impl_ok impl) obj_credit"
    "aj_use (ch_jb c) \<or> aj_created (ch_jb c) \<Longrightarrow> aj_impl (ch_jb c) = Some impl"
    "jb_obj_inv (impl_ok impl) (ch_jb c)"
    using chan_contract [OF c] by metis
  obtain c' w' where d: "ast_jb_destroy c w = Some (c', w')" "jb_base (ch_jb c') = jb_base (ch_jb c)"
    "aj_use (ch_jb c') = aj_use (ch_jb c)" "\<not> aj_created (ch_jb c')" "accounts held w'"
    using jb_contract.destroy_effect [OF i(1) i(2-3) acc] by blast
  have "chan_ok t0 t c'"
    using chan_ok_base [OF c d(2) _ i(2)] d by (simp add: jb_held_simps)
  with d show ?thesis by (auto simp: jb_held_simps)
qed

text \<open>
  The operations a bridge and the end of a channel perform on the two channels. A flag chooses
  the channel; frames put on a channel come from the other one, its bridged channel.
\<close>

datatype bridge_op =
    B_usecheck timeval timeval
  | B_put bool ast_frame put_env
  | B_deliver timeval timeval
  | B_reset
  | B_destroy bool
  | B_configure bool ast_jb_conf

type_synonym bridge = "jb_obj jb_channel \<times> jb_obj jb_channel \<times> frame_world"

fun bridge_step :: "nat \<Rightarrow> bridge_op \<Rightarrow> bridge \<Rightarrow> bridge option" where
  "bridge_step hs (B_usecheck now0 now1) (c0, c1, w) =
     (case ast_jb_do_usecheck now0 now1 c0 c1 of (c0, c1, inuse) \<Rightarrow> Some (c0, c1, w))"
| "bridge_step hs (B_put second f env) (c0, c1, w) =
     (if second
      then map_option (\<lambda>(c1, w, r). (c0, c1, w)) (ast_jb_put hs (env\<lparr> pe_bridged := Some (ch_name c0) \<rparr>) c1 f w)
      else map_option (\<lambda>(c0, w, r). (c0, c1, w)) (ast_jb_put hs (env\<lparr> pe_bridged := Some (ch_name c1) \<rparr>) c0 f w))"
| "bridge_step hs (B_deliver tv0 tv1) (c0, c1, w) = ast_jb_get_and_deliver tv0 tv1 c0 c1 w"
| "bridge_step hs B_reset (c0, c1, w) = ast_jb_empty_and_reset c0 c1 w"
| "bridge_step hs (B_destroy second) (c0, c1, w) =
     (if second then map_option (\<lambda>(c1, w). (c0, c1, w)) (ast_jb_destroy c1 w)
      else map_option (\<lambda>(c0, w). (c0, c1, w)) (ast_jb_destroy c0 w))"
| "bridge_step hs (B_configure second conf) (c0, c1, w) =
     Some (if second then (c0, ast_jb_configure c1 conf, w) else (ast_jb_configure c0 conf, c1, w))"

fun bridge_run :: "nat \<Rightarrow> bridge_op list \<Rightarrow> bridge \<Rightarrow> bridge option" where
  "bridge_run hs [] st = Some st"
| "bridge_run hs (e # es) st = Option.bind (bridge_step hs e st) (bridge_run hs es)"

text \<open>The readings of the clock an operation makes, and what is asked of the frames put.\<close>

fun op_readings :: "bridge_op \<Rightarrow> timeval list" where
  "op_readings (B_usecheck now0 now1) = [now0, now1]"
| "op_readings (B_put second f env) = [pe_now env]"
| "op_readings (B_deliver tv0 tv1) = [tv0, tv1]"
| "op_readings _ = []"

fun bridge_op_ok :: "bridge_op \<Rightarrow> bool" where
  "bridge_op_ok (B_put second f env) \<longleftrightarrow> frame_readable f \<and> pe_put env"
| "bridge_op_ok _ \<longleftrightarrow> True"

fun bridge_inv :: "timeval \<Rightarrow> timeval \<Rightarrow> bridge \<Rightarrow> bool" where
  "bridge_inv t0 t (c0, c1, w) \<longleftrightarrow> chan_ok t0 t c0 \<and> chan_ok t0 t c1 \<and> accounts (chan_held c0 + chan_held c1) w"

lemma usecheck_side_ok:
  assumes "chan_ok t0 t c" "clock_ok t0 now" "t \<le> now" "init \<Longrightarrow> clock_ok t0 tb \<and> tb \<le> now"
  shows "chan_ok t0 now (c\<lparr> ch_jb := usecheck_side init tb now (ch_jb c) \<rparr>)"
    and "chan_held (c\<lparr> ch_jb := usecheck_side init tb now (ch_jb c) \<rparr>) = chan_held c"
proof -
  obtain impl where impl: "impl \<in> set avail_impl" and
    side: "usecheck_side init tb now (ch_jb c) =
      (let jb = (ch_jb c)\<lparr> aj_use := True \<rparr>;
           jb = (if \<not> aj_timebase_initialized jb
                 then jb\<lparr> aj_timebase := (if init then tb else now), aj_timebase_initialized := True \<rparr> else jb)
       in if \<not> aj_created jb then jb\<lparr> aj_impl := Some impl \<rparr> else jb)"
  proof (cases "aj_created (ch_jb c)")
    case True
    with that [of fixed_impl] show thesis by (simp add: usecheck_side_def Let_def avail_impl_def)
  next
    case False
    let ?jb = "(if \<not> aj_timebase_initialized (ch_jb c)
                then (ch_jb c)\<lparr> aj_use := True, aj_timebase := (if init then tb else now), aj_timebase_initialized := True \<rparr>
                else (ch_jb c)\<lparr> aj_use := True \<rparr>)"
    from jb_choose_impl_avail [of ?jb] that False show thesis
      by (auto simp: usecheck_side_def Let_def split: if_splits)
  qed
  show "chan_ok t0 now (c\<lparr> ch_jb := usecheck_side init tb now (ch_jb c) \<rparr>)"
    using assms impl by (auto simp: side chan_ok_def Let_def jb_obj_inv_def)
  show "chan_held (c\<lparr> ch_jb := usecheck_side init tb now (ch_jb c) \<rparr>) = chan_held c"
    by (simp add: side Let_def jb_held_def)
qed

lemma bridge_usecheck:
  assumes "bridge_inv t0 t (c0, c1, w)" "clock_ok t0 now0" "clock_ok t0 now1" "t \<le> now0" "now0 \<le> now1"
    "ast_jb_do_usecheck now0 now1 c0 c1 = (c0', c1', use)"
  shows "bridge_inv t0 now1 (c0', c1', w)"
proof -
  have ok: "chan_ok t0 t c0" "chan_ok t0 t c1" and acc: "accounts (chan_held c0 + chan_held c1) w"
    using assms(1) by simp_all
  have tb: "aj_timebase_initialized (ch_jb c) \<Longrightarrow> clock_ok t0 (aj_timebase (ch_jb c)) \<and> aj_timebase (ch_jb c) \<le> t" if "chan_ok t0 t c" for c
    using that by (simp add: chan_ok_def)
  let ?s0 = "c0\<lparr> ch_jb := usecheck_side (aj_timebase_initialized (ch_jb c1)) (aj_timebase (ch_jb c1)) now0 (ch_jb c0) \<rparr>"
  let ?s1 = "c1\<lparr> ch_jb := usecheck_side (aj_timebase_initialized (ch_jb c0)) (aj_timebase (ch_jb c0')) now1 (ch_jb c1) \<rparr>"
  have side: "c0' = ?s0 \<or> c0' = c0" "c1' = ?s1 \<or> c1' = c1"
    using assms(6) by (auto simp: ast_jb_do_usecheck_def Let_def split: if_splits)
  have le: "t \<le> now1" using assms(4,5) by simp
  have i1: "aj_timebase_initialized (ch_jb c1) \<Longrightarrow> clock_ok t0 (aj_timebase (ch_jb c1)) \<and> aj_timebase (ch_jb c1) \<le> now0"
    using tb [OF ok(2)] assms(4) by auto
  have c0: "chan_ok t0 now0 c0'" "chan_held c0' = chan_held c0"
    using side(1) usecheck_side_ok [OF ok(1) assms(2,4) i1] chan_ok_later [OF ok(1) assms(4)] by metis+
  have "aj_timebase_initialized (ch_jb c0) \<Longrightarrow> aj_timebase (ch_jb c0') = aj_timebase (ch_jb c0)"
    using side(1) by (auto simp: usecheck_side_def Let_def jb_choose_impl_def)
  then have i0: "aj_timebase_initialized (ch_jb c0) \<Longrightarrow> clock_ok t0 (aj_timebase (ch_jb c0')) \<and> aj_timebase (ch_jb c0') \<le> now1"
    using tb [OF ok(1)] le by auto
  have c1: "chan_ok t0 now1 c1'" "chan_held c1' = chan_held c1"
    using side(2) usecheck_side_ok [OF ok(2) assms(3) le i0] chan_ok_later [OF ok(2) le] by metis+
  show ?thesis using c0 c1 acc chan_ok_later [OF c0(1) assms(5)] by simp
qed

lemma configure_ok [simp]:
  "chan_ok t0 t (ast_jb_configure c conf) = chan_ok t0 t c"
  "chan_held (ast_jb_configure c conf) = chan_held c"
  by (simp_all add: chan_ok_def ast_jb_configure_def jb_obj_inv_def jb_held_def)

lemma bridge_step_ok:
  assumes inv: "bridge_inv t0 t st" and op: "bridge_op_ok e" and t: "sorted (t # op_readings e)"
    and r: "\<forall>r\<in>set (op_readings e). clock_ok t0 r"
  shows "\<exists>st'. bridge_step hs e st = Some st' \<and> bridge_inv t0 (last (t # op_readings e)) st'"
proof -
  obtain c0 c1 w where st: "st = (c0, c1, w)" by (cases st)
  have ok: "chan_ok t0 t c0" "chan_ok t0 t c1" and acc: "accounts (chan_held c0 + chan_held c1) w"
    and acc': "accounts (chan_held c1 + chan_held c0) w"
    using inv by (simp_all add: st add.commute)
  show ?thesis
  proof (cases e)
    case (B_usecheck now0 now1)
    with bridge_usecheck [of t0 t c0 c1 w now0 now1] inv t r show ?thesis
      by (cases "ast_jb_do_usecheck now0 now1 c0 c1") (auto simp: st)
  next
    case (B_put second f env)
    then have e: "clock_ok t0 (pe_now env)" "t \<le> pe_now env" "frame_readable f" "pe_put env" using t r op by simp_all
    let ?env = "\<lambda>n. env\<lparr> pe_bridged := Some n \<rparr>"
    from chan_put [OF ok(1) _ _ e(3) _ _ acc, of "?env (ch_name c1)" hs] chan_put [OF ok(2) _ _ e(3) _ _ acc', of "?env (ch_name c0)" hs]
    show ?thesis
      using e ok chan_ok_later [OF _ e(2)] by (auto simp: st B_put add.commute)
  next
    case (B_deliver tv0 tv1)
    then have e: "clock_ok t0 tv0" "t \<le> tv0" "clock_ok t0 tv1" "t \<le> tv1" using t r by auto
    obtain c0' w0 where d0: "(if aj_use (ch_jb c0) \<and> aj_created (ch_jb c0) then jb_get_and_deliver tv0 c0 w else Some (c0, w)) = Some (c0', w0)"
      "chan_ok t0 t c0'" "accounts (chan_held c1 + chan_held c0') w0"
      using chan_deliver [OF ok(1) e(1,2) acc] by (auto simp: add.commute)
    from chan_deliver [OF ok(2) e(3,4) d0(3)] d0 chan_ok_later [OF _ e(4)] show ?thesis
      by (fastforce simp: st B_deliver ast_jb_get_and_deliver_def add.commute)
  next
    case B_reset
    obtain c0' w0 where d0: "empty_and_reset_one c0 w = Some (c0', w0)" "chan_ok t0 t c0'"
      "accounts (chan_held c1 + chan_held c0') w0"
      using chan_reset [OF ok(1) acc] by (auto simp: add.commute)
    from chan_reset [OF ok(2) d0(3)] d0 show ?thesis
      by (auto simp: st B_reset ast_jb_empty_and_reset_def add.commute)
  next
    case (B_destroy second)
    with chan_destroy [OF ok(1) acc] chan_destroy [OF ok(2) acc'] ok show ?thesis
      by (auto simp: st)
  next
    case (B_configure second conf)
    with inv show ?thesis by (simp add: st)
  qed
qed

lemma bridge_run_ok:
  assumes "bridge_inv t0 t st" "\<forall>e\<in>set es. bridge_op_ok e" "sorted (t # concat (map op_readings es))"
    "\<forall>r\<in>set (concat (map op_readings es)). clock_ok t0 r"
  shows "\<exists>st'. bridge_run hs es st = Some st' \<and> bridge_inv t0 (last (t # concat (map op_readings es))) st'"
  using assms
proof (induction es arbitrary: t st)
  case (Cons e es)
  let ?t = "last (t # op_readings e)"
  obtain st1 where s: "bridge_step hs e st = Some st1" "bridge_inv t0 ?t st1"
    using bridge_step_ok [OF Cons.prems(1), of e hs] Cons.prems(2-4) by (auto simp: sorted_append)
  have "sorted (?t # concat (map op_readings es))"
    using Cons.prems(3) by (auto simp: sorted_append)
  from Cons.IH [OF s(2) _ this] s(1) Cons.prems(2,4) show ?case
    by (cases "concat (map op_readings es)") auto
qed simp

section \<open>Properties\<close>

text \<open>A channel before its first bridge.\<close>

definition fresh_chan :: "'o jb_channel \<Rightarrow> bool" where
  "fresh_chan c \<longleftrightarrow>
     \<not> aj_use (ch_jb c) \<and> \<not> aj_created (ch_jb c) \<and> \<not> aj_timebase_initialized (ch_jb c)"

lemma fresh_bridge_inv:
  "fresh_chan c0 \<Longrightarrow> fresh_chan c1 \<Longrightarrow> fw_log w = [] \<Longrightarrow> bridge_inv t0 t0 (c0, c1, w)"
  by (simp add: fresh_chan_def chan_ok_def jb_held_simps accounts_def dups_def writes_def frees_def)

text \<open>
  C1. Any sequence of bridge operations on two fresh channels, whatever their technologies and
  configurations and whichever allocations for duplicates and buffers fail, runs to its end: no
  assertion fails, no null pointer is followed and every delivery loop ends. Every duplicated
  frame is then either freed, once, or held in one of the two buffers, and every frame delivered
  to a channel was a duplicate, delivered at most once and freed. The clock must not run
  backwards nor the bridge last 24 days, and queue entries must be allocated.
\<close>

theorem bridge_frames_accounted:
  assumes "fresh_chan c0" "fresh_chan c1" "fw_log w = []" "\<forall>e\<in>set es. bridge_op_ok e"
    and "sorted (t0 # concat (map op_readings es))" "\<forall>r\<in>set (concat (map op_readings es)). clock_ok t0 r"
  shows "\<exists>c0' c1' w'. bridge_run hs es (c0, c1, w) = Some (c0', c1', w') \<and>
    dups w' = frees w' + (chan_held c0' + chan_held c1') \<and> writes w' \<subseteq># frees w'"
  using bridge_run_ok [OF fresh_bridge_inv [OF assms(1-3)] assms(4-6), of hs]
  by (auto simp: accounts_def)

text \<open>Two channels whose technologies create jitter, with the two implementations, and some traffic.\<close>

definition ex_jb :: "string \<Rightarrow> jb_obj ast_jb" where
  "ex_jb impl =
     \<lparr> aj_conf = \<lparr> ac_enabled = True, ac_forced = False, ac_log = True, ac_max_size = 100,
         ac_resync_threshold = 1000, ac_impl = impl \<rparr>,
       aj_impl = None, aj_obj = None, aj_timebase = Tv 0 0, aj_next = 0, aj_last_format = 0,
       aj_logfile = None, aj_use = False, aj_timebase_initialized = False, aj_created = False \<rparr>"

definition ex_chan :: "string \<Rightarrow> string \<Rightarrow> jb_obj jb_channel" where
  "ex_chan name impl =
     \<lparr> ch_name = name, ch_jb = ex_jb impl, ch_wants_jitter = False, ch_creates_jitter = True \<rparr>"

definition ex_voice :: "int \<Rightarrow> ast_frame" where
  "ex_voice ts = zero_frame\<lparr> f_type := AST_FRAME_VOICE, f_subclass := AST_FORMAT_ULAW, f_datalen := 2,
     f_data := Some [1, 2], f_timing := True, f_ts := ts, f_len := 20 \<rparr>"

definition ex_env :: "nat \<Rightarrow> timeval \<Rightarrow> put_env" where
  "ex_env a now = \<lparr> pe_dup = Some a, pe_create = True, pe_put = True, pe_fopen = True, pe_now = now, pe_bridged = None \<rparr>"

definition ex_ops :: "bridge_op list" where
  "ex_ops =
     [B_usecheck (Tv 5 0) (Tv 5 10), B_put False (ex_voice 1000) (ex_env 1 (Tv 5 20000)),
      B_put True (ex_voice 1000) (ex_env 2 (Tv 5 20000)), B_put False (ex_voice 1020) (ex_env 3 (Tv 5 30000)),
      B_put True (ex_voice 1020) (ex_env 4 (Tv 5 30000)), B_deliver (Tv 5 125000) (Tv 5 125000)]"

definition ex_bridge :: bridge where
  "ex_bridge = (ex_chan ''SIP/a'' ''fixed'', ex_chan ''SIP/b'' ''adaptive'', \<lparr> fw_cache = None, fw_log = [] \<rparr>)"

lemma ex_ops_ok:
  "\<forall>e\<in>set ex_ops. bridge_op_ok e" "sorted (Tv 5 0 # concat (map op_readings ex_ops))"
  "\<forall>r\<in>set (concat (map op_readings ex_ops)). clock_ok (Tv 5 0) r"
  by (simp add: ex_ops_def ex_voice_def ex_env_def frame_readable_def) code_simp+

theorem bridge_frames_accounted_witness:
  "\<exists>c0' c1' w'. bridge_run 96 ex_ops ex_bridge = Some (c0', c1', w') \<and>
    dups w' = frees w' + (chan_held c0' + chan_held c1') \<and> writes w' \<subseteq># frees w'"
  unfolding ex_bridge_def
  by (rule bridge_frames_accounted [OF _ _ _ ex_ops_ok])
    (simp_all add: fresh_chan_def ex_chan_def ex_jb_def)

text \<open>
  C2. When both channels are hung up after any such sequence, every frame that was duplicated for
  a jitter buffer has been freed.
\<close>

theorem bridge_hangup_frees_all:
  assumes "fresh_chan c0" "fresh_chan c1" "fw_log w = []" "\<forall>e\<in>set es. bridge_op_ok e"
    and "sorted (t0 # concat (map op_readings es))" "\<forall>r\<in>set (concat (map op_readings es)). clock_ok t0 r"
  shows "\<exists>c0' c1' w'. bridge_run hs (es @ [B_destroy False, B_destroy True]) (c0, c1, w) = Some (c0', c1', w') \<and>
    dups w' = frees w'"
proof -
  let ?t = "last (t0 # concat (map op_readings es))"
  obtain d0 d1 v where run: "bridge_run hs es (c0, c1, w) = Some (d0, d1, v)" and inv: "bridge_inv t0 ?t (d0, d1, v)"
    using bridge_run_ok [OF fresh_bridge_inv [OF assms(1-3)] assms(4-6), of hs] by auto
  have app: "bridge_run hs (es @ es') st = Option.bind (bridge_run hs es st) (bridge_run hs es')" for es es' st
    by (induction es arbitrary: st) (auto split: Option.bind_splits)
  obtain d0' v' where e0: "ast_jb_destroy d0 v = Some (d0', v')" "accounts (chan_held d1 + {#}) v'"
    using chan_destroy [of t0 ?t d0 "chan_held d1" v] inv by auto
  from chan_destroy [OF _ e0(2), of t0 ?t] inv obtain d1' v'' where
    "ast_jb_destroy d1 v' = Some (d1', v'')" "accounts {#} v''" by auto
  with e0 run show ?thesis by (simp add: app accounts_def)
qed

theorem bridge_hangup_frees_all_witness:
  "\<exists>c0' c1' w'. bridge_run 96 (ex_ops @ [B_destroy False, B_destroy True]) ex_bridge = Some (c0', c1', w') \<and>
    dups w' = frees w'"
  unfolding ex_bridge_def
  by (rule bridge_hangup_frees_all [OF _ _ _ ex_ops_ok])
    (simp_all add: fresh_chan_def ex_chan_def ex_jb_def)

text \<open>
  C37. While a buffer is in use, the bridge sleeps at least a millisecond, not beyond the time the
  next frame of that buffer is due, and not beyond a positive time limit.
\<close>

theorem jb_wakeup_in_time:
  assumes "c = c0 \<or> c = c1" "aj_use (ch_jb c)" "aj_created (ch_jb c)" "time_left < 2 ^ 31"
    and "due = aj_next (ch_jb c) - get_now (ch_jb c) tv" "- (2 ^ 31) \<le> due" "due < 2 ^ 31 - 1"
  shows "case ast_jb_get_when_to_wakeup tv c0 c1 time_left of r \<Rightarrow>
    1 \<le> r \<and> r \<le> max 1 due \<and> (0 < time_left \<longrightarrow> r \<le> time_left)"
proof -
  have "jb_wait (ch_jb c) tv tl = due" for tl
    using assms(2,3,5-7) by (simp add: jb_wait_def signed_take_bit_31_id)
  with assms(1,4,7) show ?thesis
    by (auto simp: ast_jb_get_when_to_wakeup_def Let_def)
qed

theorem jb_wakeup_in_time_witness:
  "ast_jb_get_when_to_wakeup (Tv 5 30000)
     (ex_chan ''SIP/a'' ''fixed''\<lparr> ch_jb := (ex_jb ''fixed'')\<lparr> aj_use := True, aj_created := True, aj_timebase := Tv 5 0, aj_next := 120 \<rparr> \<rparr>)
     (ex_chan ''SIP/b'' ''adaptive'') 4000 \<le> 90"
  using jb_wakeup_in_time [of "ex_chan ''SIP/a'' ''fixed''\<lparr> ch_jb := (ex_jb ''fixed'')\<lparr> aj_use := True, aj_created := True, aj_timebase := Tv 5 0, aj_next := 120 \<rparr> \<rparr>"
      "ex_chan ''SIP/a'' ''fixed''\<lparr> ch_jb := (ex_jb ''fixed'')\<lparr> aj_use := True, aj_created := True, aj_timebase := Tv 5 0, aj_next := 120 \<rparr> \<rparr>"
      "ex_chan ''SIP/b'' ''adaptive''" 4000 90 "Tv 5 30000"]
  by (simp add: get_now_def ast_tvdiff_ms_def signed_take_bit_31_id sdiv_nonneg)

end
