(* ===== verification/Astobj2.thy ===== *)
theory Astobj2
  imports Prelude
begin

text \<open>
  Reference-counted objects and hash containers, \<open>main/astobj2.c\<close>.

  \<^item> The heap maps the addresses of live objects to their headers. An object is user data or a
    container. \<open>None\<close> as the result of an operation is an access to memory that is not a live
    object, a division by zero, an index outside the buckets or a loop that does not end.
  \<^item> A destructor of user data is known by the objects whose references it drops. Destructors run
    inside \<open>ao2_ref\<close> and may destroy further objects; \<open>run_tasks\<close> works off the calls still to make.
  \<^item> Hash and match functions are functions of addresses: what they compute of an object does not
    change while it is linked. Locks are not modelled: every operation holds the lock of its
    container throughout.
  \<^item> Counters and version numbers are integers without overflow. A list entry is identified by its
    version number, which no other entry of the container has.
\<close>

section \<open>Data\<close>

record bucket_list =
  bl_version :: int
  bl_obj :: nat

type_synonym cb_result = "bool \<times> bool"

text \<open>A result of a callback: whether it has \<open>CMP_MATCH\<close> and \<open>CMP_STOP\<close>.\<close>

record ao2_container =
  hash_fn :: "nat \<Rightarrow> int"
  cmp_fn :: "(nat \<Rightarrow> nat \<Rightarrow> cb_result) option"
  c_elements :: int
  c_version :: int
  buckets :: "bucket_list list list"

datatype ao2_data = User_data "nat list" | Container_data ao2_container

record astobj2 =
  ref_counter :: int
  ao2_data :: ao2_data

type_synonym ao2_heap = "nat \<Rightarrow> astobj2 option"

record search_flags =
  obj_unlink :: bool
  obj_nodata :: bool
  obj_multiple :: bool
  obj_pointer :: bool
  obj_continue :: bool

definition INTERNAL_OBJ :: "ao2_heap \<Rightarrow> nat option \<Rightarrow> astobj2 option option" where
  "INTERNAL_OBJ h p = (case p of None \<Rightarrow> Some None | Some a \<Rightarrow> map_option Some (h a))"

section \<open>Reference counts\<close>

text \<open>Work left inside a call of \<open>ao2_ref\<close>: a reference to drop, or an object to free after its destructor.\<close>

datatype ao2_task = Unref nat | Free nat

definition bucket_objs :: "ao2_container \<Rightarrow> nat list" where
  "bucket_objs c = map bl_obj (concat (buckets c))"

definition container_destruct :: "ao2_container \<Rightarrow> ao2_task list" where
  "container_destruct c = map Unref (bucket_objs c)"

definition destructor :: "astobj2 \<Rightarrow> ao2_task list" where
  "destructor ob = (case ao2_data ob of User_data hs \<Rightarrow> map Unref hs | Container_data c \<Rightarrow> container_destruct c)"

definition ref_add :: "ao2_heap \<Rightarrow> nat \<Rightarrow> int \<Rightarrow> (ao2_heap \<times> ao2_task list) option" where
  "ref_add h a delta =
     do { ob \<leftarrow> h a;
          let current_value = ref_counter ob + delta;
          let h = h(a \<mapsto> ob\<lparr> ref_counter := current_value \<rparr>);
          Some (h, if current_value \<le> 0 then destructor ob @ [Free a] else []) }"

partial_function (option) run_tasks :: "ao2_heap \<Rightarrow> ao2_task list \<Rightarrow> ao2_heap option" where
  "run_tasks h ts =
     (case ts of
        [] \<Rightarrow> Some h
      | t # ts \<Rightarrow>
          (case t of
             Free a \<Rightarrow> run_tasks (h(a := None)) ts
           | Unref a \<Rightarrow> do { (h, new) \<leftarrow> ref_add h a (-1); run_tasks h (new @ ts) }))"

declare run_tasks.simps [code]

definition ao2_ref :: "ao2_heap \<Rightarrow> nat option \<Rightarrow> int \<Rightarrow> (ao2_heap \<times> int) option" where
  "ao2_ref h p delta =
     do { obj \<leftarrow> INTERNAL_OBJ h p;
          case (p, obj) of
            (Some a, Some ob) \<Rightarrow>
              if delta = 0 then Some (h, ref_counter ob)
              else do { (h, new) \<leftarrow> ref_add h a delta;
                        h \<leftarrow> run_tasks h new;
                        Some (h, ref_counter ob) }
          | _ \<Rightarrow> Some (h, -1) }"

text \<open>\<open>mem\<close> is the address the allocator returns, if it does.\<close>

definition ao2_alloc :: "ao2_heap \<Rightarrow> nat option \<Rightarrow> ao2_data \<Rightarrow> ao2_heap \<times> nat option" where
  "ao2_alloc h mem d =
     (case mem of None \<Rightarrow> (h, None)
      | Some a \<Rightarrow> (h(a \<mapsto> \<lparr> ref_counter = 1, ao2_data = d \<rparr>), Some a))"

definition hash_zero :: "nat \<Rightarrow> int" where
  "hash_zero x = 0"

definition ao2_container_alloc ::
    "ao2_heap \<Rightarrow> nat option \<Rightarrow> nat \<Rightarrow> (nat \<Rightarrow> int) option \<Rightarrow> (nat \<Rightarrow> nat \<Rightarrow> cb_result) option \<Rightarrow> ao2_heap \<times> nat option" where
  "ao2_container_alloc h mem n_buckets hash cmp =
     ao2_alloc h mem (Container_data
       \<lparr> hash_fn = (case hash of Some f \<Rightarrow> f | None \<Rightarrow> hash_zero), cmp_fn = cmp, c_elements = 0, c_version = 1,
         buckets = replicate n_buckets [] \<rparr>)"

section \<open>Containers\<close>

definition container_at :: "ao2_heap \<Rightarrow> nat \<Rightarrow> ao2_container option" where
  "container_at h c = do { ob \<leftarrow> h c; case ao2_data ob of Container_data k \<Rightarrow> Some k | User_data hs \<Rightarrow> None }"

definition put_container :: "ao2_heap \<Rightarrow> nat \<Rightarrow> ao2_container \<Rightarrow> ao2_heap" where
  "put_container h c k =
     (case h c of Some ob \<Rightarrow> h(c \<mapsto> ob\<lparr> ao2_data := Container_data k \<rparr>) | None \<Rightarrow> h)"

definition n_buckets :: "ao2_container \<Rightarrow> int" where
  "n_buckets k = int (length (buckets k))"

definition ao2_container_count :: "ao2_heap \<Rightarrow> nat \<Rightarrow> int option" where
  "ao2_container_count h c = map_option c_elements (container_at h c)"

text \<open>The remainder of an index; \<open>None\<close> without buckets.\<close>

definition bucket_mod :: "int \<Rightarrow> ao2_container \<Rightarrow> int option" where
  "bucket_mod i k = (if n_buckets k = 0 then None else Some (i smod n_buckets k))"

text \<open>The new entry of \<open>__ao2_link\<close> in bucket \<open>i\<close>.\<close>

definition insert_entry :: "bool \<Rightarrow> nat \<Rightarrow> nat \<Rightarrow> ao2_container \<Rightarrow> ao2_container" where
  "insert_entry iax2_hack i a k =
     (let p = \<lparr> bl_version = c_version k, bl_obj = a \<rparr>; b = buckets k ! i in
      k\<lparr> c_version := c_version k + 1,
         buckets := (buckets k)[i := if iax2_hack then p # b else b @ [p]],
         c_elements := c_elements k + 1 \<rparr>)"

definition ao2_link ::
    "ao2_heap \<Rightarrow> bool \<Rightarrow> nat option \<Rightarrow> nat option \<Rightarrow> bool \<Rightarrow> (ao2_heap \<times> bool) option" where
  "ao2_link h alloc c p iax2_hack =
     do { obj \<leftarrow> INTERNAL_OBJ h p;
          case (p, obj) of
            (Some a, Some _) \<Rightarrow>
              do { cobj \<leftarrow> INTERNAL_OBJ h c;
                   case c of
                     None \<Rightarrow> Some (h, False)
                   | Some c \<Rightarrow>
                       if \<not> alloc then Some (h, False)
                       else do { k \<leftarrow> container_at h c;
                                 i \<leftarrow> bucket_mod (c_abs (hash_fn k a)) k;
                                 if i < 0 then None
                                 else do { (h, _) \<leftarrow> ao2_ref (put_container h c (insert_entry iax2_hack (nat i) a k)) (Some a) 1;
                                           Some (h, True) } } }
          | _ \<Rightarrow> Some (h, False) }"

definition ao2_match_by_addr :: "nat \<Rightarrow> nat \<Rightarrow> cb_result" where
  "ao2_match_by_addr user_data arg = (if user_data = arg then (True, True) else (False, False))"

definition cb_true :: "nat \<Rightarrow> nat \<Rightarrow> cb_result" where
  "cb_true user_data arg = (True, False)"

text \<open>Removing the entry \<open>l\<close> from bucket \<open>i\<close>.\<close>

definition remove_entry :: "nat \<Rightarrow> bucket_list \<Rightarrow> ao2_container \<Rightarrow> ao2_container" where
  "remove_entry i l k =
     k\<lparr> c_version := c_version k + 1, buckets := (buckets k)[i := remove1 l (buckets k ! i)],
        c_elements := c_elements k - 1 \<rparr>"

text \<open>What \<open>ao2_callback\<close> does with an entry that matches; \<open>ret\<close> is the object to return.\<close>

definition match_entry ::
    "search_flags \<Rightarrow> nat \<Rightarrow> nat \<Rightarrow> bucket_list \<Rightarrow> nat option \<Rightarrow> ao2_heap \<Rightarrow> (ao2_heap \<times> nat option) option" where
  "match_entry fl c i l ret h =
     do { (h, ret) \<leftarrow> (if obj_nodata fl then Some (h, ret)
                      else map_option (\<lambda>(h, _). (h, Some (bl_obj l))) (ao2_ref h (Some (bl_obj l)) 1));
          if obj_unlink fl
          then do { k \<leftarrow> container_at h c;
                    (h, _) \<leftarrow> ao2_ref (put_container h c (remove_entry i l k)) (Some (bl_obj l)) (-1);
                    Some (h, ret) }
          else Some (h, ret) }"

text \<open>
  The inner loop of \<open>ao2_callback\<close>, on the entries of bucket \<open>i\<close> that are left. The result has the heap, the
  object to return, and whether the search is to stop.
\<close>

fun scan_bucket ::
    "search_flags \<Rightarrow> (nat \<Rightarrow> nat \<Rightarrow> cb_result) \<Rightarrow> nat \<Rightarrow> nat \<Rightarrow> nat \<Rightarrow> bucket_list list \<Rightarrow> nat option \<Rightarrow> ao2_heap
      \<Rightarrow> (ao2_heap \<times> nat option \<times> bool) option" where
  "scan_bucket fl cb arg c i [] ret h = Some (h, ret, False)"
| "scan_bucket fl cb arg c i (l # ls) ret h =
     (let (match, stop) = cb (bl_obj l) arg in
      if \<not> match \<and> \<not> stop then scan_bucket fl cb arg c i ls ret h
      else if \<not> match then Some (h, ret, True)
      else do { (h, ret) \<leftarrow> match_entry fl c i l ret h;
                if stop \<or> \<not> obj_multiple fl then Some (h, ret, True)
                else scan_bucket fl cb arg c i ls ret h })"

text \<open>The outer loop; \<open>i\<close> and \<open>lst\<close> (the variable \<open>last\<close>) as in the code.\<close>

partial_function (option) callback_loop ::
    "search_flags \<Rightarrow> (nat \<Rightarrow> nat \<Rightarrow> cb_result) \<Rightarrow> nat \<Rightarrow> nat \<Rightarrow> int \<Rightarrow> int \<Rightarrow> int \<Rightarrow> ao2_heap \<Rightarrow> (ao2_heap \<times> nat option) option" where
  "callback_loop fl cb arg c start i lst h =
     (if i < lst then
        do { k \<leftarrow> container_at h c;
             if i < 0 \<or> n_buckets k \<le> i then None
             else
               do { (h, ret, stop) \<leftarrow> scan_bucket fl cb arg c (nat i) (buckets k ! nat i) None h;
                    let i = (if stop then lst else i);
                    if ret \<noteq> None then Some (h, ret)
                    else if i = n_buckets k - 1 \<and> obj_pointer fl \<and> obj_continue fl
                    then callback_loop fl cb arg c start 0 start h
                    else callback_loop fl cb arg c start (i + 1) lst h } }
      else Some (h, None))"

declare callback_loop.simps [code]

definition ao2_callback ::
    "ao2_heap \<Rightarrow> nat option \<Rightarrow> search_flags \<Rightarrow> (nat \<Rightarrow> nat \<Rightarrow> cb_result) option \<Rightarrow> nat \<Rightarrow> (ao2_heap \<times> nat option) option" where
  "ao2_callback h c fl cb_fn arg =
     do { cobj \<leftarrow> INTERNAL_OBJ h c;
          case c of
            None \<Rightarrow> Some (h, None)
          | Some c \<Rightarrow>
              if obj_multiple fl \<and> \<not> obj_nodata fl then Some (h, None)
              else
                do { k \<leftarrow> container_at h c;
                     let cb = (case cb_fn of Some f \<Rightarrow> f | None \<Rightarrow> cb_true);
                     i \<leftarrow> (if obj_pointer fl then bucket_mod (hash_fn k arg) k else Some (-1));
                     if i < 0 then callback_loop fl cb arg c 0 0 (n_buckets k) h
                     else if obj_continue fl then callback_loop fl cb arg c i i (n_buckets k) h
                     else callback_loop fl cb arg c i i (i + 1) h } }"

definition ao2_unlink :: "ao2_heap \<Rightarrow> nat option \<Rightarrow> nat option \<Rightarrow> ao2_heap option" where
  "ao2_unlink h c p =
     do { obj \<leftarrow> INTERNAL_OBJ h p;
          case p of
            None \<Rightarrow> Some h
          | Some a \<Rightarrow>
              map_option fst (ao2_callback h c
                \<lparr> obj_unlink = True, obj_nodata = True, obj_multiple = False, obj_pointer = True, obj_continue = False \<rparr>
                (Some ao2_match_by_addr) a) }"

text \<open>\<open>ao2_find\<close> reads the match function of the container before any check of the pointer.\<close>

definition ao2_find :: "ao2_heap \<Rightarrow> nat option \<Rightarrow> nat \<Rightarrow> search_flags \<Rightarrow> (ao2_heap \<times> nat option) option" where
  "ao2_find h c arg fl =
     do { a \<leftarrow> c; k \<leftarrow> container_at h a; ao2_callback h c fl (cmp_fn k) arg }"

section \<open>Iterators\<close>

record ao2_iterator =
  it_c :: "nat option"
  it_bucket :: nat
  it_c_version :: int
  it_obj :: "int option"
  it_version :: int

definition ao2_iterator_init :: "ao2_heap \<Rightarrow> nat \<Rightarrow> (ao2_heap \<times> ao2_iterator) option" where
  "ao2_iterator_init h c =
     map_option (\<lambda>(h, _). (h, \<lparr> it_c = Some c, it_bucket = 0, it_c_version = 0, it_obj = None, it_version = 0 \<rparr>))
       (ao2_ref h (Some c) 1)"

definition ao2_iterator_destroy :: "ao2_heap \<Rightarrow> ao2_iterator \<Rightarrow> (ao2_heap \<times> ao2_iterator) option" where
  "ao2_iterator_destroy h it =
     map_option (\<lambda>(h, _). (h, it\<lparr> it_c := None \<rparr>)) (ao2_ref h (it_c it) (-1))"

text \<open>The entry after the one with version \<open>v\<close>; \<open>None\<close> if there is no such entry, \<open>Some None\<close> if it is the last.\<close>

fun list_next :: "int \<Rightarrow> bucket_list list \<Rightarrow> bucket_list option option" where
  "list_next v [] = None"
| "list_next v (l # ls) =
     (if bl_version l = v then Some (case ls of [] \<Rightarrow> None | m # _ \<Rightarrow> Some m) else list_next v ls)"

text \<open>The loop over the remaining buckets.\<close>

fun scan_from :: "int \<Rightarrow> nat \<Rightarrow> bucket_list list list \<Rightarrow> nat \<times> int \<times> bucket_list option" where
  "scan_from v b [] = (b, v, None)"
| "scan_from v b (ls # bs) =
     (case find (\<lambda>p. bl_version p > v) ls of
        Some p \<Rightarrow> (b, v, Some p)
      | None \<Rightarrow> scan_from 0 (b + 1) bs)"

text \<open>If the container has not changed, follow the pointer to the current entry.\<close>

definition follow_obj :: "ao2_container \<Rightarrow> ao2_iterator \<Rightarrow> (ao2_iterator \<times> bucket_list option) option" where
  "follow_obj k it =
     (case it_obj it of
        None \<Rightarrow> Some (it, None)
      | Some v \<Rightarrow>
          if c_version k \<noteq> it_c_version it then Some (it, None)
          else if length (buckets k) \<le> it_bucket it then None
          else
            map_option (\<lambda>nxt. (if nxt = None then it\<lparr> it_bucket := it_bucket it + 1, it_version := 0, it_obj := None \<rparr> else it, nxt))
              (list_next v (buckets k ! it_bucket it)))"

text \<open>What \<open>ao2_iterator_next\<close> does between taking and releasing the lock of the container.\<close>

definition iterator_advance :: "ao2_container \<Rightarrow> ao2_iterator \<Rightarrow> (ao2_iterator \<times> bucket_list option) option" where
  "iterator_advance k it =
     do { (it, p) \<leftarrow> follow_obj k it;
          let (it, p) =
            (if p \<noteq> None then (it, p)
             else case scan_from (it_version it) (it_bucket it) (drop (it_bucket it) (buckets k)) of
                    (b, v, p) \<Rightarrow> (it\<lparr> it_bucket := b, it_version := v \<rparr>, p));
          Some (case p of
                  None \<Rightarrow> (it, None)
                | Some e \<Rightarrow> (it\<lparr> it_version := bl_version e, it_obj := Some (bl_version e), it_c_version := c_version k \<rparr>, p)) }"

definition ao2_iterator_next :: "ao2_heap \<Rightarrow> ao2_iterator \<Rightarrow> (ao2_heap \<times> ao2_iterator \<times> nat option) option" where
  "ao2_iterator_next h it =
     do { cobj \<leftarrow> INTERNAL_OBJ h (it_c it);
          case it_c it of
            None \<Rightarrow> Some (h, it, None)
          | Some c \<Rightarrow>
              do { k \<leftarrow> container_at h c;
                   (it, p) \<leftarrow> iterator_advance k it;
                   case p of
                     None \<Rightarrow> Some (h, it, None)
                   | Some p \<Rightarrow> map_option (\<lambda>(h, _). (h, it, Some (bl_obj p))) (ao2_ref h (Some (bl_obj p)) 1) } }"

section \<open>Balanced heaps\<close>

text \<open>
  The references a live object holds, and the invariant of the reference counts: \<open>ext a\<close> counts the
  references clients own, \<open>ts\<close> the work left. Every count is the number of references, an object with
  no reference is not live, and an object being destroyed is referred to by nothing.
\<close>

definition targets :: "astobj2 \<Rightarrow> nat list" where
  "targets ob = (case ao2_data ob of User_data hs \<Rightarrow> hs | Container_data k \<Rightarrow> bucket_objs k)"

definition dying :: "ao2_task list \<Rightarrow> nat set" where
  "dying ts = {a. Free a \<in> set ts}"

definition heap_refs :: "ao2_heap \<Rightarrow> nat set \<Rightarrow> nat \<Rightarrow> nat" where
  "heap_refs h D b = (\<Sum>a\<in>dom h - D. count_list (targets (the (h a))) b)"

definition references :: "ao2_task list \<Rightarrow> ao2_heap \<Rightarrow> (nat \<Rightarrow> nat) \<Rightarrow> nat \<Rightarrow> nat" where
  "references ts h ext b = ext b + heap_refs h (dying ts) b + count_list ts (Unref b)"

fun entry_ok :: "astobj2 option \<Rightarrow> bool \<Rightarrow> nat \<Rightarrow> bool" where
  "entry_ok None dead n = (\<not> dead \<and> n = 0)"
| "entry_ok (Some ob) dead n = (if dead then n = 0 else ref_counter ob = int n \<and> 0 < n)"

definition balanced_with :: "ao2_task list \<Rightarrow> ao2_heap \<Rightarrow> (nat \<Rightarrow> nat) \<Rightarrow> bool" where
  "balanced_with ts h ext \<longleftrightarrow>
     finite (dom h) \<and> (\<forall>a. count_list ts (Free a) \<le> 1) \<and>
     (\<forall>b. entry_ok (h b) (b \<in> dying ts) (references ts h ext b))"

definition balanced :: "ao2_heap \<Rightarrow> (nat \<Rightarrow> nat) \<Rightarrow> bool" where
  "balanced h ext \<longleftrightarrow> balanced_with [] h ext"

text \<open>Objects keep their data; some may be gone.\<close>

definition same_data :: "ao2_heap \<Rightarrow> ao2_heap \<Rightarrow> bool" where
  "same_data h h' \<longleftrightarrow> (\<forall>a ob'. h' a = Some ob' \<longrightarrow> (\<exists>ob. h a = Some ob \<and> ao2_data ob' = ao2_data ob))"

lemma same_data_refl [simp]: "same_data h h"
  by (simp add: same_data_def)

lemma same_data_trans: "same_data h h' \<Longrightarrow> same_data h' h'' \<Longrightarrow> same_data h h''"
  by (fastforce simp: same_data_def)

lemma destructor_targets: "destructor ob = map Unref (targets ob)"
  by (simp add: destructor_def targets_def container_destruct_def split: ao2_data.splits)

lemma targets_ref_counter [simp]: "targets (ob\<lparr> ref_counter := n \<rparr>) = targets ob"
  by (simp add: targets_def)

lemma dying_simps [simp]:
  "dying [] = {}" "dying (Unref a # ts) = dying ts" "dying (Free a # ts) = insert a (dying ts)"
  "dying (ts @ us) = dying ts \<union> dying us" "dying (map Unref as) = {}"
  by (auto simp: dying_def)

lemma count_unref_map [simp]:
  "count_list (map Unref as) (Unref b) = count_list as b" "count_list (map Unref as) (Free b) = 0"
  by (induction as) auto

lemma count_list_dying: "count_list ts (Free a) = 0 \<longleftrightarrow> a \<notin> dying ts"
  by (simp add: dying_def count_list_0_iff)

lemma heap_refs_cong:
  "dom h - D = dom h' - D' \<Longrightarrow> (\<And>a. a \<in> dom h - D \<Longrightarrow> targets (the (h a)) = targets (the (h' a))) \<Longrightarrow>
   heap_refs h D b = heap_refs h' D' b"
  by (simp add: heap_refs_def)

lemma heap_refs_upd_counter:
  "h a = Some ob \<Longrightarrow> heap_refs (h(a \<mapsto> ob\<lparr> ref_counter := n \<rparr>)) D b = heap_refs h D b"
  by (rule heap_refs_cong) auto

lemma heap_refs_remove:
  assumes "finite (dom h)" "h a = Some ob" "a \<notin> D"
  shows "heap_refs h D b = count_list (targets ob) b + heap_refs h (insert a D) b"
proof -
  have "dom h - D - {a} = dom h - insert a D" by auto
  with sum.remove [of "dom h - D" a "\<lambda>x. count_list (targets (the (h x))) b"] assms show ?thesis
    by (simp add: heap_refs_def domIff)
qed

lemma balanced_withD:
  assumes "balanced_with ts h ext"
  shows "finite (dom h)" "count_list ts (Free a) \<le> 1" "entry_ok (h b) (b \<in> dying ts) (references ts h ext b)"
  using assms by (simp_all add: balanced_with_def)

lemma balanced_live:
  assumes "balanced_with ts h ext" "0 < references ts h ext a"
  obtains ob where "h a = Some ob" "a \<notin> dying ts" "ref_counter ob = int (references ts h ext a)"
  using balanced_withD(3) [OF assms(1), of a] assms(2) that by (cases "h a") (auto split: if_splits)

lemma balanced_with_Free:
  assumes "balanced_with (Free a # ts) h ext"
  shows "balanced_with ts (h(a := None)) ext"
proof -
  have cnt: "count_list ts (Free a) = 0" "count_list ts (Free b) \<le> 1" for b
    using balanced_withD(2) [OF assms, of a] balanced_withD(2) [OF assms, of b] by (simp_all split: if_splits)
  have "dom h - insert a (dying ts) = dom (h(a := None)) - dying ts" by auto
  then have "heap_refs h (insert a (dying ts)) b = heap_refs (h(a := None)) (dying ts) b" for b
    by (rule heap_refs_cong) auto
  then have r: "references (Free a # ts) h ext b = references ts (h(a := None)) ext b" for b
    by (simp add: references_def)
  have "entry_ok ((h(a := None)) b) (b \<in> dying ts) (references ts (h(a := None)) ext b)" for b
    using balanced_withD(3) [OF assms, of b] cnt(1) by (cases "h b") (auto simp: r count_list_dying split: if_splits)
  then show ?thesis using balanced_withD(1) [OF assms] cnt(2) by (simp add: balanced_with_def)
qed

text \<open>A reference to drop counts like one a client owns.\<close>

lemma balanced_with_Unref: "balanced_with (Unref a # ts) h ext = balanced_with ts h (ext(a := ext a + 1))"
proof -
  have "references (Unref a # ts) h ext b = references ts h (ext(a := ext a + 1)) b" for b
    by (simp add: references_def)
  then show ?thesis by (simp add: balanced_with_def)
qed

text \<open>Dropping \<open>k\<close> references of a client: the object lives on, or its destructor is still to run.\<close>

lemma ref_add_drop:
  assumes bal: "balanced_with ts h (ext(a := ext a + k))" and "0 < k"
  obtains ob h' new where "h a = Some ob" "a \<notin> dying ts" "ref_add h a (- int k) = Some (h', new)"
    "h' = h(a \<mapsto> ob\<lparr> ref_counter := ref_counter ob - int k \<rparr>)" "new = [] \<or> new = destructor ob @ [Free a]"
    "balanced_with (new @ ts) h' ext"
proof -
  let ?ext = "ext(a := ext a + k)"
  have "0 < references ts h ?ext a" using \<open>0 < k\<close> by (simp add: references_def)
  then obtain ob where ob: "h a = Some ob" "a \<notin> dying ts" "ref_counter ob = int (references ts h ?ext a)"
    using balanced_live [OF bal] by blast
  define h' where "h' = h(a \<mapsto> ob\<lparr> ref_counter := ref_counter ob - int k \<rparr>)"
  define new where "new = (if ref_counter ob - int k \<le> 0 then destructor ob @ [Free a] else [])"
  have n: "references ts h ?ext b = references ts h ext b + (if b = a then k else 0)" for b
    by (simp add: references_def)
  have fin: "finite (dom h')" using balanced_withD(1) [OF bal] by (simp add: h'_def)
  have refs: "references (new @ ts) h' ext b = references ts h ext b" for b
  proof (cases "new = []")
    case True
    then show ?thesis by (simp add: references_def h'_def heap_refs_upd_counter ob(1))
  next
    case False
    then have new: "new = map Unref (targets ob) @ [Free a]" by (simp add: new_def destructor_targets split: if_splits)
    show ?thesis
      using heap_refs_remove [OF balanced_withD(1) [OF bal] ob(1,2), of b]
      by (simp add: new references_def h'_def heap_refs_upd_counter ob(1))
  qed
  have "entry_ok (h' b) (b \<in> dying (new @ ts)) (references ts h ext b)" for b
    using balanced_withD(3) [OF bal, of b] ob(2,3)
    by (cases "h b") (auto simp: h'_def new_def n destructor_targets split: if_splits)
  moreover have "count_list (new @ ts) (Free b) \<le> 1" for b
    using balanced_withD(2) [OF bal, of b] ob(2) count_list_dying [of ts a] by (auto simp: new_def destructor_targets)
  ultimately have "balanced_with (new @ ts) h' ext"
    using fin by (simp add: balanced_with_def refs)
  moreover have "ref_add h a (- int k) = Some (h', new)"
    by (simp add: ref_add_def ob(1) h'_def new_def Let_def)
  moreover have "new = [] \<or> new = destructor ob @ [Free a]" by (simp add: new_def)
  ultimately show thesis using that ob(1,2) h'_def by blast
qed

text \<open>The work shrinks: what the objects not being destroyed hold, and the tasks.\<close>

fun task_weight :: "ao2_task \<Rightarrow> nat" where
  "task_weight (Unref a) = 2"
| "task_weight (Free a) = 1"

definition work :: "ao2_heap \<Rightarrow> ao2_task list \<Rightarrow> nat" where
  "work h ts = (\<Sum>a\<in>dom h - dying ts. 2 * length (targets (the (h a)))) + sum_list (map task_weight ts)"

lemma work_Free: "work (h(a := None)) ts < work h (Free a # ts)"
proof -
  have "(\<Sum>x\<in>dom (h(a := None)) - dying ts. 2 * length (targets (the ((h(a := None)) x)))) =
      (\<Sum>x\<in>dom h - insert a (dying ts). 2 * length (targets (the (h x))))"
    by (rule sum.cong) auto
  then show ?thesis by (simp add: work_def)
qed

lemma weight_unrefs: "sum_list (map (task_weight \<circ> Unref) as) = 2 * length as"
  by (induction as) auto

lemma work_Unref:
  assumes "h a = Some ob" "a \<notin> dying ts" "new = [] \<or> new = destructor ob @ [Free a]" "finite (dom h)"
  shows "work (h(a \<mapsto> ob\<lparr> ref_counter := n \<rparr>)) (new @ ts) < work h (Unref a # ts)"
proof -
  let ?h = "h(a \<mapsto> ob\<lparr> ref_counter := n \<rparr>)" and ?f = "\<lambda>h a. 2 * length (targets (the (h a)))"
  have same: "sum (?f ?h) (dom ?h - D) = sum (?f h) (dom h - D)" for D
    using assms(1) by (intro sum.cong) auto
  show ?thesis
  proof (cases "new = []")
    case True
    then show ?thesis using same by (simp add: work_def)
  next
    case False
    then have new: "new = map Unref (targets ob) @ [Free a]" using assms(3) by (simp add: destructor_targets)
    have "dom h - dying ts - {a} = dom h - insert a (dying ts)" by auto
    with sum.remove [of "dom h - dying ts" a "?f h"] assms(1,2,4)
    have "sum (?f h) (dom h - dying ts) = 2 * length (targets ob) + sum (?f h) (dom h - insert a (dying ts))"
      by (simp add: domIff)
    then show ?thesis using same by (simp add: work_def new weight_unrefs)
  qed
qed

lemma run_tasks_simps [simp]:
  "run_tasks h [] = Some h"
  "run_tasks h (Free a # ts) = run_tasks (h(a := None)) ts"
  "run_tasks h (Unref a # ts) = do { (h, new) \<leftarrow> ref_add h a (-1); run_tasks h (new @ ts) }"
  by (simp_all add: run_tasks.simps)

text \<open>The work is done without touching a freed object, and leaves a balanced heap.\<close>

lemma run_tasks_balanced:
  assumes "balanced_with ts h ext"
  shows "\<exists>h'. run_tasks h ts = Some h' \<and> balanced_with [] h' ext \<and> same_data h h'"
  using assms
proof (induction "work h ts" arbitrary: h ts rule: less_induct)
  case less
  show ?case
  proof (cases ts)
    case Nil
    with less.prems show ?thesis by simp
  next
    case (Cons t ts')
    show ?thesis
    proof (cases t)
      case (Free a)
      with less.prems Cons have bal: "balanced_with ts' (h(a := None)) ext" by (simp add: balanced_with_Free)
      from less.hyps [OF _ bal] work_Free [of h a ts'] Cons Free obtain h' where
        "run_tasks (h(a := None)) ts' = Some h'" "balanced_with [] h' ext" "same_data (h(a := None)) h'" by auto
      moreover have "same_data h (h(a := None))" by (simp add: same_data_def)
      ultimately show ?thesis using Cons Free same_data_trans by auto
    next
      case (Unref a)
      with less.prems Cons have "balanced_with ts' h (ext(a := ext a + 1))" by (simp add: balanced_with_Unref)
      then obtain ob h1 new where st: "h a = Some ob" "a \<notin> dying ts'" "ref_add h a (- int 1) = Some (h1, new)"
        "h1 = h(a \<mapsto> ob\<lparr> ref_counter := ref_counter ob - int 1 \<rparr>)" "new = [] \<or> new = destructor ob @ [Free a]"
        "balanced_with (new @ ts') h1 ext"
        by (rule ref_add_drop) simp
      have "work h1 (new @ ts') < work h ts"
        using work_Unref [OF st(1,2,5) balanced_withD(1) [OF less.prems]] Cons Unref by (simp add: st(4))
      from less.hyps [OF this st(6)] obtain h' where
        "run_tasks h1 (new @ ts') = Some h'" "balanced_with [] h' ext" "same_data h1 h'" by auto
      moreover have "same_data h h1" using st(1) by (simp add: same_data_def st(4))
      ultimately show ?thesis using Cons Unref st(3) same_data_trans by auto
    qed
  qed
qed

section \<open>The operations on references\<close>

lemma ao2_ref_down:
  assumes "balanced h ext" "k \<le> ext a" "0 < k"
  shows "\<exists>h' r. ao2_ref h (Some a) (- int k) = Some (h', r) \<and> balanced h' (ext(a := ext a - k)) \<and> same_data h h'"
proof -
  let ?ext = "ext(a := ext a - k)"
  have "balanced_with [] h (?ext(a := ?ext a + k))" using assms by (simp add: balanced_def)
  then obtain ob h1 new where st: "h a = Some ob" "ref_add h a (- int k) = Some (h1, new)"
      "h1 = h(a \<mapsto> ob\<lparr> ref_counter := ref_counter ob - int k \<rparr>)" "balanced_with (new @ []) h1 ?ext"
    using assms(3) by (rule ref_add_drop)
  from run_tasks_balanced [OF st(4)] obtain h' where
    "run_tasks h1 new = Some h'" "balanced_with [] h' ?ext" "same_data h1 h'" by auto
  moreover have "same_data h h1" using st(1) by (simp add: same_data_def st(3))
  ultimately show ?thesis
    using st(1,2) assms(3) same_data_trans by (auto simp: ao2_ref_def INTERNAL_OBJ_def balanced_def)
qed

lemma ao2_ref_up:
  assumes "balanced h ext" "h a = Some ob" "0 < k"
  shows "ao2_ref h (Some a) (int k) = Some (h(a \<mapsto> ob\<lparr> ref_counter := ref_counter ob + int k \<rparr>), ref_counter ob)"
    "balanced (h(a \<mapsto> ob\<lparr> ref_counter := ref_counter ob + int k \<rparr>)) (ext(a := ext a + k))"
proof -
  have bal: "balanced_with [] h ext" using assms(1) by (simp add: balanced_def)
  from balanced_withD(3) [OF bal, of a] assms(2) have pos: "ref_counter ob = int (references [] h ext a)" "0 < ref_counter ob"
    by simp_all
  then show "ao2_ref h (Some a) (int k) = Some (h(a \<mapsto> ob\<lparr> ref_counter := ref_counter ob + int k \<rparr>), ref_counter ob)"
    using assms(2,3) by (simp add: ao2_ref_def INTERNAL_OBJ_def ref_add_def)
  let ?h = "h(a \<mapsto> ob\<lparr> ref_counter := ref_counter ob + int k \<rparr>)"
  have r: "references [] (h(a \<mapsto> ob\<lparr> ref_counter := n \<rparr>)) (ext(a := ext a + k)) b =
      references [] h ext b + (if b = a then k else 0)" for n b
    by (simp add: references_def heap_refs_upd_counter assms(2))
  have "entry_ok (?h b) False (references [] ?h (ext(a := ext a + k)) b)" for b
    using balanced_withD(3) [OF bal, of b] pos by (auto simp: r)
  then show "balanced ?h (ext(a := ext a + k))"
    using balanced_withD(1) [OF bal] by (simp add: balanced_def balanced_with_def)
qed

lemma balanced_owned: "balanced h ext \<Longrightarrow> 0 < ext a \<Longrightarrow> h a \<noteq> None"
  by (rule balanced_live [of "[]" h ext a]) (simp_all add: balanced_def references_def)

section \<open>Moving references into and out of containers\<close>

lemma container_atE:
  assumes "container_at h c = Some k"
  obtains ob where "h c = Some ob" "ao2_data ob = Container_data k"
  using assms that by (cases "h c"; cases "ao2_data (the (h c))") (auto simp: container_at_def)

lemma container_atI: "h c = Some ob \<Longrightarrow> ao2_data ob = Container_data k \<Longrightarrow> container_at h c = Some k"
  by (simp add: container_at_def)

lemma same_data_container:
  assumes "same_data h h'" "container_at h c = Some k" "h' c \<noteq> None"
  shows "container_at h' c = Some k"
proof -
  obtain ob' where "h' c = Some ob'" using assms(3) by blast
  moreover obtain ob where "h c = Some ob" "ao2_data ob = Container_data k" using assms(2) by (rule container_atE)
  ultimately show ?thesis using assms(1) container_atI by (fastforce simp: same_data_def)
qed

lemma targets_container: "ao2_data ob = Container_data k \<Longrightarrow> targets ob = bucket_objs k"
  by (simp add: targets_def)

lemma container_at_put [simp]:
  assumes "container_at h c = Some k"
  shows "container_at (put_container h c k') c = Some k'"
  using assms by (cases "h c") (simp_all add: container_at_def put_container_def)

lemma container_at_put_other [simp]: "d \<noteq> c \<Longrightarrow> container_at (put_container h c k') d = container_at h d"
  by (cases "h c") (simp_all add: container_at_def put_container_def)

lemma heap_refs_put:
  assumes fin: "finite (dom h)" and k: "container_at h c = Some k"
  shows "heap_refs (put_container h c k') {} b + count_list (bucket_objs k) b = heap_refs h {} b + count_list (bucket_objs k') b"
proof -
  obtain ob where ob: "h c = Some ob" "ao2_data ob = Container_data k" using k by (rule container_atE)
  define ob' where "ob' = ob\<lparr> ao2_data := Container_data k' \<rparr>"
  let ?h = "h(c \<mapsto> ob')"
  have "heap_refs ?h {} b = count_list (targets ob') b + heap_refs ?h {c} b"
    using fin by (intro heap_refs_remove) auto
  moreover have "heap_refs h {} b = count_list (targets ob) b + heap_refs h {c} b"
    using fin ob(1) by (intro heap_refs_remove) auto
  moreover have "heap_refs ?h {c} b = heap_refs h {c} b"
    using ob(1) by (intro heap_refs_cong) auto
  ultimately show ?thesis
    using ob by (simp add: put_container_def ob'_def targets_container)
qed

text \<open>Replacing the content of a container moves references between it and the clients.\<close>

lemma balanced_put:
  assumes bal: "balanced h ext" and k: "container_at h c = Some k"
    and move: "\<And>b. ext' b + count_list (bucket_objs k') b = ext b + count_list (bucket_objs k) b"
  shows "balanced (put_container h c k') ext'"
proof -
  have fin: "finite (dom h)" using bal balanced_withD(1) by (auto simp: balanced_def)
  have r: "references [] (put_container h c k') ext' b = references [] h ext b" for b
    using heap_refs_put [OF fin k, of k' b] move [of b] by (simp add: references_def)
  obtain ob where ob: "h c = Some ob" using k by (rule container_atE)
  have "entry_ok (put_container h c k' b) False (references [] h ext b)" for b
    using balanced_withD(3) [OF bal [unfolded balanced_def], of b] ob by (cases "b = c") (simp_all add: put_container_def)
  moreover have "finite (dom (put_container h c k'))" using fin by (simp add: put_container_def ob)
  ultimately show ?thesis by (simp add: balanced_def balanced_with_def r)
qed

section \<open>The invariant of containers\<close>

definition entry_bucket :: "ao2_container \<Rightarrow> nat \<Rightarrow> int" where
  "entry_bucket k a = c_abs (hash_fn k a) smod n_buckets k"

definition cont_ok :: "ao2_container \<Rightarrow> bool" where
  "cont_ok k \<longleftrightarrow>
     c_elements k = int (length (concat (buckets k))) \<and>
     distinct (map bl_version (concat (buckets k))) \<and>
     (\<forall>l\<in>set (concat (buckets k)). 0 < bl_version l \<and> bl_version l < c_version k) \<and> 0 < c_version k \<and>
     (\<forall>i<length (buckets k). \<forall>l\<in>set (buckets k ! i). int i = entry_bucket k (bl_obj l))"

definition heap_ok :: "ao2_heap \<Rightarrow> (nat \<Rightarrow> nat) \<Rightarrow> bool" where
  "heap_ok h ext \<longleftrightarrow> balanced h ext \<and> (\<forall>c k. container_at h c = Some k \<longrightarrow> cont_ok k)"

definition same_shape :: "ao2_container \<Rightarrow> ao2_container \<Rightarrow> bool" where
  "same_shape k k' \<longleftrightarrow> hash_fn k' = hash_fn k \<and> cmp_fn k' = cmp_fn k \<and> length (buckets k') = length (buckets k)"

lemma same_shape_refl [simp]: "same_shape k k"
  by (simp add: same_shape_def)

lemma same_shape_trans: "same_shape k k' \<Longrightarrow> same_shape k' k'' \<Longrightarrow> same_shape k k''"
  by (simp add: same_shape_def)

lemma concat_update:
  assumes "i < length bs"
  shows "concat (bs[i := b]) = concat (take i bs) @ b @ concat (drop (Suc i) bs)"
    and "concat bs = concat (take i bs) @ bs ! i @ concat (drop (Suc i) bs)"
  using assms by (simp add: upd_conv_take_nth_drop)
    (metis assms concat.simps(2) concat_append id_take_nth_drop)

lemma insert_entry_mset:
  assumes "i < length (buckets k)"
  shows "mset (concat (buckets (insert_entry hack i a k))) =
    add_mset \<lparr> bl_version = c_version k, bl_obj = a \<rparr> (mset (concat (buckets k)))"
  using concat_update [OF assms] by (simp add: insert_entry_def Let_def)

lemma remove_entry_mset:
  assumes "i < length (buckets k)" "l \<in> set (buckets k ! i)"
  shows "add_mset l (mset (concat (buckets (remove_entry i l k)))) = mset (concat (buckets k))"
proof -
  obtain B where B: "mset (buckets k ! i) = add_mset l B"
    using assms(2) by (metis in_multiset_in_set multi_member_split)
  have "mset (concat (buckets (remove_entry i l k))) =
      mset (concat (take i (buckets k))) + B + mset (concat (drop (Suc i) (buckets k)))"
    using concat_update(1) [OF assms(1)] by (simp add: remove_entry_def B)
  then show ?thesis
    by (subst concat_update(2) [OF assms(1)]) (simp add: B)
qed

lemma insert_entry_ok:
  assumes ok: "cont_ok k" and i: "i < length (buckets k)" "int i = entry_bucket k a"
  shows "cont_ok (insert_entry hack i a k)"
proof -
  let ?k = "insert_entry hack i a k" and ?l = "\<lparr> bl_version = c_version k, bl_obj = a \<rparr>"
  note m = insert_entry_mset [OF i(1), of hack a]
  have set: "set (concat (buckets ?k)) = insert ?l (set (concat (buckets k)))"
    using m by (metis set_mset_add_mset_insert set_mset_mset)
  have "length (concat (buckets ?k)) = Suc (length (concat (buckets k)))"
    using m by (metis size_add_mset size_mset)
  moreover have vs: "mset (map bl_version (concat (buckets ?k))) = mset (c_version k # map bl_version (concat (buckets k)))"
    using m by (simp only: mset_map image_mset_add_mset mset.simps) simp
  have "c_version k \<notin> bl_version ` set (concat (buckets k))" using ok by (force simp: cont_ok_def)
  with mset_eq_imp_distinct_iff [OF vs] ok have "distinct (map bl_version (concat (buckets ?k)))"
    by (simp add: cont_ok_def)
  moreover have "\<forall>j<length (buckets ?k). \<forall>l\<in>set (buckets ?k ! j). int j = entry_bucket k (bl_obj l)"
    using ok i by (auto simp: insert_entry_def cont_ok_def nth_list_update Let_def split: if_splits)
  moreover have "entry_bucket ?k = entry_bucket k" "c_version ?k = c_version k + 1" "c_elements ?k = c_elements k + 1"
    by (auto simp: entry_bucket_def n_buckets_def insert_entry_def Let_def fun_eq_iff)
  ultimately show ?thesis
    using ok unfolding cont_ok_def set by (simp del: set_concat) fastforce
qed

lemma remove_entry_ok:
  assumes ok: "cont_ok k" and i: "i < length (buckets k)" "l \<in> set (buckets k ! i)"
  shows "cont_ok (remove_entry i l k)"
proof -
  let ?k = "remove_entry i l k"
  note m = remove_entry_mset [OF i]
  have sub: "set (concat (buckets ?k)) \<subseteq> set (concat (buckets k))"
    using m by (metis set_mset_add_mset_insert set_mset_mset subset_insertI)
  have "Suc (length (concat (buckets ?k))) = length (concat (buckets k))"
    using m by (metis size_add_mset size_mset)
  moreover have "mset (bl_version l # map bl_version (concat (buckets ?k))) = mset (map bl_version (concat (buckets k)))"
    using m by (simp only: mset_map mset.simps flip: image_mset_add_mset)
  from mset_eq_imp_distinct_iff [OF this] ok have "distinct (map bl_version (concat (buckets ?k)))"
    by (simp add: cont_ok_def)
  moreover have "\<forall>j<length (buckets ?k). \<forall>l\<in>set (buckets ?k ! j). int j = entry_bucket k (bl_obj l)"
    using ok i(1) by (auto simp: remove_entry_def cont_ok_def nth_list_update dest: notin_set_remove1 set_remove1_subset [THEN subsetD] split: if_splits)
  moreover have "entry_bucket ?k = entry_bucket k" "c_version ?k = c_version k + 1" "c_elements ?k = c_elements k - 1"
    by (auto simp: entry_bucket_def n_buckets_def remove_entry_def fun_eq_iff)
  ultimately show ?thesis
    using ok sub unfolding cont_ok_def by (simp del: set_concat) force
qed

lemma entry_shape [simp]:
  "same_shape k (insert_entry hack i a k)" "same_shape k (remove_entry i l k)"
  by (simp_all add: same_shape_def insert_entry_def remove_entry_def Let_def)

section \<open>The operations on containers keep the invariant\<close>

lemma heap_okD: "heap_ok h ext \<Longrightarrow> balanced h ext" "heap_ok h ext \<Longrightarrow> container_at h c = Some k \<Longrightarrow> cont_ok k"
  by (auto simp: heap_ok_def)

lemma container_at_counter:
  "h a = Some ob \<Longrightarrow> container_at (h(a \<mapsto> ob\<lparr> ref_counter := n \<rparr>)) c = container_at h c"
  by (simp add: container_at_def)

lemma heap_ok_put:
  assumes "heap_ok h ext" "container_at h c = Some k" "cont_ok k'"
    and "\<And>b. ext' b + count_list (bucket_objs k') b = ext b + count_list (bucket_objs k) b"
  shows "heap_ok (put_container h c k') ext'"
proof -
  have "cont_ok m" if "container_at (put_container h c k') d = Some m" for d m
    using that assms(1,2,3) by (cases "d = c") (auto simp: heap_ok_def)
  then show ?thesis using balanced_put [OF heap_okD(1) [OF assms(1)] assms(2,4)] by (simp add: heap_ok_def)
qed

lemma heap_ok_ref_up:
  assumes "heap_ok h ext" "0 < references [] h ext a"
  obtains h' r where "ao2_ref h (Some a) 1 = Some (h', r)" "heap_ok h' (ext(a := ext a + 1))"
    "container_at h' = container_at h" "dom h' = dom h"
proof -
  from assms obtain ob where ob: "h a = Some ob"
    using balanced_live heap_okD(1) balanced_def by metis
  let ?h = "h(a \<mapsto> ob\<lparr> ref_counter := ref_counter ob + int 1 \<rparr>)"
  have "container_at ?h = container_at h" by (simp add: fun_eq_iff container_at_counter ob)
  moreover from this have "heap_ok ?h (ext(a := ext a + 1))"
    using ao2_ref_up(2) [OF heap_okD(1) [OF assms(1)] ob, of 1] assms(1) by (simp add: heap_ok_def)
  moreover have "dom ?h = dom h" using ob by auto
  ultimately show thesis
    using ao2_ref_up(1) [OF heap_okD(1) [OF assms(1)] ob, of 1] by (intro that [of ?h]) simp_all
qed

lemma same_data_container_back:
  assumes "same_data h h'" "container_at h' c = Some m"
  shows "container_at h c = Some m"
proof -
  obtain ob' where ob': "h' c = Some ob'" "ao2_data ob' = Container_data m" using assms(2) by (rule container_atE)
  with assms(1) obtain ob where "h c = Some ob" "ao2_data ob = Container_data m" by (force simp: same_data_def)
  then show ?thesis by (rule container_atI)
qed

lemma heap_ok_ref_down:
  assumes "heap_ok h ext" "0 < k" "k \<le> ext a"
  obtains h' r where "ao2_ref h (Some a) (- int k) = Some (h', r)" "heap_ok h' (ext(a := ext a - k))" "same_data h h'"
proof -
  from ao2_ref_down [OF heap_okD(1) [OF assms(1)] assms(3,2)] obtain h' r where
    h': "ao2_ref h (Some a) (- int k) = Some (h', r)" "balanced h' (ext(a := ext a - k))" "same_data h h'" by blast
  have "cont_ok m" if "container_at h' c = Some m" for c m
    using same_data_container_back [OF h'(3) that] assms(1) by (rule heap_okD(2) [rotated])
  with h' that show thesis by (auto simp: heap_ok_def)
qed

lemma bucket_objs_insert:
  "i < length (buckets k) \<Longrightarrow> count_list (bucket_objs (insert_entry hack i a k)) b =
    count_list (bucket_objs k) b + (if b = a then 1 else 0)"
  using insert_entry_mset [of i k hack a]
  by (simp add: bucket_objs_def count_mset [symmetric] mset_map del: count_mset)

lemma bucket_objs_remove:
  "i < length (buckets k) \<Longrightarrow> l \<in> set (buckets k ! i) \<Longrightarrow>
   count_list (bucket_objs (remove_entry i l k)) b + (if b = bl_obj l then 1 else 0) = count_list (bucket_objs k) b"
  by (subst (2) count_mset [symmetric]) (simp add: bucket_objs_def mset_map remove_entry_mset [of i k l, symmetric] flip: count_mset)

text \<open>A linked object is alive.\<close>

lemma heap_refs_linked:
  assumes "finite (dom h)" "container_at h c = Some k" "a \<in> set (bucket_objs k)"
  shows "0 < heap_refs h {} a"
proof -
  obtain ob where "h c = Some ob" "ao2_data ob = Container_data k" using assms(2) by (rule container_atE)
  moreover have "0 < count_list (bucket_objs k) a" using assms(3) count_notin by (metis count_list_0_iff gr0I)
  ultimately show ?thesis
    using heap_refs_remove [OF assms(1), of c ob "{}" a] by (simp add: targets_container)
qed

lemma linked_alive:
  assumes "heap_ok h ext" "container_at h c = Some k" "a \<in> set (bucket_objs k)"
  shows "0 < references [] h ext a"
  using heap_refs_linked [OF balanced_withD(1) assms(2,3)] heap_okD(1) [OF assms(1)]
  by (simp add: references_def balanced_def)

lemma container_owned:
  assumes "heap_ok h ext" "0 < ext c" "same_data h0 h" "container_at h0 c = Some k"
  shows "container_at h c = Some k"
  using same_data_container [OF assms(3,4) balanced_owned [OF heap_okD(1) [OF assms(1)] assms(2)]] .

lemma smod_range: "0 \<le> (x::int) \<Longrightarrow> 0 < n \<Longrightarrow> 0 \<le> x smod n \<and> x smod n < n"
  by (cases "x = 0") (simp_all add: signed_modulo_int_def sdiv_nonneg sgn_if minus_div_mult_eq_mod)

lemma link_heap_ok:
  assumes ok: "heap_ok h ext" and own: "0 < ext c" "0 < ext a" and k: "container_at h c = Some k"
    and hash: "buckets k \<noteq> []" "0 \<le> c_abs (hash_fn k a)"
  obtains h' where "ao2_link h True (Some c) (Some a) hack = Some (h', True)" "heap_ok h' ext"
    "container_at h' = container_at (put_container h c (insert_entry hack (nat (entry_bucket k a)) a k))"
proof -
  let ?i = "nat (entry_bucket k a)" and ?ext = "ext(a := ext a - 1)"
  let ?h = "put_container h c (insert_entry hack ?i a k)"
  have pos: "0 < n_buckets k" using hash(1) by (simp add: n_buckets_def)
  have i: "0 \<le> entry_bucket k a" "?i < length (buckets k)"
    using smod_range [OF hash(2) pos] by (auto simp: entry_bucket_def n_buckets_def)
  have ok1: "heap_ok ?h ?ext"
    using i own(2) by (intro heap_ok_put [OF ok k] insert_entry_ok [OF heap_okD(2) [OF ok k]]) (auto simp: bucket_objs_insert)
  have "container_at ?h c = Some (insert_entry hack ?i a k)" using k by simp
  moreover have "count_list (bucket_objs (insert_entry hack ?i a k)) a \<noteq> 0"
    using bucket_objs_insert [OF i(2), of hack a a] by simp
  then have "a \<in> set (bucket_objs (insert_entry hack ?i a k))" by (simp add: count_list_0_iff)
  ultimately have "0 < references [] ?h ?ext a" by (rule linked_alive [OF ok1])
  with ok1 obtain h' r where
    h': "ao2_ref ?h (Some a) 1 = Some (h', r)" "heap_ok h' (?ext(a := ?ext a + 1))" "container_at h' = container_at ?h"
    by (rule heap_ok_ref_up)
  moreover have "h a \<noteq> None" "h c \<noteq> None" using balanced_owned [OF heap_okD(1) [OF ok]] own by blast+
  ultimately show thesis
    using i pos own(2) k
    by (intro that [of h']) (auto simp: ao2_link_def INTERNAL_OBJ_def bucket_mod_def entry_bucket_def)
qed

text \<open>An object handed out by a search is one more reference for the client.\<close>

definition give :: "nat option \<Rightarrow> (nat \<Rightarrow> nat) \<Rightarrow> nat \<Rightarrow> nat" where
  "give ret ext = (case ret of None \<Rightarrow> ext | Some a \<Rightarrow> ext(a := ext a + 1))"

lemma give_simps [simp]: "give None ext = ext" "give (Some a) ext = ext(a := ext a + 1)"
  by (simp_all add: give_def)

lemma give_owned: "0 < ext c \<Longrightarrow> 0 < give ret ext c"
  by (simp add: give_def split: option.splits)

lemma remove_heap_ok:
  assumes ok: "heap_ok h ext" and own: "0 < ext c" and k: "container_at h c = Some k"
    and l: "i < length (buckets k)" "l \<in> set (buckets k ! i)"
  obtains h' r where "ao2_ref (put_container h c (remove_entry i l k)) (Some (bl_obj l)) (-1) = Some (h', r)"
    "heap_ok h' ext" "container_at h' c = Some (remove_entry i l k)" "same_data (put_container h c (remove_entry i l k)) h'"
proof -
  let ?a = "bl_obj l" and ?h = "put_container h c (remove_entry i l k)"
  let ?ext = "ext(?a := ext ?a + 1)"
  have "?ext b + count_list (bucket_objs (remove_entry i l k)) b = ext b + count_list (bucket_objs k) b" for b
    using bucket_objs_remove [OF l, of b] by (simp split: if_splits)
  then have "heap_ok ?h ?ext"
    by (rule heap_ok_put [OF ok k remove_entry_ok [OF heap_okD(2) [OF ok k] l]])
  then obtain h' r where h': "ao2_ref ?h (Some ?a) (- int 1) = Some (h', r)" "heap_ok h' (?ext(?a := ?ext ?a - 1))" "same_data ?h h'"
    by (rule heap_ok_ref_down [where k = 1 and a = ?a]) auto
  then have "heap_ok h' ext" by simp
  from container_owned [OF this own h'(3)] k h' this that show thesis by simp
qed

lemma match_entry_ok:
  assumes ok: "heap_ok h ext" and own: "0 < ext c" and k: "container_at h c = Some k"
    and l: "i < length (buckets k)" "l \<in> set (buckets k ! i)"
  obtains h' where
    "match_entry fl c i l None h = Some (h', if obj_nodata fl then None else Some (bl_obj l))"
    "heap_ok h' (give (if obj_nodata fl then None else Some (bl_obj l)) ext)"
    "container_at h' c = Some (if obj_unlink fl then remove_entry i l k else k)"
proof -
  let ?ret = "if obj_nodata fl then None else Some (bl_obj l)"
  have "bl_obj l \<in> set (bucket_objs k)" using l nth_mem [OF l(1)] unfolding bucket_objs_def by force
  then have live: "0 < references [] h ext (bl_obj l)" by (rule linked_alive [OF ok k])
  obtain h1 where h1: "(if obj_nodata fl then Some (h, None)
      else map_option (\<lambda>(h, _). (h, Some (bl_obj l))) (ao2_ref h (Some (bl_obj l)) 1)) = Some (h1, ?ret)"
    "heap_ok h1 (give ?ret ext)" "container_at h1 c = Some k"
  proof (cases "obj_nodata fl")
    case True
    with ok k show thesis by (intro that [of h]) simp_all
  next
    case False
    obtain h1 r where "ao2_ref h (Some (bl_obj l)) 1 = Some (h1, r)"
      "heap_ok h1 (ext(bl_obj l := ext (bl_obj l) + 1))" "container_at h1 = container_at h"
      using ok live by (rule heap_ok_ref_up)
    with False k show thesis by (intro that [of h1]) simp_all
  qed
  show thesis
  proof (cases "obj_unlink fl")
    case True
    obtain h' r where
      "ao2_ref (put_container h1 c (remove_entry i l k)) (Some (bl_obj l)) (-1) = Some (h', r)"
      "heap_ok h' (give ?ret ext)" "container_at h' c = Some (remove_entry i l k)"
      by (rule remove_heap_ok [OF h1(2) give_owned [of ext c ?ret, OF own] h1(3) l])
    with True h1 show thesis by (intro that [of h']) (simp_all add: match_entry_def)
  next
    case False
    with h1 show thesis by (intro that [of h1]) (simp_all add: match_entry_def)
  qed
qed

end
