(* ===== verification/Astobj2_Search.thy ===== *)
theory Astobj2_Search
  imports Astobj2
begin

text \<open>
  Searches of a container, \<open>ao2_callback\<close> and \<open>ao2_find\<close>: they end, keep the heap balanced, and find the first
  entry that matches in the order in which the buckets are visited.
\<close>

section \<open>Searches end\<close>

text \<open>A callback that never answers \<open>CMP_STOP\<close> without \<open>CMP_MATCH\<close>.\<close>

definition no_bare_stop :: "(nat \<Rightarrow> nat \<Rightarrow> cb_result) \<Rightarrow> nat \<Rightarrow> bool" where
  "no_bare_stop cb arg \<longleftrightarrow> (\<forall>x. cb x arg \<noteq> (False, True))"

lemma scan_bucket_ok:
  assumes "heap_ok h ext" "0 < ext c" "container_at h c = Some k" "i < length (buckets k)"
    "set ls \<subseteq> set (buckets k ! i)" "distinct ls" "obj_multiple fl \<longrightarrow> obj_nodata fl"
  shows "\<exists>h' ret stop k'. scan_bucket fl cb arg c i ls None h = Some (h', ret, stop) \<and>
    heap_ok h' (give ret ext) \<and> container_at h' c = Some k' \<and> same_shape k k' \<and> (ret \<noteq> None \<longrightarrow> stop) \<and>
    (stop \<and> \<not> obj_nodata fl \<and> no_bare_stop cb arg \<longrightarrow> ret \<noteq> None)"
  using assms
proof (induction ls arbitrary: h k)
  case Nil
  then show ?case by auto
next
  case (Cons l ls)
  obtain match stop where cb: "cb (bl_obj l) arg = (match, stop)" by (cases "cb (bl_obj l) arg")
  consider "\<not> match" "\<not> stop" | "\<not> match" stop | match by blast
  then show ?case
  proof cases
    case 1
    with Cons.IH [OF Cons.prems(1-4)] Cons.prems(5-7) cb show ?thesis by simp
  next
    case 2
    with Cons.prems cb show ?thesis
      by (intro exI [of _ h] exI [of _ None] exI [of _ True] exI [of _ k]) (auto simp: no_bare_stop_def)
  next
    case 3
    let ?ret = "if obj_nodata fl then None else Some (bl_obj l)" and ?k = "if obj_unlink fl then remove_entry i l k else k"
    have "l \<in> set (buckets k ! i)" using Cons.prems(5) by simp
    then obtain h1 where h1: "match_entry fl c i l None h = Some (h1, ?ret)" "heap_ok h1 (give ?ret ext)"
        "container_at h1 c = Some ?k"
      by (rule match_entry_ok [OF Cons.prems(1-4)])
    show ?thesis
    proof (cases "stop \<or> \<not> obj_multiple fl")
      case True
      with 3 cb h1 show ?thesis
        by (intro exI [of _ h1] exI [of _ ?ret] exI [of _ True] exI [of _ ?k]) auto
    next
      case False
      then have fl: "obj_nodata fl" "?ret = None" using Cons.prems(7) by auto
      have "x \<in> set (remove1 l (buckets k ! i))" if "x \<in> set ls" for x
        using that Cons.prems(5,6) by (subst in_set_remove1) auto
      then have "set ls \<subseteq> set (buckets ?k ! i)" "i < length (buckets ?k)"
        using Cons.prems(4,5) by (auto simp: remove_entry_def nth_list_update)
      note ls = this
      have "heap_ok h1 ext" "distinct ls" using h1(2) fl Cons.prems(6) by simp_all
      note IH = Cons.IH [OF this(1) Cons.prems(2) h1(3) ls(2,1) this(2) Cons.prems(7)]
      then obtain h' ret st k' where sc:
        "scan_bucket fl cb arg c i ls None h1 = Some (h', ret, st)" "heap_ok h' (give ret ext)"
        "container_at h' c = Some k'" "same_shape ?k k'" "ret \<noteq> None \<longrightarrow> st"
        by (elim exE conjE) (rule that)
      have "same_shape k k'" by (rule same_shape_trans [OF _ sc(4)]) simp
      moreover have "scan_bucket fl cb arg c i (l # ls) None h = Some (h', ret, st)"
        using 3 cb h1(1) False fl(2) sc(1) by simp
      ultimately show ?thesis using sc(2,3,5) fl(1) by blast
    qed
  qed
qed

text \<open>The searches that end: with \<open>OBJ_POINTER\<close> and \<open>OBJ_CONTINUE\<close> a stop without a result must not occur.\<close>

definition search_ends :: "search_flags \<Rightarrow> (nat \<Rightarrow> nat \<Rightarrow> cb_result) \<Rightarrow> nat \<Rightarrow> bool" where
  "search_ends fl cb arg \<longleftrightarrow>
     (obj_pointer fl \<and> obj_continue fl \<longrightarrow> \<not> obj_nodata fl \<and> no_bare_stop cb arg)"

lemma cont_ok_bucket_distinct:
  assumes "cont_ok k" "i < length (buckets k)"
  shows "distinct (buckets k ! i)"
proof -
  have "distinct (concat (buckets k))" using assms(1) by (auto simp: cont_ok_def distinct_map)
  then show ?thesis using concat_update(2) [OF assms(2)] by simp
qed

lemma callback_loop_ok:
  assumes "heap_ok h ext" "0 < ext c" "container_at h c = Some k" "0 \<le> i"
    and "obj_multiple fl \<longrightarrow> obj_nodata fl" "search_ends fl cb arg"
    and "obj_pointer fl \<and> obj_continue fl \<longrightarrow> 0 \<le> start \<and> start < n_buckets k \<and> (lst = start \<or> lst = n_buckets k)"
    and "lst \<le> n_buckets k"
  shows "\<exists>h' ret k'. callback_loop fl cb arg c start i lst h = Some (h', ret) \<and> heap_ok h' (give ret ext) \<and>
    container_at h' c = Some k' \<and> same_shape k k'"
  using assms
proof (induction "nat (lst - i) + (if lst = n_buckets k then 1 + nat (n_buckets k) else 0)" arbitrary: h i lst k rule: less_induct)
  case less
  show ?case
  proof (cases "i < lst")
    case False
    with less.prems show ?thesis by (subst callback_loop.simps) auto
  next
    case True
    have i: "i < n_buckets k" "nat i < length (buckets k)" using True less.prems(4,8) by (auto simp: n_buckets_def)
    have "distinct (buckets k ! nat i)"
      using cont_ok_bucket_distinct [OF heap_okD(2) [OF less.prems(1,3)] i(2)] .
    from scan_bucket_ok [OF less.prems(1-3) i(2) subset_refl this less.prems(5)] obtain h1 ret stop k1 where
      sc: "scan_bucket fl cb arg c (nat i) (buckets k ! nat i) None h = Some (h1, ret, stop)" "heap_ok h1 (give ret ext)"
        "container_at h1 c = Some k1" "same_shape k k1"
        "stop \<and> \<not> obj_nodata fl \<and> no_bare_stop cb arg \<longrightarrow> ret \<noteq> None" by blast
    have n: "n_buckets k1 = n_buckets k" using sc(4) by (simp add: same_shape_def n_buckets_def)
    let ?i = "if stop then lst else i" and ?wrap = "obj_pointer fl \<and> obj_continue fl"
    have loop: "callback_loop fl cb arg c start i lst h =
        (if ret \<noteq> None then Some (h1, ret)
         else if ?i = n_buckets k - 1 \<and> ?wrap then callback_loop fl cb arg c start 0 start h1
         else callback_loop fl cb arg c start (?i + 1) lst h1)"
      using True i(1) less.prems(3,4) sc(1) by (subst callback_loop.simps) (simp add: Let_def)
    show ?thesis
    proof (cases "ret = None")
      case False
      with loop sc show ?thesis by auto
    next
      case ret: True
      then have ok1: "heap_ok h1 ext" using sc(2) by simp
      have nostop: "\<not> stop" if ?wrap using that less.prems(6) sc(5) ret by (auto simp: search_ends_def)
      show ?thesis
      proof (cases "?i = n_buckets k - 1 \<and> ?wrap")
        case w: True
        then have "i = n_buckets k - 1" "start < n_buckets k" "0 \<le> start" using nostop less.prems(7) by auto
        moreover from this True less.prems(8) have "lst = n_buckets k" by simp
        ultimately obtain h' ret' k' where "callback_loop fl cb arg c start 0 start h1 = Some (h', ret')" "heap_ok h' (give ret' ext)"
            "container_at h' c = Some k'" "same_shape k1 k'"
          using n less.hyps [of start 0 k1, OF _ ok1 less.prems(2) sc(3) _ less.prems(5,6)] by fastforce
        with loop ret w same_shape_trans [OF sc(4)] show ?thesis by auto
      next
        case w: False
        have "nat (lst - (?i + 1)) < nat (lst - i)" using True by simp
        then have m: "nat (lst - (?i + 1)) + (if lst = n_buckets k1 then 1 + nat (n_buckets k1) else 0)
            < nat (lst - i) + (if lst = n_buckets k then 1 + nat (n_buckets k) else 0)" by (simp add: n)
        have bounds: "0 \<le> ?i + 1" "lst \<le> n_buckets k1"
          "?wrap \<longrightarrow> 0 \<le> start \<and> start < n_buckets k1 \<and> (lst = start \<or> lst = n_buckets k1)"
          using True less.prems(4,7,8) n by simp_all
        from less.hyps [OF m ok1 less.prems(2) sc(3) bounds(1) less.prems(5,6) bounds(3,2)]
        obtain h' ret' k' where "callback_loop fl cb arg c start (?i + 1) lst h1 = Some (h', ret')"
          "heap_ok h' (give ret' ext)" "container_at h' c = Some k'" "same_shape k1 k'" by blast
        with loop ret w same_shape_trans [OF sc(4)] show ?thesis by auto
      qed
    qed
  qed
qed

lemma bucket_mod_range: "bucket_mod i k = Some j \<Longrightarrow> j < n_buckets k"
proof -
  assume "bucket_mod i k = Some j"
  then have "j = i smod n_buckets k" "0 < n_buckets k" by (auto simp: bucket_mod_def n_buckets_def split: if_splits)
  moreover from this have "0 \<le> - i mod n_buckets k" by simp
  then have "- (- i mod n_buckets k) < n_buckets k" using \<open>0 < n_buckets k\<close> by linarith
  ultimately show ?thesis
    using smod_range [of i "n_buckets k"]
    by (cases "0 \<le> i") (auto simp: signed_modulo_int_def sgn_if split: if_splits)
qed

lemma callback_ok:
  assumes ok: "heap_ok h ext" and own: "0 < ext c" and k: "container_at h c = Some k"
    and fl: "search_ends fl (case cb of Some f \<Rightarrow> f | None \<Rightarrow> cb_true) arg" "obj_pointer fl \<longrightarrow> buckets k \<noteq> []"
  shows "\<exists>h' ret k'. ao2_callback h (Some c) fl cb arg = Some (h', ret) \<and> heap_ok h' (give ret ext) \<and>
    container_at h' c = Some k' \<and> same_shape k k'"
proof (cases "obj_multiple fl \<and> \<not> obj_nodata fl")
  case True
  obtain ob where "h c = Some ob" using k by (rule container_atE)
  with True ok k show ?thesis by (simp add: ao2_callback_def INTERNAL_OBJ_def)
next
  case False
  then have mult: "obj_multiple fl \<longrightarrow> obj_nodata fl" by blast
  obtain ob where ob: "h c = Some ob" using k by (rule container_atE)
  let ?cb = "case cb of Some f \<Rightarrow> f | None \<Rightarrow> cb_true"
  have "\<exists>i. (if obj_pointer fl then bucket_mod (hash_fn k arg) k else Some (-1)) = Some i \<and> i < n_buckets k"
  proof (cases "obj_pointer fl")
    case True
    then have "bucket_mod (hash_fn k arg) k \<noteq> None" using fl(2) by (simp add: bucket_mod_def n_buckets_def)
    with True bucket_mod_range show ?thesis by auto
  qed (simp add: n_buckets_def)
  then obtain i where i: "(if obj_pointer fl then bucket_mod (hash_fn k arg) k else Some (-1)) = Some i" "i < n_buckets k" by blast
  note loop = callback_loop_ok [OF ok own k _ mult fl(1)]
  consider "i < 0" | "0 \<le> i" "obj_continue fl" | "0 \<le> i" "\<not> obj_continue fl" by linarith
  then show ?thesis
  proof cases
    case 1
    moreover have "obj_pointer fl \<longrightarrow> 0 < n_buckets k" using fl(2) by (simp add: n_buckets_def)
    ultimately show ?thesis
      using False ob k i ok loop [of 0 0 "n_buckets k"] by (simp add: ao2_callback_def INTERNAL_OBJ_def)
  next
    case 2
    then show ?thesis
      using False ob k i ok loop [of i i "n_buckets k"] by (simp add: ao2_callback_def INTERNAL_OBJ_def)
  next
    case 3
    then show ?thesis
      using False ob k i ok loop [of i i "i + 1"] by (simp add: ao2_callback_def INTERNAL_OBJ_def)
  qed
qed

section \<open>What a search finds\<close>

definition first_match :: "(nat \<Rightarrow> nat \<Rightarrow> cb_result) \<Rightarrow> nat \<Rightarrow> bucket_list list \<Rightarrow> bucket_list option" where
  "first_match cb arg ls = find (\<lambda>l. cb (bl_obj l) arg \<noteq> (False, False)) ls"

text \<open>The entries in the order in which a search looks at them.\<close>

definition visited :: "ao2_container \<Rightarrow> search_flags \<Rightarrow> nat \<Rightarrow> bucket_list list" where
  "visited k fl arg =
     (let i = hash_fn k arg smod n_buckets k in
      if \<not> obj_pointer fl \<or> i < 0 then concat (buckets k)
      else if obj_continue fl then concat (drop (nat i) (buckets k)) @ concat (take (nat i) (buckets k))
      else buckets k ! nat i)"

text \<open>The outcome of a search that meets the entry \<open>m\<close> first.\<close>

definition search_result :: "search_flags \<Rightarrow> bucket_list option \<Rightarrow> nat option" where
  "search_result fl m = (if obj_nodata fl then None else map_option bl_obj m)"

definition after_search :: "search_flags \<Rightarrow> bucket_list option \<Rightarrow> ao2_container \<Rightarrow> ao2_container" where
  "after_search fl m k =
     (case m of
        Some l \<Rightarrow> if obj_unlink fl then remove_entry (nat (entry_bucket k (bl_obj l))) l k else k
      | None \<Rightarrow> k)"

definition search_done ::
    "search_flags \<Rightarrow> nat \<Rightarrow> (nat \<Rightarrow> nat) \<Rightarrow> ao2_container \<Rightarrow> bucket_list option \<Rightarrow> (ao2_heap \<times> nat option) option \<Rightarrow> bool" where
  "search_done fl c ext k m r \<longleftrightarrow>
     (\<exists>h'. r = Some (h', search_result fl m) \<and> heap_ok h' (give (search_result fl m) ext) \<and>
           container_at h' c = Some (after_search fl m k))"

lemma find_append: "find P (xs @ ys) = (case find P xs of Some x \<Rightarrow> Some x | None \<Rightarrow> find P ys)"
  by (induction xs) auto

lemma first_match_append:
  "first_match cb arg (xs @ ys) = (case first_match cb arg xs of Some x \<Rightarrow> Some x | None \<Rightarrow> first_match cb arg ys)"
  by (simp add: first_match_def find_append split: option.splits)

lemma first_match_in: "first_match cb arg ls = Some l \<Longrightarrow> l \<in> set ls"
  by (auto simp: first_match_def find_Some_iff)

lemma scan_bucket_first:
  assumes "\<not> obj_multiple fl" "no_bare_stop cb arg"
  shows "scan_bucket fl cb arg c i ls None h =
    (case first_match cb arg ls of
       None \<Rightarrow> Some (h, None, False)
     | Some l \<Rightarrow> map_option (\<lambda>(h, ret). (h, ret, True)) (match_entry fl c i l None h))"
proof (induction ls)
  case (Cons l ls)
  obtain match stop where "cb (bl_obj l) arg = (match, stop)" by (cases "cb (bl_obj l) arg")
  with Cons assms show ?case
    by (cases match; cases stop; cases "match_entry fl c i l None h") (auto simp: first_match_def no_bare_stop_def)
qed (simp add: first_match_def)

lemma scan_bucket_search:
  assumes ok: "heap_ok h ext" and own: "0 < ext c" and k: "container_at h c = Some k" and i: "i < length (buckets k)"
    and cb: "\<not> obj_multiple fl" "no_bare_stop cb arg"
    and m: "first_match cb arg (buckets k ! i) = Some l"
  obtains h' where "scan_bucket fl cb arg c i (buckets k ! i) None h = Some (h', search_result fl (Some l), True)"
    "search_done fl c ext k (Some l) (Some (h', search_result fl (Some l)))"
proof -
  have l: "l \<in> set (buckets k ! i)" using first_match_in [OF m] .
  then obtain h' where h': "match_entry fl c i l None h = Some (h', if obj_nodata fl then None else Some (bl_obj l))"
      "heap_ok h' (give (if obj_nodata fl then None else Some (bl_obj l)) ext)"
      "container_at h' c = Some (if obj_unlink fl then remove_entry i l k else k)"
    by (rule match_entry_ok [OF ok own k i])
  have "int i = entry_bucket k (bl_obj l)" using heap_okD(2) [OF ok k] i l by (simp add: cont_ok_def)
  then have "nat (entry_bucket k (bl_obj l)) = i" by simp
  with h' have "search_done fl c ext k (Some l) (Some (h', search_result fl (Some l)))"
    by (auto simp: search_done_def search_result_def after_search_def)
  moreover have "scan_bucket fl cb arg c i (buckets k ! i) None h = Some (h', search_result fl (Some l), True)"
    using h'(1) m by (simp add: scan_bucket_first [of fl cb arg, OF cb] search_result_def)
  ultimately show thesis using that by blast
qed

lemma callback_loop_end: "\<not> i < lst \<Longrightarrow> callback_loop fl cb arg c start i lst h = Some (h, None)"
  by (subst callback_loop.simps) simp

text \<open>One bucket of the outer loop.\<close>

lemma callback_loop_bucket:
  assumes ok: "heap_ok h ext" and own: "0 < ext c" and k: "container_at h c = Some k"
    and i: "0 \<le> i" "i < lst" "lst \<le> n_buckets k"
    and cb: "\<not> obj_multiple fl" "no_bare_stop cb arg" "obj_pointer fl \<and> obj_continue fl \<longrightarrow> \<not> obj_nodata fl"
  shows "case first_match cb arg (buckets k ! nat i) of
      Some l \<Rightarrow> search_done fl c ext k (Some l) (callback_loop fl cb arg c start i lst h)
    | None \<Rightarrow> callback_loop fl cb arg c start i lst h =
        (if i = n_buckets k - 1 \<and> obj_pointer fl \<and> obj_continue fl then callback_loop fl cb arg c start 0 start h
         else callback_loop fl cb arg c start (i + 1) lst h)"
proof (cases "first_match cb arg (buckets k ! nat i)")
  case None
  then show ?thesis
    using i k by (subst callback_loop.simps) (simp add: scan_bucket_first [of fl cb arg, OF cb(1,2)] n_buckets_def)
next
  case (Some l)
  have "nat i < length (buckets k)" using i by (simp add: n_buckets_def)
  then obtain h' where h': "scan_bucket fl cb arg c (nat i) (buckets k ! nat i) None h = Some (h', search_result fl (Some l), True)"
    "search_done fl c ext k (Some l) (Some (h', search_result fl (Some l)))"
    using scan_bucket_search [OF ok own k _ cb(1,2) Some] by blast
  have "callback_loop fl cb arg c start i lst h = Some (h', search_result fl (Some l))"
  proof (cases "obj_nodata fl")
    case True
    with cb(3) have "\<not> (obj_pointer fl \<and> obj_continue fl)" by blast
    with True i k h'(1) show ?thesis
      by (subst callback_loop.simps) (auto simp: search_result_def callback_loop_end n_buckets_def)
  next
    case False
    with i k h'(1) show ?thesis by (subst callback_loop.simps) (simp add: search_result_def n_buckets_def)
  qed
  with Some h'(2) show ?thesis by simp
qed

lemma search_done_append:
  assumes "case first_match cb arg xs of
      Some l \<Rightarrow> search_done fl c ext k (Some l) r | None \<Rightarrow> search_done fl c ext k (first_match cb arg ys) r"
  shows "search_done fl c ext k (first_match cb arg (xs @ ys)) r"
  using assms by (auto simp: first_match_append split: option.splits)

text \<open>A stretch of buckets that does not reach the turn.\<close>

lemma callback_loop_stretch:
  assumes ok: "heap_ok h ext" "0 < ext c" "container_at h c = Some k"
    and cb: "\<not> obj_multiple fl" "no_bare_stop cb arg" "obj_pointer fl \<and> obj_continue fl \<longrightarrow> \<not> obj_nodata fl"
    and "0 \<le> i" "i \<le> lst" "lst \<le> n_buckets k" "obj_pointer fl \<and> obj_continue fl \<longrightarrow> lst < n_buckets k"
  shows "search_done fl c ext k (first_match cb arg (concat (take (nat (lst - i)) (drop (nat i) (buckets k)))))
    (callback_loop fl cb arg c start i lst h)"
  using assms(7-10)
proof (induction "nat (lst - i)" arbitrary: i)
  case 0
  then show ?case
    using ok by (simp add: callback_loop_end first_match_def search_done_def search_result_def after_search_def)
next
  case (Suc n)
  then have i: "i < lst" "nat i < length (buckets k)" by (auto simp: n_buckets_def)
  have "nat (lst - i) = Suc (nat (lst - (i + 1)))" "nat (i + 1) = Suc (nat i)" using i(1) Suc.prems(1) by auto
  then have split: "concat (take (nat (lst - i)) (drop (nat i) (buckets k))) =
      buckets k ! nat i @ concat (take (nat (lst - (i + 1))) (drop (nat (i + 1)) (buckets k)))"
    using Cons_nth_drop_Suc [OF i(2), symmetric] by simp
  have IH: "search_done fl c ext k (first_match cb arg (concat (take (nat (lst - (i + 1))) (drop (nat (i + 1)) (buckets k)))))
      (callback_loop fl cb arg c start (i + 1) lst h)"
    using Suc.prems Suc.hyps(2) i(1) by (intro Suc.hyps(1)) auto
  have "\<not> (i = n_buckets k - 1 \<and> obj_pointer fl \<and> obj_continue fl)" using Suc.prems(4) i(1) by auto
  then show ?case
    unfolding split using IH callback_loop_bucket [OF ok Suc.prems(1) i(1) Suc.prems(3) cb, of start]
    by (intro search_done_append) (auto split: option.splits)
qed

lemma callback_loop_wrap:
  assumes ok: "heap_ok h ext" "0 < ext c" "container_at h c = Some k"
    and cb: "\<not> obj_multiple fl" "no_bare_stop cb arg" "\<not> obj_nodata fl"
    and wrap: "obj_pointer fl" "obj_continue fl" "0 \<le> start" "start < n_buckets k"
    and "0 \<le> i" "i < n_buckets k"
  shows "search_done fl c ext k (first_match cb arg (concat (drop (nat i) (buckets k)) @ concat (take (nat start) (buckets k))))
    (callback_loop fl cb arg c start i (n_buckets k) h)"
  using assms(11,12)
proof (induction "nat (n_buckets k - i)" arbitrary: i)
  case (Suc n)
  have i: "nat i < length (buckets k)" using Suc.prems by (auto simp: n_buckets_def)
  have split: "concat (drop (nat i) (buckets k)) = buckets k ! nat i @ concat (drop (nat (i + 1)) (buckets k))"
    using Cons_nth_drop_Suc [OF i, symmetric] Suc.prems(1) by (simp add: nat_add_distrib)
  have cb3: "obj_pointer fl \<and> obj_continue fl \<longrightarrow> \<not> obj_nodata fl" using cb(3) by simp
  note bucket = callback_loop_bucket [OF ok Suc.prems order_refl cb(1,2) cb3, of start]
  show ?case
  proof (cases "i = n_buckets k - 1")
    case True
    have "search_done fl c ext k (first_match cb arg (concat (take (nat (start - 0)) (drop (nat 0) (buckets k)))))
        (callback_loop fl cb arg c start 0 start h)"
      using wrap by (intro callback_loop_stretch [OF ok cb(1,2) cb3]) auto
    moreover have "drop (nat (i + 1)) (buckets k) = []" using True by (simp add: n_buckets_def)
    ultimately show ?thesis
      unfolding split append_assoc using bucket True wrap by (intro search_done_append) (simp split: option.splits)
  next
    case False
    then have "search_done fl c ext k (first_match cb arg (concat (drop (nat (i + 1)) (buckets k)) @ concat (take (nat start) (buckets k))))
        (callback_loop fl cb arg c start (i + 1) (n_buckets k) h)"
      using Suc.prems Suc.hyps(2) by (intro Suc.hyps(1)) auto
    then show ?thesis
      unfolding split append_assoc using bucket False by (intro search_done_append) (simp split: option.splits)
  qed
qed simp

lemma take_all_buckets: "take (nat (n_buckets k)) (buckets k) = buckets k" "0 \<le> n_buckets k"
  by (simp_all add: n_buckets_def)

lemma callback_search:
  assumes ok: "heap_ok h ext" "0 < ext c" and k: "container_at h c = Some k"
    and fl: "\<not> obj_multiple fl" "obj_pointer fl \<and> obj_continue fl \<longrightarrow> \<not> obj_nodata fl" "obj_pointer fl \<longrightarrow> buckets k \<noteq> []"
    and cb: "no_bare_stop cb arg"
  shows "search_done fl c ext k (first_match cb arg (visited k fl arg)) (ao2_callback h (Some c) fl (Some cb) arg)"
proof -
  obtain ob where ob: "h c = Some ob" using k by (rule container_atE)
  define i where "i = hash_fn k arg smod n_buckets k"
  note loop = callback_loop_stretch [OF ok k fl(1) cb fl(2)]
  have n: "obj_pointer fl \<Longrightarrow> bucket_mod (hash_fn k arg) k = Some i" "obj_pointer fl \<Longrightarrow> 0 < n_buckets k"
    using fl(3) by (auto simp: bucket_mod_def i_def n_buckets_def)
  have lt: "i < n_buckets k" if "obj_pointer fl" using bucket_mod_range [OF n(1) [OF that]] .
  consider "\<not> obj_pointer fl" | "obj_pointer fl" "i < 0" "\<not> obj_continue fl" | "obj_pointer fl" "i < 0" "obj_continue fl"
    | "obj_pointer fl" "0 \<le> i" "obj_continue fl" | "obj_pointer fl" "0 \<le> i" "\<not> obj_continue fl" by linarith
  then show ?thesis
  proof cases
    case 3
    with callback_loop_wrap [OF ok k fl(1) cb _ _ _ _ _ order_refl, of 0] fl lt n ob k show ?thesis
      by (simp add: ao2_callback_def INTERNAL_OBJ_def visited_def Let_def take_all_buckets flip: i_def)
  next
    case 4
    with callback_loop_wrap [OF ok k fl(1) cb _ _ _ _ lt, of i] fl lt n ob k show ?thesis
      by (simp add: ao2_callback_def INTERNAL_OBJ_def visited_def Let_def take_all_buckets flip: i_def)
  next
    case 5
    then have "nat i < length (buckets k)" "i + 1 \<le> n_buckets k" using lt by (auto simp: n_buckets_def)
    with 5 loop [of i "i + 1" i] fl n ob k show ?thesis
      by (simp add: ao2_callback_def INTERNAL_OBJ_def visited_def Let_def take_Suc_conv_app_nth hd_drop_conv_nth take_Suc flip: i_def)
  qed (use loop [of 0 "n_buckets k" 0] fl n ob k in \<open>simp add: ao2_callback_def INTERNAL_OBJ_def visited_def Let_def take_all_buckets flip: i_def\<close>)+
qed

end
