(* ===== verification/Astobj2_Clients.thy ===== *)
theory Astobj2_Clients
  imports Astobj2_Search
begin

text \<open>
  Clients of reference-counted objects: sequences of calls by owners of references, the invariant of the
  heap they reach, and what follows from it: no use after free, no leak, complete searches.
\<close>

section \<open>Clients\<close>

text \<open>
  The calls of a client, with the references it owns. \<open>Op_hold a b\<close> stores a reference to \<open>b\<close> in the user
  data of \<open>a\<close>, whose destructor will drop it. \<open>ao2_exec\<close> gives the new heap and the object to which the
  client gets a reference, \<open>ao2_own\<close> the references that remain to it, and \<open>ao2_legal\<close> what is asked of it: it
  passes only objects it owns a reference to.
\<close>

datatype ao2_op =
    Op_alloc "nat option"
  | Op_container "nat option" nat "(nat \<Rightarrow> int) option" "(nat \<Rightarrow> nat \<Rightarrow> cb_result) option"
  | Op_hold nat nat
  | Op_ref nat int
  | Op_link nat nat bool bool
  | Op_unlink nat nat
  | Op_callback nat search_flags "(nat \<Rightarrow> nat \<Rightarrow> cb_result) option" nat
  | Op_find nat nat search_flags
  | Op_iter_init nat
  | Op_iter_destroy nat
  | Op_next ao2_iterator

definition hold_ref :: "nat \<Rightarrow> nat \<Rightarrow> ao2_heap \<Rightarrow> ao2_heap option" where
  "hold_ref a b h =
     do { ob \<leftarrow> h a;
          case ao2_data ob of
            User_data hs \<Rightarrow> Some (h(a \<mapsto> ob\<lparr> ao2_data := User_data (b # hs) \<rparr>))
          | Container_data k \<Rightarrow> None }"

fun ao2_exec :: "ao2_op \<Rightarrow> ao2_heap \<Rightarrow> (ao2_heap \<times> nat option) option" where
  "ao2_exec (Op_alloc mem) h = Some (ao2_alloc h mem (User_data []))"
| "ao2_exec (Op_container mem n hash cmp) h = Some (ao2_container_alloc h mem n hash cmp)"
| "ao2_exec (Op_hold a b) h = map_option (\<lambda>h. (h, None)) (hold_ref a b h)"
| "ao2_exec (Op_ref a d) h = map_option (\<lambda>(h, _). (h, None)) (ao2_ref h (Some a) d)"
| "ao2_exec (Op_link c a alloc hack) h = map_option (\<lambda>(h, _). (h, None)) (ao2_link h alloc (Some c) (Some a) hack)"
| "ao2_exec (Op_unlink c a) h = map_option (\<lambda>h. (h, None)) (ao2_unlink h (Some c) (Some a))"
| "ao2_exec (Op_callback c fl cb arg) h = ao2_callback h (Some c) fl cb arg"
| "ao2_exec (Op_find c arg fl) h = ao2_find h (Some c) arg fl"
| "ao2_exec (Op_iter_init c) h = map_option (\<lambda>(h, _). (h, None)) (ao2_iterator_init h c)"
| "ao2_exec (Op_iter_destroy c) h =
     map_option (\<lambda>(h, _). (h, None))
       (ao2_iterator_destroy h \<lparr> it_c = Some c, it_bucket = 0, it_c_version = 0, it_obj = None, it_version = 0 \<rparr>)"
| "ao2_exec (Op_next it) h = map_option (\<lambda>(h, _, ret). (h, ret)) (ao2_iterator_next h it)"

fun ao2_own :: "ao2_op \<Rightarrow> (nat \<Rightarrow> nat) \<Rightarrow> nat \<Rightarrow> nat" where
  "ao2_own (Op_hold a b) ext = ext(b := ext b - 1)"
| "ao2_own (Op_ref a d) ext = ext(a := nat (int (ext a) + d))"
| "ao2_own (Op_iter_init c) ext = ext(c := ext c + 1)"
| "ao2_own (Op_iter_destroy c) ext = ext(c := ext c - 1)"
| "ao2_own _ ext = ext"

definition iter_at :: "ao2_container \<Rightarrow> ao2_iterator \<Rightarrow> bool" where
  "iter_at k it \<longleftrightarrow>
     (\<forall>v. it_obj it = Some v \<and> c_version k = it_c_version it \<longrightarrow>
          it_bucket it < length (buckets k) \<and> v \<in> bl_version ` set (buckets k ! it_bucket it))"

definition owned_container :: "nat \<Rightarrow> ao2_heap \<Rightarrow> (nat \<Rightarrow> nat) \<Rightarrow> (ao2_container \<Rightarrow> bool) \<Rightarrow> bool" where
  "owned_container c h ext P \<longleftrightarrow> 0 < ext c \<and> (case container_at h c of None \<Rightarrow> False | Some k \<Rightarrow> P k)"

fun ao2_legal :: "ao2_op \<Rightarrow> ao2_heap \<Rightarrow> (nat \<Rightarrow> nat) \<Rightarrow> bool" where
  "ao2_legal (Op_alloc mem) h ext = (case mem of None \<Rightarrow> True | Some a \<Rightarrow> h a = None)"
| "ao2_legal (Op_container mem n hash cmp) h ext = (case mem of None \<Rightarrow> True | Some a \<Rightarrow> h a = None)"
| "ao2_legal (Op_hold a b) h ext = (0 < ext a \<and> 0 < ext b \<and> container_at h a = None)"
| "ao2_legal (Op_ref a d) h ext = (0 < ext a \<and> 0 \<le> int (ext a) + d)"
| "ao2_legal (Op_link c a alloc hack) h ext =
     (0 < ext a \<and> owned_container c h ext (\<lambda>k. buckets k \<noteq> [] \<and> 0 \<le> c_abs (hash_fn k a)))"
| "ao2_legal (Op_unlink c a) h ext = (0 < ext a \<and> owned_container c h ext (\<lambda>k. buckets k \<noteq> []))"
| "ao2_legal (Op_callback c fl cb arg) h ext =
     owned_container c h ext (\<lambda>k. search_ends fl (case cb of Some f \<Rightarrow> f | None \<Rightarrow> cb_true) arg \<and>
       (obj_pointer fl \<longrightarrow> buckets k \<noteq> []))"
| "ao2_legal (Op_find c arg fl) h ext =
     owned_container c h ext (\<lambda>k. search_ends fl (case cmp_fn k of Some f \<Rightarrow> f | None \<Rightarrow> cb_true) arg \<and>
       (obj_pointer fl \<longrightarrow> buckets k \<noteq> []))"
| "ao2_legal (Op_iter_init c) h ext = (0 < ext c)"
| "ao2_legal (Op_iter_destroy c) h ext = (0 < ext c)"
| "ao2_legal (Op_next it) h ext = (case it_c it of None \<Rightarrow> True | Some c \<Rightarrow> owned_container c h ext (\<lambda>k. iter_at k it))"

inductive ao2_reach :: "ao2_heap \<Rightarrow> (nat \<Rightarrow> nat) \<Rightarrow> bool" where
  reach_start: "ao2_reach Map.empty (\<lambda>_. 0)"
| reach_step: "ao2_reach h ext \<Longrightarrow> ao2_legal op h ext \<Longrightarrow> ao2_exec op h = Some (h', ret) \<Longrightarrow>
    ao2_reach h' (give ret (ao2_own op ext))"

lemma alloc_heap_ok:
  assumes ok: "heap_ok h ext" and fresh: "h a = None"
    and d: "case d of User_data hs \<Rightarrow> hs = [] | Container_data k \<Rightarrow> cont_ok k \<and> concat (buckets k) = []"
  shows "heap_ok (h(a \<mapsto> \<lparr> ref_counter = 1, ao2_data = d \<rparr>)) (ext(a := ext a + 1))"
proof -
  let ?ob = "\<lparr> ref_counter = 1, ao2_data = d \<rparr>"
  let ?h = "h(a \<mapsto> ?ob)"
  have bal: "balanced_with [] h ext" using heap_okD(1) [OF ok] by (simp add: balanced_def)
  have "targets ?ob = []" using d by (auto simp: targets_def bucket_objs_def split: ao2_data.splits)
  moreover have "finite (dom ?h)" using balanced_withD(1) [OF bal] by simp
  moreover from this have "heap_refs ?h {} b = count_list (targets ?ob) b + heap_refs ?h {a} b" for b
    by (rule heap_refs_remove) auto
  moreover have "heap_refs ?h {a} b = heap_refs h {} b" for b
    using fresh by (intro heap_refs_cong) auto
  ultimately have r: "references [] ?h (ext(a := ext a + 1)) b = references [] h ext b + (if b = a then 1 else 0)" for b
    by (simp add: references_def)
  have "entry_ok (?h b) False (references [] ?h (ext(a := ext a + 1)) b)" for b
    unfolding r using balanced_withD(3) [OF bal, of b] fresh by (cases "b = a") simp_all
  then have "balanced ?h (ext(a := ext a + 1))"
    using \<open>finite (dom ?h)\<close> by (simp add: balanced_def balanced_with_def)
  moreover have "cont_ok k" if "container_at ?h c = Some k" for c k
    using that d heap_okD(2) [OF ok, of c k] by (cases "c = a") (auto simp: container_at_def split: ao2_data.splits)
  ultimately show ?thesis by (simp add: heap_ok_def)
qed

lemma new_container_ok:
  "cont_ok \<lparr> hash_fn = f, cmp_fn = g, c_elements = 0, c_version = 1, buckets = replicate n [] \<rparr>"
  by (simp add: cont_ok_def)

lemma hold_heap_ok:
  assumes ok: "heap_ok h ext" and own: "0 < ext a" "0 < ext b" and user: "container_at h a = None"
  obtains h' where "hold_ref a b h = Some h'" "heap_ok h' (ext(b := ext b - 1))"
proof -
  have bal: "balanced_with [] h ext" using heap_okD(1) [OF ok] by (simp add: balanced_def)
  obtain ob where ob: "h a = Some ob" using balanced_owned [OF heap_okD(1) [OF ok] own(1)] by blast
  obtain hs where hs: "ao2_data ob = User_data hs" using user ob by (cases "ao2_data ob") (auto simp: container_at_def)
  define ob' where "ob' = ob\<lparr> ao2_data := User_data (b # hs) \<rparr>"
  let ?h = "h(a \<mapsto> ob')" and ?ext = "ext(b := ext b - 1)"
  have fin: "finite (dom h)" by (rule balanced_withD(1) [OF bal])
  have "heap_refs ?h {} c = count_list (targets ob') c + heap_refs ?h {a} c"
    "heap_refs h {} c = count_list (targets ob) c + heap_refs h {a} c" "heap_refs ?h {a} c = heap_refs h {a} c" for c
    using fin ob heap_refs_remove [of ?h a ob' "{}" c] heap_refs_remove [of h a ob "{}" c] heap_refs_cong [of ?h "{a}" h "{a}" c]
    by auto
  moreover have "targets ob' = b # targets ob" by (simp add: ob'_def targets_def hs)
  ultimately have r: "references [] ?h ?ext c = references [] h ext c" for c
    using own(2) by (auto simp: references_def)
  have "entry_ok (?h c) False (references [] ?h ?ext c)" for c
    unfolding r using balanced_withD(3) [OF bal, of c] ob by (cases "c = a") (simp_all add: ob'_def)
  then have "balanced ?h ?ext" using fin by (simp add: balanced_def balanced_with_def)
  moreover have "cont_ok k" if "container_at ?h c = Some k" for c k
    using that heap_okD(2) [OF ok, of c k] by (cases "c = a") (auto simp: container_at_def ob'_def)
  ultimately have "heap_ok ?h ?ext" by (simp add: heap_ok_def)
  moreover have "hold_ref a b h = Some ?h" by (simp add: hold_ref_def ob hs ob'_def)
  ultimately show thesis using that by blast
qed

lemma owned_containerE:
  assumes "owned_container c h ext P"
  obtains k where "0 < ext c" "container_at h c = Some k" "P k"
proof (cases "container_at h c")
  case None
  with assms show thesis by (simp add: owned_container_def)
next
  case (Some k)
  with assms have P: "0 < ext c" "P k" by (simp_all add: owned_container_def)
  from P(1) Some P(2) show thesis by (rule that)
qed

lemma list_next_in: "v \<in> bl_version ` set ls \<Longrightarrow> \<exists>nxt. list_next v ls = Some nxt \<and> set_option nxt \<subseteq> set ls"
proof (induction v ls rule: list_next.induct)
  case (2 v l ls)
  show ?case
  proof (cases "bl_version l = v")
    case True
    then show ?thesis by (cases ls) auto
  next
    case False
    then obtain nxt where "list_next v ls = Some nxt" "set_option nxt \<subseteq> set ls" using 2 by auto
    with False show ?thesis by auto
  qed
qed simp

lemma scan_from_in: "scan_from v b bs = (b', v', p) \<Longrightarrow> set_option p \<subseteq> set (concat bs)"
  by (induction v b bs rule: scan_from.induct) (auto split: option.splits simp: find_Some_iff)

lemma follow_obj_total:
  assumes "iter_at k it"
  shows "\<exists>it' p. follow_obj k it = Some (it', p) \<and> set_option p \<subseteq> set (concat (buckets k))"
proof (cases "\<exists>v. it_obj it = Some v \<and> c_version k = it_c_version it")
  case True
  then obtain v where v: "it_obj it = Some v" "c_version k = it_c_version it" by blast
  with assms have b: "it_bucket it < length (buckets k)" "v \<in> bl_version ` set (buckets k ! it_bucket it)"
    by (auto simp: iter_at_def)
  from list_next_in [OF b(2)] obtain nxt where
    "list_next v (buckets k ! it_bucket it) = Some nxt" "set_option nxt \<subseteq> set (buckets k ! it_bucket it)" by blast
  moreover have "set (buckets k ! it_bucket it) \<subseteq> set (concat (buckets k))" using nth_mem [OF b(1)] by auto
  ultimately show ?thesis using v b(1) by (simp add: follow_obj_def)
next
  case False
  then have "follow_obj k it = Some (it, None)" by (cases "it_obj it") (simp_all add: follow_obj_def)
  then show ?thesis by simp
qed

lemma iterator_advance_total:
  assumes "iter_at k it"
  shows "\<exists>it' p. iterator_advance k it = Some (it', p) \<and> set_option p \<subseteq> set (concat (buckets k))"
proof -
  obtain it1 p1 where f: "follow_obj k it = Some (it1, p1)" "set_option p1 \<subseteq> set (concat (buckets k))"
    using follow_obj_total [OF assms] by blast
  obtain b v p where sc: "scan_from (it_version it1) (it_bucket it1) (drop (it_bucket it1) (buckets k)) = (b, v, p)"
    by (metis prod_cases3)
  have "set (concat (drop (it_bucket it1) (buckets k))) \<subseteq> set (concat (buckets k))" by (auto dest: in_set_dropD)
  with scan_from_in [OF sc] have "set_option p \<subseteq> set (concat (buckets k))" by blast
  with f sc show ?thesis by (cases p1; cases p) (simp_all add: iterator_advance_def)
qed

lemma next_heap_ok:
  assumes ok: "heap_ok h ext" and legal: "ao2_legal (Op_next it) h ext"
  obtains h' it' ret where "ao2_iterator_next h it = Some (h', it', ret)" "heap_ok h' (give ret ext)"
proof (cases "it_c it")
  case None
  then show thesis using that ok by (simp add: ao2_iterator_next_def INTERNAL_OBJ_def)
next
  case (Some c)
  with legal obtain k where k: "0 < ext c" "container_at h c = Some k" "iter_at k it"
    by (auto elim: owned_containerE)
  obtain ob where ob: "h c = Some ob" using k(2) by (rule container_atE)
  obtain it' p where p: "iterator_advance k it = Some (it', p)" "set_option p \<subseteq> set (concat (buckets k))"
    using iterator_advance_total [OF k(3)] by blast
  show thesis
  proof (cases p)
    case None
    with that ok p(1) Some k(2) ob show thesis by (simp add: ao2_iterator_next_def INTERNAL_OBJ_def)
  next
    case p': (Some l)
    then have "bl_obj l \<in> set (bucket_objs k)" using p(2) by (simp add: bucket_objs_def)
    then have "0 < references [] h ext (bl_obj l)" by (rule linked_alive [OF ok k(2)])
    with ok obtain h' r where "ao2_ref h (Some (bl_obj l)) 1 = Some (h', r)" "heap_ok h' (ext(bl_obj l := ext (bl_obj l) + 1))"
      by (rule heap_ok_ref_up)
    with that [of h' it' "Some (bl_obj l)"] p(1) p' Some k(2) ob show thesis
      by (simp add: ao2_iterator_next_def INTERNAL_OBJ_def)
  qed
qed

lemma ref_heap_ok:
  assumes ok: "heap_ok h ext" and own: "0 < ext a" "0 \<le> int (ext a) + d"
  obtains h' r where "ao2_ref h (Some a) d = Some (h', r)" "heap_ok h' (ext(a := nat (int (ext a) + d)))"
proof -
  obtain ob where ob: "h a = Some ob" using balanced_owned [OF heap_okD(1) [OF ok] own(1)] by blast
  consider "d = 0" | "0 < d" | "d < 0" by linarith
  then show thesis
  proof cases
    case 1
    with that ok ob show thesis by (simp add: ao2_ref_def INTERNAL_OBJ_def)
  next
    case 2
    then have d: "d = int (nat d)" "0 < nat d" by simp_all
    have "container_at (h(a \<mapsto> ob\<lparr> ref_counter := ref_counter ob + int (nat d) \<rparr>)) = container_at h"
      by (simp add: fun_eq_iff container_at_counter ob)
    then have "heap_ok (h(a \<mapsto> ob\<lparr> ref_counter := ref_counter ob + int (nat d) \<rparr>)) (ext(a := ext a + nat d))"
      using ao2_ref_up(2) [OF heap_okD(1) [OF ok] ob d(2)] ok by (simp add: heap_ok_def)
    moreover have "ext a + nat d = nat (int (ext a) + d)" using 2 by simp
    ultimately show thesis using that ao2_ref_up(1) [OF heap_okD(1) [OF ok] ob d(2)] d(1) by metis
  next
    case 3
    then have d: "d = - int (nat (- d))" "0 < nat (- d)" "nat (- d) \<le> ext a" using own by simp_all
    from ok d(2,3) obtain h' r where "ao2_ref h (Some a) (- int (nat (- d))) = Some (h', r)" "heap_ok h' (ext(a := ext a - nat (- d)))"
      by (rule heap_ok_ref_down)
    moreover have "ext a - nat (- d) = nat (int (ext a) + d)" using 3 by simp
    ultimately show thesis using that d(1) by metis
  qed
qed

lemma exec_heap_ok:
  assumes ok: "heap_ok h ext" and legal: "ao2_legal op h ext"
  shows "\<exists>h' ret. ao2_exec op h = Some (h', ret) \<and> heap_ok h' (give ret (ao2_own op ext))"
proof (cases op)
  case (Op_alloc mem)
  with ok legal alloc_heap_ok [OF ok, of _ "User_data []"] show ?thesis
    by (cases mem) (auto simp: ao2_alloc_def)
next
  case (Op_container mem n hash cmp)
  with ok legal alloc_heap_ok [OF ok, of _ "Container_data _"] new_container_ok show ?thesis
    by (cases mem) (auto simp: ao2_alloc_def ao2_container_alloc_def)
next
  case (Op_hold a b)
  with legal have "0 < ext a" "0 < ext b" "container_at h a = None" by simp_all
  with ok obtain h' where "hold_ref a b h = Some h'" "heap_ok h' (ext(b := ext b - 1))" by (rule hold_heap_ok)
  with Op_hold show ?thesis by simp
next
  case (Op_ref a d)
  with legal have "0 < ext a" "0 \<le> int (ext a) + d" by simp_all
  with ok obtain h' r where "ao2_ref h (Some a) d = Some (h', r)" "heap_ok h' (ext(a := nat (int (ext a) + d)))"
    by (rule ref_heap_ok)
  with Op_ref show ?thesis by simp
next
  case (Op_link c a alloc hack)
  with legal obtain k where k: "0 < ext c" "0 < ext a" "container_at h c = Some k" "buckets k \<noteq> []" "0 \<le> c_abs (hash_fn k a)"
    by (auto elim: owned_containerE)
  show ?thesis
  proof (cases alloc)
    case True
    obtain h' where "ao2_link h True (Some c) (Some a) hack = Some (h', True)" "heap_ok h' ext"
      using ok k by (rule link_heap_ok)
    with True Op_link show ?thesis by simp
  next
    case False
    have "h a \<noteq> None" "h c \<noteq> None" using balanced_owned [OF heap_okD(1) [OF ok]] k by blast+
    with False Op_link ok show ?thesis by (auto simp: ao2_link_def INTERNAL_OBJ_def)
  qed
next
  case (Op_unlink c a)
  with legal obtain k where k: "0 < ext c" "0 < ext a" "container_at h c = Some k" "buckets k \<noteq> []"
    by (auto elim: owned_containerE)
  let ?fl = "\<lparr> obj_unlink = True, obj_nodata = True, obj_multiple = False, obj_pointer = True, obj_continue = False \<rparr>"
  have "search_done ?fl c ext k (first_match ao2_match_by_addr a (visited k ?fl a)) (ao2_callback h (Some c) ?fl (Some ao2_match_by_addr) a)"
    using k(4) by (intro callback_search [OF ok k(1,3)]) (auto simp: no_bare_stop_def ao2_match_by_addr_def)
  moreover have "h a \<noteq> None" using balanced_owned [OF heap_okD(1) [OF ok]] k by blast
  ultimately show ?thesis
    using Op_unlink by (auto simp: search_done_def search_result_def ao2_unlink_def INTERNAL_OBJ_def)
next
  case (Op_callback c fl cb arg)
  with legal obtain k where "0 < ext c" "container_at h c = Some k"
    "search_ends fl (case cb of Some f \<Rightarrow> f | None \<Rightarrow> cb_true) arg" "obj_pointer fl \<longrightarrow> buckets k \<noteq> []"
    by (auto elim: owned_containerE)
  from callback_ok [OF ok this] Op_callback show ?thesis by auto
next
  case (Op_find c arg fl)
  with legal obtain k where k: "0 < ext c" "container_at h c = Some k"
    "search_ends fl (case cmp_fn k of Some f \<Rightarrow> f | None \<Rightarrow> cb_true) arg" "obj_pointer fl \<longrightarrow> buckets k \<noteq> []"
    by (auto elim: owned_containerE)
  from callback_ok [OF ok this] Op_find k(2) show ?thesis by (auto simp: ao2_find_def)
next
  case (Op_iter_init c)
  with legal have "0 < ext c" "0 \<le> int (ext c) + 1" by simp_all
  with ok obtain h' r where "ao2_ref h (Some c) 1 = Some (h', r)" "heap_ok h' (ext(c := nat (int (ext c) + 1)))"
    by (rule ref_heap_ok)
  with Op_iter_init show ?thesis by (simp add: ao2_iterator_init_def nat_add_distrib)
next
  case (Op_iter_destroy c)
  with legal have "0 < ext c" "0 \<le> int (ext c) + - 1" by simp_all
  with ok obtain h' r where "ao2_ref h (Some c) (- 1) = Some (h', r)" "heap_ok h' (ext(c := nat (int (ext c) + - 1)))"
    by (rule ref_heap_ok)
  moreover have "nat (int (ext c) + - 1) = ext c - 1" by simp
  ultimately show ?thesis using Op_iter_destroy by (simp add: ao2_iterator_destroy_def)
next
  case (Op_next it)
  with legal have "ao2_legal (Op_next it) h ext" by simp
  with ok obtain h' it' ret where "ao2_iterator_next h it = Some (h', it', ret)" "heap_ok h' (give ret ext)"
    by (rule next_heap_ok)
  with Op_next show ?thesis by simp
qed

section \<open>Properties\<close>

lemma ao2_reach_ok: "ao2_reach h ext \<Longrightarrow> heap_ok h ext"
proof (induction rule: ao2_reach.induct)
  case reach_start
  then show ?case
    by (simp add: heap_ok_def balanced_def balanced_with_def references_def heap_refs_def container_at_def)
next
  case (reach_step h ext op h' ret)
  with exec_heap_ok [OF reach_step.IH reach_step.hyps(2)] show ?case by auto
qed

text \<open>
  C4. Over any calls of clients that pass only objects they own a reference to, no freed object is ever
  touched: every legal call returns. Left out by \<open>ao2_legal\<close> are the calls that the code does not
  survive for other reasons: a link or a search by pointer in a container without buckets, a link with a
  hash value whose absolute value overflows, a search that spins, and an iterator whose place its
  container does not have. A live object has a positive count, the number of references clients
  and live objects have to it; an object that is not live is referred to by nothing. The counters,
  version numbers and buckets of every container are right.
\<close>

theorem ao2_reference_counts:
  assumes "ao2_reach h ext"
  shows "(\<forall>a. case h a of
        Some ob \<Rightarrow> ref_counter ob = int (ext a + heap_refs h {} a) \<and> 0 < ref_counter ob
      | None \<Rightarrow> ext a = 0 \<and> heap_refs h {} a = 0) \<and>
    (\<forall>c k. container_at h c = Some k \<longrightarrow> cont_ok k) \<and>
    (\<forall>op. ao2_legal op h ext \<longrightarrow> ao2_exec op h \<noteq> None)"
proof (intro conjI allI impI)
  note ok = ao2_reach_ok [OF assms]
  show "case h a of
      Some ob \<Rightarrow> ref_counter ob = int (ext a + heap_refs h {} a) \<and> 0 < ref_counter ob
    | None \<Rightarrow> ext a = 0 \<and> heap_refs h {} a = 0" for a
    using balanced_withD(3) [of "[]" h ext a] heap_okD(1) [OF ok]
    by (cases "h a") (auto simp: balanced_def references_def)
  show "container_at h c = Some k \<Longrightarrow> cont_ok k" for c k by (rule heap_okD(2) [OF ok])
  show "ao2_legal op h ext \<Longrightarrow> ao2_exec op h \<noteq> None" for op using exec_heap_ok [OF ok] by fastforce
qed

fun ao2_run :: "ao2_op list \<Rightarrow> ao2_heap \<Rightarrow> (nat \<Rightarrow> nat) \<Rightarrow> (ao2_heap \<times> (nat \<Rightarrow> nat)) option" where
  "ao2_run [] h ext = Some (h, ext)"
| "ao2_run (op # ops) h ext =
     (if ao2_legal op h ext then do { (h', ret) \<leftarrow> ao2_exec op h; ao2_run ops h' (give ret (ao2_own op ext)) } else None)"

lemma ao2_run_reach: "ao2_reach h ext \<Longrightarrow> ao2_run ops h ext = Some (h', ext') \<Longrightarrow> ao2_reach h' ext'"
  by (induction ops arbitrary: h ext) (auto simp: bind_eq_Some_conv intro: reach_step split: if_splits)

text \<open>An object linked into a container, after which the client drops its own reference to it.\<close>

definition ex_ao2_ops :: "ao2_op list" where
  "ex_ao2_ops = [Op_container (Some 1) 2 (Some int) None, Op_alloc (Some 5), Op_link 1 5 True False, Op_ref 5 (-1)]"

definition ex_ao2_container :: ao2_container where
  "ex_ao2_container = \<lparr> hash_fn = int, cmp_fn = None, c_elements = 1, c_version = 2, buckets = [[], [\<lparr> bl_version = 1, bl_obj = 5 \<rparr>]] \<rparr>"

definition ex_ao2_heap :: ao2_heap where
  "ex_ao2_heap = [1 \<mapsto> \<lparr> ref_counter = 1, ao2_data = Container_data ex_ao2_container \<rparr>, 5 \<mapsto> \<lparr> ref_counter = 1, ao2_data = User_data [] \<rparr>]"

lemma c_abs_5: "c_abs 5 = 5" "(5 :: int) smod 2 = 1"
  by code_simp+

lemma ex_ao2_reach: "ao2_reach ex_ao2_heap ((\<lambda>_. 0)(1 := 1))"
proof -
  have "ao2_run ex_ao2_ops Map.empty (\<lambda>_. 0) = Some (ex_ao2_heap, (\<lambda>_. 0)(1 := 1))"
    by (simp add: ex_ao2_ops_def ao2_container_alloc_def ao2_alloc_def owned_container_def container_at_def n_buckets_def
      ao2_link_def INTERNAL_OBJ_def bucket_mod_def insert_entry_def put_container_def ao2_ref_def ref_add_def c_abs_5 fun_eq_iff
      ex_ao2_heap_def ex_ao2_container_def numeral_2_eq_2)
  with reach_start show ?thesis by (rule ao2_run_reach)
qed

theorem ao2_reference_counts_witness:
  "ao2_exec (Op_ref 1 (-1)) ex_ao2_heap \<noteq> None"
proof -
  have "ao2_legal (Op_ref 1 (-1)) ex_ao2_heap ((\<lambda>_. 0)(1 := 1))" by simp
  with ao2_reference_counts [OF ex_ao2_reach, THEN conjunct2, THEN conjunct2, THEN spec] show ?thesis by (rule mp)
qed

text \<open>The references between live objects.\<close>

definition ao2_points :: "ao2_heap \<Rightarrow> (nat \<times> nat) set" where
  "ao2_points h = {(a, b). \<exists>ob. h a = Some ob \<and> b \<in> set (targets ob)}"

lemma heap_refs_source:
  assumes "0 < heap_refs h {} b"
  obtains a where "(a, b) \<in> ao2_points h"
proof -
  have "heap_refs h {} b = 0" if "\<forall>a\<in>dom h. count_list (targets (the (h a))) b = 0"
    using that by (simp add: heap_refs_def)
  with assms have "\<not> (\<forall>a\<in>dom h. count_list (targets (the (h a))) b = 0)" by fastforce
  then obtain a where "a \<in> dom h" "count_list (targets (the (h a))) b \<noteq> 0" by blast
  then have "(a, b) \<in> ao2_points h" by (auto simp: ao2_points_def count_list_0_iff)
  then show thesis by (rule that)
qed

lemma ao2_points_finite:
  assumes "finite (dom h)"
  shows "finite (ao2_points h)"
proof -
  have "ao2_points h \<subseteq> (\<Union>a\<in>dom h. Pair a ` set (targets (the (h a))))" by (auto simp: ao2_points_def)
  moreover have "finite (\<Union>a\<in>dom h. Pair a ` set (targets (the (h a))))" using assms by blast
  ultimately show ?thesis by (rule finite_subset)
qed

text \<open>
  C17. Nothing leaks: once the clients have dropped all their references, every object has been freed,
  provided the objects do not refer to each other in a cycle.
\<close>

theorem ao2_no_leak:
  assumes "ao2_reach h (\<lambda>_. 0)" "acyclic (ao2_points h)"
  shows "h = Map.empty"
proof (rule ccontr)
  assume "h \<noteq> Map.empty"
  then obtain x where x: "x \<in> dom h" by (auto simp: fun_eq_iff)
  have bal: "balanced_with [] h (\<lambda>_. 0)" using ao2_reach_ok [OF assms(1)] heap_okD(1) balanced_def by blast
  have "wf (ao2_points h)"
    using assms(2) balanced_withD(1) [OF bal] by (intro finite_acyclic_wf ao2_points_finite)
  from wfE_min [OF this x] obtain z where z: "z \<in> dom h" "\<And>y. (y, z) \<in> ao2_points h \<Longrightarrow> y \<notin> dom h" by blast
  from balanced_withD(3) [OF bal, of z] z(1) have "0 < heap_refs h {} z" by (auto simp: references_def)
  then obtain y where "(y, z) \<in> ao2_points h" by (rule heap_refs_source)
  with z(2) show False by (auto simp: ao2_points_def)
qed

lemma acyclicI_empty: "acyclic {}"
  by (simp add: acyclic_def)

theorem ao2_no_leak_witness:
  "\<exists>h. ao2_reach h (\<lambda>_. 0) \<and> ao2_exec (Op_ref 1 (-1)) ex_ao2_heap = Some (h, None) \<and> h = Map.empty"
proof -
  have run: "ao2_exec (Op_ref 1 (-1)) ex_ao2_heap = Some (ex_ao2_heap(1 := None, 5 := None), None)"
    by (simp add: ao2_ref_def INTERNAL_OBJ_def ref_add_def ex_ao2_heap_def destructor_def container_destruct_def bucket_objs_def
      ex_ao2_container_def fun_eq_iff)
  have own: "give None (ao2_own (Op_ref 1 (-1)) ((\<lambda>_. 0)(1 := 1))) = (\<lambda>_. 0)" by (simp add: fun_eq_iff)
  have "ao2_reach (ex_ao2_heap(1 := None, 5 := None)) (\<lambda>_. 0)"
    using reach_step [OF ex_ao2_reach _ run] own by simp
  moreover have "ao2_points (ex_ao2_heap(1 := None, 5 := None)) = {}" by (auto simp: ao2_points_def ex_ao2_heap_def)
  ultimately show ?thesis using ao2_no_leak run by (metis acyclicI_empty)
qed

lemma first_match_hit:
  assumes "first_match f arg ls = Some l" "no_bare_stop f arg"
  shows "fst (f (bl_obj l) arg)"
proof -
  have "f (bl_obj l) arg \<noteq> (False, False)" "f (bl_obj l) arg \<noteq> (False, True)"
    using assms by (auto simp: first_match_def find_Some_iff no_bare_stop_def)
  then show ?thesis by (cases "f (bl_obj l) arg") (metis (full_types) fst_conv)
qed

text \<open>
  C18. A search by the match function of the container that is to return one object (neither
  \<open>OBJ_NODATA\<close> nor \<open>OBJ_MULTIPLE\<close>), with a match function that never stops a search without a match,
  in a container with buckets, returns a linked object that matches. It returns
  none only if no linked object matches, or every one that does lies in another bucket than the argument
  and the search was confined to the bucket of the argument.
\<close>

theorem ao2_find_finds:
  assumes "ao2_reach h ext" "0 < ext c" "container_at h c = Some k" "cmp_fn k = Some f" "buckets k \<noteq> []"
    and "\<not> obj_nodata fl" "\<not> obj_multiple fl" "no_bare_stop f arg"
  shows "\<exists>h' ret. ao2_find h (Some c) arg fl = Some (h', ret) \<and>
    (case ret of
       Some a \<Rightarrow> a \<in> set (bucket_objs k) \<and> fst (f a arg)
     | None \<Rightarrow> \<forall>a\<in>set (bucket_objs k). fst (f a arg) \<longrightarrow>
         obj_pointer fl \<and> \<not> obj_continue fl \<and> entry_bucket k a \<noteq> hash_fn k arg smod n_buckets k)"
proof -
  note ok = ao2_reach_ok [OF assms(1)]
  let ?m = "first_match f arg (visited k fl arg)"
  have "search_done fl c ext k ?m (ao2_callback h (Some c) fl (Some f) arg)"
    using assms(5,6) by (intro callback_search [OF ok assms(2,3,7) _ _ assms(8)]) simp_all
  then obtain h' where h': "ao2_find h (Some c) arg fl = Some (h', map_option bl_obj ?m)"
    using assms(3,4,6) by (auto simp: search_done_def ao2_find_def search_result_def)
  define i where "i = hash_fn k arg smod n_buckets k"
  have lt: "i < n_buckets k" using assms(5) bucket_mod_range [of "hash_fn k arg" k i] by (simp add: bucket_mod_def i_def n_buckets_def)
  have sub: "set (visited k fl arg) \<subseteq> set (concat (buckets k))"
  proof -
    have "set (buckets k ! nat i) \<subseteq> set (concat (buckets k))" if "\<not> i < 0"
    proof -
      have "nat i < length (buckets k)" using lt that by (simp add: n_buckets_def)
      then have "buckets k ! nat i \<in> set (buckets k)" by (rule nth_mem)
      then show ?thesis by auto
    qed
    then show ?thesis by (auto simp: visited_def Let_def dest: in_set_dropD in_set_takeD simp flip: i_def)
  qed
  show ?thesis
  proof (cases ?m)
    case (Some l)
    have "fst (f (bl_obj l) arg)"
      using Some assms(8) first_match_hit by blast
    moreover have "bl_obj l \<in> set (bucket_objs k)" using first_match_in [OF Some] sub by (auto simp: bucket_objs_def)
    ultimately show ?thesis using h' Some by auto
  next
    case None
    have "obj_pointer fl \<and> \<not> obj_continue fl \<and> entry_bucket k a \<noteq> i"
      if a: "a \<in> set (bucket_objs k)" "fst (f a arg)" for a
    proof -
      from a(1) obtain B l where "B \<in> set (buckets k)" "l \<in> set B" "a = bl_obj l" by (auto simp: bucket_objs_def)
      then obtain j where l: "j < length (buckets k)" "l \<in> set (buckets k ! j)" "a = bl_obj l"
        by (metis in_set_conv_nth)
      have "l \<notin> set (visited k fl arg)" using None l(3) a(2) by (force simp: first_match_def find_None_iff)
      moreover have "l \<in> set (concat (buckets k))" using l(2) nth_mem [OF l(1)] by auto
      moreover have e: "int j = entry_bucket k a" using heap_okD(2) [OF ok assms(3)] l by (simp add: cont_ok_def)
      moreover have "nat (entry_bucket k a) = j" by (simp flip: e)
      moreover have "set (concat (drop n (buckets k)) @ concat (take n (buckets k))) = set (concat (buckets k))" for n
        by (metis append_take_drop_id concat_append set_append Un_commute)
      ultimately show ?thesis
        using l(2) by (auto simp: visited_def Let_def simp flip: i_def simp del: set_concat set_append split: if_splits)
    qed
    with h' None show ?thesis by (auto simp: i_def)
  qed
qed

definition ex_find_flags :: search_flags where
  "ex_find_flags = \<lparr> obj_unlink = False, obj_nodata = False, obj_multiple = False, obj_pointer = True, obj_continue = False \<rparr>"

theorem ao2_find_finds_witness:
  "\<exists>h ext k h'. ao2_reach h ext \<and> container_at h 1 = Some k \<and> ao2_find h (Some 1) 7 ex_find_flags = Some (h', Some 5)"
proof -
  let ?f = "\<lambda>a arg. (a < arg, False)"
  let ?k = "ex_ao2_container\<lparr> cmp_fn := Some ?f \<rparr>"
  let ?h = "ex_ao2_heap(1 \<mapsto> \<lparr> ref_counter = 1, ao2_data = Container_data ?k \<rparr>)"
  have "ao2_run [Op_container (Some 1) 2 (Some int) (Some ?f), Op_alloc (Some 5), Op_link 1 5 True False, Op_ref 5 (-1)]
      Map.empty (\<lambda>_. 0) = Some (?h, (\<lambda>_. 0)(1 := 1))"
    by (simp add: ao2_container_alloc_def ao2_alloc_def owned_container_def container_at_def n_buckets_def
      ao2_link_def INTERNAL_OBJ_def bucket_mod_def insert_entry_def put_container_def ao2_ref_def ref_add_def c_abs_5 fun_eq_iff
      ex_ao2_heap_def ex_ao2_container_def numeral_2_eq_2)
  with reach_start have reach: "ao2_reach ?h ((\<lambda>_. 0)(1 := 1))" by (rule ao2_run_reach)
  have k: "container_at ?h 1 = Some ?k" by (simp add: container_at_def)
  have hash: "(7 :: int) smod 2 = 1" "(5 :: int) smod 2 = 1" by code_simp+
  from ao2_find_finds [OF reach _ k, of ?f ex_find_flags 7] obtain h' ret where
    r: "ao2_find ?h (Some 1) 7 ex_find_flags = Some (h', ret)"
      "case ret of Some a \<Rightarrow> a \<in> set (bucket_objs ?k) \<and> fst (?f a 7)
       | None \<Rightarrow> \<forall>a\<in>set (bucket_objs ?k). fst (?f a 7) \<longrightarrow> entry_bucket ?k a \<noteq> hash_fn ?k 7 smod n_buckets ?k"
    by (auto simp: ex_ao2_container_def ex_find_flags_def no_bare_stop_def split: option.splits)
  have "bucket_objs ?k = [5]" "entry_bucket ?k 5 = hash_fn ?k 7 smod n_buckets ?k"
    using hash by (simp_all add: bucket_objs_def ex_ao2_container_def entry_bucket_def n_buckets_def c_abs_5)
  with r(2) have "ret = Some 5" by (cases ret) auto
  with r(1) reach k show ?thesis by blast
qed

text \<open>
  A search with \<open>OBJ_POINTER\<close>, \<open>OBJ_CONTINUE\<close> and \<open>OBJ_NODATA\<close> that starts in the last bucket and meets its
  match in an earlier one never returns: leaving the inner loop sets the index to the last bucket, which is
  taken for the end of the first round.
\<close>

theorem ao2_callback_spins:
  assumes k: "container_at h c = Some k" and start: "hash_fn k arg smod n_buckets k = n_buckets k - 1" "2 \<le> n_buckets k"
    and fl: "obj_pointer fl" "obj_continue fl" "obj_nodata fl" "\<not> obj_unlink fl" "\<not> obj_multiple fl"
    and cb: "no_bare_stop cb arg" "first_match cb arg (last (buckets k)) = None"
    and l: "l \<in> set (concat (butlast (buckets k)))" "fst (cb (bl_obj l) arg)"
  shows "ao2_callback h (Some c) fl (Some cb) arg = None"
proof -
  let ?n = "n_buckets k"
  obtain B where "B \<in> set (butlast (buckets k))" "l \<in> set B" using l(1) by auto
  then obtain j where j: "j < length (buckets k) - 1" "l \<in> set (buckets k ! j)"
    by (metis in_set_conv_nth length_butlast nth_butlast)
  have m: "match_entry fl c i e None h = Some (h, None)" for i e using fl by (simp add: match_entry_def)
  have scan: "scan_bucket fl cb arg c i ls None h = Some (h, None, first_match cb arg ls \<noteq> None)" for i ls
    using scan_bucket_first [OF fl(5) cb(1)] m by (cases "first_match cb arg ls") simp_all
  have meet: "first_match cb arg (buckets k ! j) \<noteq> None"
    using j(2) l(2) by (cases "cb (bl_obj l) arg") (auto simp: first_match_def find_None_iff intro!: bexI [of _ l])
  let ?in = "\<lambda>fl' cb' arg' c' start' i' lst' h'. fl' = fl \<and> cb' = cb \<and> arg' = arg \<and> c' = c \<and> start' = ?n - 1 \<and>
    lst' = ?n - 1 \<and> h' = h \<and> 0 \<le> i' \<and> i' \<le> int j"
  have spin: "\<not> ?in fl' cb' arg' c' start' i' lst' h'"
    if "callback_loop fl' cb' arg' c' start' i' lst' h' = Some r" for fl' cb' arg' c' start' i' lst' h' r
  proof (rule callback_loop.raw_induct [where P = "\<lambda>fl' cb' arg' c' start' i' lst' h' r. \<not> ?in fl' cb' arg' c' start' i' lst' h'", OF _ that], goal_cases)
    case (1 loop fl' cb' arg' c' start' i' lst' h' r)
    show ?case
    proof
      assume at: "?in fl' cb' arg' c' start' i' lst' h'"
      let ?stop = "first_match cb arg (buckets k ! nat i') \<noteq> None"
      have eqs: "fl' = fl" "cb' = cb" "arg' = arg" "c' = c" "start' = ?n - 1" "lst' = ?n - 1" "h' = h" using at by simp_all
      have lt: "i' < ?n - 1" using at j(1) unfolding n_buckets_def by linarith
      have body: "(if (if ?stop then ?n - 1 else i') = ?n - 1 then loop fl cb arg c (?n - 1) 0 (?n - 1) h
          else loop fl cb arg c (?n - 1) ((if ?stop then ?n - 1 else i') + 1) (?n - 1) h) = Some r"
        using 1(2) lt k fl at unfolding eqs by (simp add: scan Let_def split: if_splits)
      show False
      proof (cases ?stop)
        case True
        with body have "loop fl cb arg c (?n - 1) 0 (?n - 1) h = Some r" by simp
        from 1(1) [OF this] show False by simp
      next
        case False
        with meet have "i' \<noteq> int j" by auto
        from False body lt have "loop fl cb arg c (?n - 1) (i' + 1) (?n - 1) h = Some r" by simp
        from 1(1) [OF this] \<open>i' \<noteq> int j\<close> at show False by simp
      qed
    qed
  qed
  have n: "nat (?n - 1) < length (buckets k)" "buckets k \<noteq> []" using start(2) by (auto simp: n_buckets_def)
  then have last: "first_match cb arg (buckets k ! nat (?n - 1)) = None"
    using cb(2) by (simp add: last_conv_nth n_buckets_def nat_diff_distrib)
  have "callback_loop fl cb arg c (?n - 1) (?n - 1) ?n h = callback_loop fl cb arg c (?n - 1) 0 (?n - 1) h"
    using k fl start(2) last by (subst callback_loop.simps) (simp add: scan Let_def)
  also have "\<dots> = None" using spin [of fl cb arg c "?n - 1" 0 "?n - 1" h] by (cases "callback_loop fl cb arg c (?n - 1) 0 (?n - 1) h") auto
  finally show ?thesis
    using k start fl container_atE [OF k] by (auto simp: ao2_callback_def INTERNAL_OBJ_def bucket_mod_def)
qed

theorem ao2_callback_spins_witness:
  "ao2_callback [1 \<mapsto> \<lparr> ref_counter = 1, ao2_data = Container_data
      \<lparr> hash_fn = int, cmp_fn = None, c_elements = 1, c_version = 2, buckets = [[\<lparr> bl_version = 1, bl_obj = 4 \<rparr>], []] \<rparr> \<rparr>]
    (Some 1) \<lparr> obj_unlink = False, obj_nodata = True, obj_multiple = False, obj_pointer = True, obj_continue = True \<rparr>
    (Some cb_true) 7 = None"
proof -
  have "(7 :: int) smod 2 = 1" by code_simp
  then show ?thesis
    by (intro ao2_callback_spins [where l = "\<lparr> bl_version = 1, bl_obj = 4 \<rparr>" and k =
        "\<lparr> hash_fn = int, cmp_fn = None, c_elements = 1, c_version = 2, buckets = [[\<lparr> bl_version = 1, bl_obj = 4 \<rparr>], []] \<rparr>"])
      (simp_all add: container_at_def n_buckets_def no_bare_stop_def cb_true_def first_match_def)
qed

end
