(* ===== verification/Astobj2_Iter.thy ===== *)
theory Astobj2_Iter
  imports Astobj2
begin

text \<open>
  Iteration over a container that changes meanwhile, on top of \<open>Astobj2\<close>: an iterator remembers its
  bucket and the version number of the current entry, and takes a short cut along the list if the
  container has not changed.
\<close>

section \<open>A container in use\<close>

text \<open>
  What happens to a container between the steps of an iterator: an object is linked at the end of its
  bucket, an entry is unlinked, or the iterator moves. \<open>st_seen\<close> has the entries the iterator returned, in
  order, and \<open>st_end\<close> says whether its last step returned none.
\<close>

datatype iter_event = Ev_link nat | Ev_unlink bucket_list | Ev_next

record iter_state =
  st_k :: ao2_container
  st_it :: ao2_iterator
  st_seen :: "bucket_list list"
  st_end :: bool

definition linked :: "ao2_container \<Rightarrow> bucket_list \<Rightarrow> bool" where
  "linked k l \<longleftrightarrow> l \<in> set (concat (buckets k))"

definition bucket_of :: "ao2_container \<Rightarrow> bucket_list \<Rightarrow> nat" where
  "bucket_of k l = nat (entry_bucket k (bl_obj l))"

fun iter_step :: "iter_event \<Rightarrow> iter_state \<Rightarrow> iter_state option" where
  "iter_step (Ev_link a) s =
     (let k = st_k s; i = entry_bucket k a in
      if 0 \<le> i \<and> i < n_buckets k then Some (s\<lparr> st_k := insert_entry False (nat i) a k, st_end := False \<rparr>) else Some s)"
| "iter_step (Ev_unlink l) s =
     (let k = st_k s in
      if linked k l then Some (s\<lparr> st_k := remove_entry (bucket_of k l) l k, st_end := False \<rparr>) else Some s)"
| "iter_step Ev_next s =
     do { (it, p) \<leftarrow> iterator_advance (st_k s) (st_it s);
          Some (s\<lparr> st_it := it, st_seen := st_seen s @ (case p of None \<Rightarrow> [] | Some l \<Rightarrow> [l]), st_end := (p = None) \<rparr>) }"

fun iter_run :: "iter_event list \<Rightarrow> iter_state \<Rightarrow> iter_state option" where
  "iter_run [] s = Some s"
| "iter_run (e # es) s = iter_step e s \<bind> iter_run es"

definition iter_start :: "ao2_container \<Rightarrow> nat \<Rightarrow> iter_state" where
  "iter_start k c =
     \<lparr> st_k = k, st_it = \<lparr> it_c = Some c, it_bucket = 0, it_c_version = 0, it_obj = None, it_version = 0 \<rparr>,
       st_seen = [], st_end = False \<rparr>"

text \<open>Entries are added at the end of a bucket, with growing version numbers.\<close>

definition ordered :: "ao2_container \<Rightarrow> bool" where
  "ordered k \<longleftrightarrow> cont_ok k \<and> (\<forall>b\<in>set (buckets k). sorted_wrt (<) (map bl_version b))"

section \<open>The short cut\<close>

lemma list_next_find:
  assumes "sorted_wrt (<) (map bl_version ls)" "v \<in> bl_version ` set ls"
  shows "list_next v ls = Some (find (\<lambda>p. v < bl_version p) ls)"
  using assms
proof (induction ls)
  case (Cons l ls)
  show ?case
  proof (cases "bl_version l = v")
    case True
    with Cons.prems show ?thesis by (cases ls) auto
  next
    case False
    with Cons.prems have "v \<in> bl_version ` set ls" by auto
    moreover from this Cons.prems have "\<not> v < bl_version l" by auto
    ultimately show ?thesis using Cons False by simp
  qed
qed simp

definition in_sync :: "ao2_container \<Rightarrow> ao2_iterator \<Rightarrow> bool" where
  "in_sync k it \<longleftrightarrow>
     it_bucket it \<le> length (buckets k) \<and> it_c_version it \<le> c_version k \<and> 0 \<le> it_version it \<and>
     (it_obj it \<noteq> None \<and> it_c_version it = c_version k \<longrightarrow>
       it_bucket it < length (buckets k) \<and> it_obj it = Some (it_version it) \<and>
       it_version it \<in> bl_version ` set (buckets k ! it_bucket it))"

text \<open>With or without the short cut, a step finds what a scan from the current position finds.\<close>

lemma iterator_advance_scan:
  assumes ord: "ordered k" and sync: "in_sync k it"
    and sc: "scan_from (it_version it) (it_bucket it) (drop (it_bucket it) (buckets k)) = (b, v, p)"
  obtains it' where "iterator_advance k it = Some (it', p)" "it_bucket it' = b"
    "it_version it' = (case p of None \<Rightarrow> v | Some l \<Rightarrow> bl_version l)"
    "case p of Some l \<Rightarrow> it_obj it' = Some (bl_version l) \<and> it_c_version it' = c_version k
     | None \<Rightarrow> it_obj it' = None \<and> it_c_version it' \<le> c_version k \<or> it_obj it' \<noteq> None \<and> it_c_version it' < c_version k"
proof (cases "it_obj it \<noteq> None \<and> it_c_version it = c_version k")
  case True
  let ?b = "it_bucket it" and ?v = "it_version it"
  have b: "?b < length (buckets k)" "it_obj it = Some ?v" "?v \<in> bl_version ` set (buckets k ! ?b)"
    using True sync by (auto simp: in_sync_def)
  have "buckets k ! ?b \<in> set (buckets k)" by (rule nth_mem) (rule b(1))
  then have "sorted_wrt (<) (map bl_version (buckets k ! ?b))" using ord by (auto simp: ordered_def)
  from list_next_find [OF this b(3)]
  have f: "follow_obj k it = Some (let nxt = find (\<lambda>p. ?v < bl_version p) (buckets k ! ?b) in
      (if nxt = None then it\<lparr> it_bucket := ?b + 1, it_version := 0, it_obj := None \<rparr> else it, nxt))"
    using True b(1,2) by (simp add: follow_obj_def Let_def)
  have dr: "drop ?b (buckets k) = buckets k ! ?b # drop (Suc ?b) (buckets k)" using Cons_nth_drop_Suc [OF b(1)] by simp
  show thesis
  proof (cases "find (\<lambda>p. ?v < bl_version p) (buckets k ! ?b)")
    case None
    let ?it = "it\<lparr> it_bucket := ?b + 1, it_version := 0, it_obj := None \<rparr>"
    have "scan_from 0 (?b + 1) (drop (Suc ?b) (buckets k)) = (b, v, p)" using sc None by (simp add: dr)
    with f None True that show thesis by (cases p) (auto simp: iterator_advance_def)
  next
    case (Some l)
    with sc have "b = ?b" "p = Some l" by (auto simp: dr)
    with f Some that show thesis by (auto simp: iterator_advance_def)
  qed
next
  case False
  then have "follow_obj k it = Some (it, None)" by (auto simp: follow_obj_def split: option.splits)
  moreover have "it_obj it = None \<and> it_c_version it \<le> c_version k \<or> it_obj it \<noteq> None \<and> it_c_version it < c_version k"
    using False sync by (auto simp: in_sync_def)
  ultimately show thesis using sc that by (cases p) (auto simp: iterator_advance_def)
qed

lemma scan_from_result:
  assumes "scan_from v b bs = (b', v', p)"
  shows "case p of
      None \<Rightarrow> b' = b + length bs \<and> v' = (if bs = [] then v else 0) \<and> (\<forall>i<length bs. \<forall>m\<in>set (bs ! i). bl_version m \<le> (if i = 0 then v else 0))
    | Some l \<Rightarrow> \<exists>i<length bs. b' = b + i \<and> find (\<lambda>p. (if i = 0 then v else 0) < bl_version p) (bs ! i) = Some l \<and>
        (\<forall>j<i. \<forall>m\<in>set (bs ! j). bl_version m \<le> (if j = 0 then v else 0))"
  using assms
proof (induction v b bs rule: scan_from.induct)
  case (2 v b ls bs)
  show ?case
  proof (cases "find (\<lambda>p. bl_version p > v) ls")
    case None
    then have ls: "\<forall>m\<in>set ls. bl_version m \<le> v" by (auto simp: find_None_iff)
    from None 2 have IH: "case p of
        None \<Rightarrow> b' = b + 1 + length bs \<and> v' = (if bs = [] then 0 else 0) \<and> (\<forall>i<length bs. \<forall>m\<in>set (bs ! i). bl_version m \<le> (if i = 0 then 0 else 0))
      | Some l \<Rightarrow> \<exists>i<length bs. b' = b + 1 + i \<and> find (\<lambda>p. (if i = 0 then 0 else 0) < bl_version p) (bs ! i) = Some l \<and>
          (\<forall>j<i. \<forall>m\<in>set (bs ! j). bl_version m \<le> (if j = 0 then 0 else 0))" by simp
    show ?thesis
    proof (cases p)
      case None
      with IH ls show ?thesis by (auto simp: nth_Cons split: nat.splits)
    next
      case (Some l)
      with IH obtain i where i: "i < length bs" "b' = b + 1 + i" "find (\<lambda>p. 0 < bl_version p) (bs ! i) = Some l"
        "\<forall>j<i. \<forall>m\<in>set (bs ! j). bl_version m \<le> 0" by auto
      have "\<forall>j<Suc i. \<forall>m\<in>set ((ls # bs) ! j). bl_version m \<le> (if j = 0 then v else 0)"
        using i(4) ls by (auto simp: nth_Cons split: nat.splits)
      with i Some show ?thesis by (auto intro!: exI [of _ "Suc i"])
    qed
  next
    case (Some l)
    have "b' = b" "p = Some l" using Some "2.prems" by auto
    with Some show ?thesis by (auto intro!: exI [of _ 0])
  qed
qed auto

section \<open>Positions\<close>

text \<open>An entry lies before the iterator if it was passed, or returned last.\<close>

definition passed :: "ao2_container \<Rightarrow> ao2_iterator \<Rightarrow> bucket_list \<Rightarrow> bool" where
  "passed k it l \<longleftrightarrow> bucket_of k l < it_bucket it \<or> bucket_of k l = it_bucket it \<and> bl_version l \<le> it_version it"

lemma linked_bucket:
  assumes "cont_ok k" "linked k l"
  shows "bucket_of k l < length (buckets k)" "l \<in> set (buckets k ! bucket_of k l)" "0 < bl_version l" "bl_version l < c_version k"
proof -
  obtain B where "B \<in> set (buckets k)" "l \<in> set B" using assms(2) by (auto simp: linked_def)
  then obtain i where i: "i < length (buckets k)" "l \<in> set (buckets k ! i)" by (metis in_set_conv_nth)
  with assms(1) have "int i = entry_bucket k (bl_obj l)" by (simp add: cont_ok_def)
  then have "bucket_of k l = i" by (simp add: bucket_of_def flip: \<open>int i = entry_bucket k (bl_obj l)\<close>)
  with i show "bucket_of k l < length (buckets k)" "l \<in> set (buckets k ! bucket_of k l)" by simp_all
  show "0 < bl_version l" "bl_version l < c_version k" using assms by (auto simp: cont_ok_def linked_def)
qed

lemma in_bucket_of:
  assumes "cont_ok k" "i < length (buckets k)" "l \<in> set (buckets k ! i)"
  shows "bucket_of k l = i" "linked k l"
proof -
  from assms have "int i = entry_bucket k (bl_obj l)" by (simp add: cont_ok_def)
  then show "bucket_of k l = i" by (metis bucket_of_def nat_int)
  show "linked k l" using assms(3) nth_mem [OF assms(2)] by (auto simp: linked_def)
qed

lemma find_sorted_least:
  assumes "sorted_wrt (<) (map bl_version ls)" "find (\<lambda>p. v < bl_version p) ls = Some l" "m \<in> set ls" "v < bl_version m"
  shows "bl_version l \<le> bl_version m"
  using assms by (induction ls) (auto split: if_splits)

text \<open>A step returns the first entry not yet passed, and passes it.\<close>

lemma iterator_advance_first:
  assumes ord: "ordered k" and sync: "in_sync k it"
  obtains it' p where "iterator_advance k it = Some (it', p)" "in_sync k it'"
    "\<forall>m. passed k it m \<longrightarrow> passed k it' m"
    "case p of
       Some l \<Rightarrow> linked k l \<and> \<not> passed k it l \<and> passed k it' l \<and> (\<forall>m. linked k m \<and> passed k it' m \<longrightarrow> passed k it m \<or> m = l)
     | None \<Rightarrow> \<forall>m. linked k m \<longrightarrow> passed k it m"
proof -
  let ?b = "it_bucket it" and ?v = "it_version it" and ?bs = "drop (it_bucket it) (buckets k)"
  have ok: "cont_ok k" using ord by (simp add: ordered_def)
  have b: "?b \<le> length (buckets k)" "0 \<le> ?v" using sync by (simp_all add: in_sync_def)
  have at: "?bs ! i = buckets k ! (?b + i)" if "i < length ?bs" for i using that by simp
  have pos: "0 < bl_version m" if "linked k m" for m using linked_bucket(3) [OF ok that] .
  obtain b' v' p where sc: "scan_from ?v ?b ?bs = (b', v', p)" by (metis prod_cases3)
  note res = scan_from_result [OF sc]
  obtain it' where it': "iterator_advance k it = Some (it', p)" "it_bucket it' = b'"
    "it_version it' = (case p of None \<Rightarrow> v' | Some l \<Rightarrow> bl_version l)"
    "case p of Some l \<Rightarrow> it_obj it' = Some (bl_version l) \<and> it_c_version it' = c_version k
     | None \<Rightarrow> it_obj it' = None \<and> it_c_version it' \<le> c_version k \<or> it_obj it' \<noteq> None \<and> it_c_version it' < c_version k"
    using ord sync sc by (rule iterator_advance_scan)
  have old: "passed k it m" if m: "linked k m" "bucket_of k m < b' \<or> p = None"
    "\<forall>j<b' - ?b. \<forall>m\<in>set (?bs ! j). bl_version m \<le> (if j = 0 then ?v else 0)" "p = None \<longrightarrow> b' = length (buckets k)" for m
  proof (rule ccontr)
    assume "\<not> passed k it m"
    then have ge: "?b \<le> bucket_of k m" "bucket_of k m = ?b \<longrightarrow> ?v < bl_version m" by (auto simp: passed_def)
    have lb: "bucket_of k m < length (buckets k)" "m \<in> set (buckets k ! bucket_of k m)" using linked_bucket [OF ok m(1)] by auto
    then have "bucket_of k m - ?b < b' - ?b" using m(2,4) ge(1) by auto
    moreover have "m \<in> set (?bs ! (bucket_of k m - ?b))" using lb ge(1) by simp
    ultimately have "bl_version m \<le> (if bucket_of k m - ?b = 0 then ?v else 0)" using m(3) by blast
    with ge pos [OF m(1)] show False by (auto split: if_splits)
  qed
  show thesis
  proof (cases p)
    case None
    with res b have e: "b' = length (buckets k)" "v' = (if ?bs = [] then ?v else 0)"
        "\<forall>j<b' - ?b. \<forall>m\<in>set (?bs ! j). bl_version m \<le> (if j = 0 then ?v else 0)"
      by auto
    have "\<forall>m. linked k m \<longrightarrow> passed k it m" using old None e by blast
    moreover have "passed k it' m" if "passed k it m" for m
      using that b e(1,2) it'(2,3) None by (auto simp: passed_def)
    moreover have "in_sync k it'" using it' None e b by (auto simp: in_sync_def)
    ultimately show thesis using that [OF it'(1)] None by simp
  next
    case (Some l)
    with res obtain i where i: "i < length ?bs" "b' = ?b + i" "find (\<lambda>p. (if i = 0 then ?v else 0) < bl_version p) (?bs ! i) = Some l"
        "\<forall>j<i. \<forall>m\<in>set (?bs ! j). bl_version m \<le> (if j = 0 then ?v else 0)" by auto
    have l: "l \<in> set (?bs ! i)" "(if i = 0 then ?v else 0) < bl_version l" using i(3) by (auto simp: find_Some_iff)
    have lt: "b' < length (buckets k)" "buckets k ! b' = ?bs ! i" using i(1,2) by simp_all
    then have bl: "bucket_of k l = b'" "linked k l" using in_bucket_of [OF ok lt(1)] l(1) by simp_all
    have srt: "sorted_wrt (<) (map bl_version (?bs ! i))" using ord nth_mem [OF lt(1)] lt(2) by (auto simp: ordered_def)
    have "passed k it m \<or> m = l" if m: "linked k m" "passed k it' m" for m
    proof (cases "bucket_of k m < b'")
      case True
      then have "passed k it m" using old [OF m(1)] i(2,4) Some by simp
      then show ?thesis ..
    next
      case False
      then have m': "bucket_of k m = b'" "bl_version m \<le> bl_version l" using m(2) it'(2,3) Some by (auto simp: passed_def)
      have mb: "m \<in> set (?bs ! i)" using linked_bucket(2) [OF ok m(1)] m'(1) lt(2) by simp
      show ?thesis
      proof (cases "(if i = 0 then ?v else 0) < bl_version m")
        case True
        then have "bl_version m = bl_version l" using find_sorted_least [OF srt i(3) mb] m'(2) by simp
        moreover have "inj_on bl_version (set (?bs ! i))"
          using srt by (metis distinct_map strict_sorted_iff)
        ultimately show ?thesis using mb l(1) by (auto dest: inj_onD)
      next
        case False
        then show ?thesis using m'(1) i(2) pos [OF m(1)] by (auto simp: passed_def split: if_splits)
      qed
    qed
    moreover have "\<not> passed k it l" using l(2) bl(1) i(2) by (auto simp: passed_def split: if_splits)
    moreover have "passed k it' l" using bl(1) it'(2,3) Some by (simp add: passed_def)
    moreover have "passed k it' m" if "passed k it m" for m
      using that i(2) l(2) it'(2,3) Some by (auto simp: passed_def split: if_splits)
    moreover have "in_sync k it'"
      using it' Some lt l bl(2) pos [of l] by (auto simp: in_sync_def)
    ultimately show thesis using that [OF it'(1)] Some bl(2) by simp
  qed
qed

section \<open>Runs\<close>

lemma same_shape_bucket: "same_shape k k' \<Longrightarrow> bucket_of k' l = bucket_of k l"
  by (simp add: same_shape_def bucket_of_def entry_bucket_def n_buckets_def)

lemma same_shape_passed: "same_shape k k' \<Longrightarrow> passed k' it l = passed k it l"
  by (simp add: passed_def same_shape_bucket)

lemma insert_entry_ordered:
  assumes "ordered k" "i < length (buckets k)" "int i = entry_bucket k a"
  shows "ordered (insert_entry False i a k)"
proof -
  have ok: "cont_ok k" using assms(1) by (simp add: ordered_def)
  have "\<forall>l\<in>set (buckets k ! i). bl_version l < c_version k"
    using in_bucket_of(2) [OF ok assms(2)] linked_bucket(4) [OF ok] by blast
  moreover have "sorted_wrt (<) (map bl_version (buckets k ! i))" using assms(1) nth_mem [OF assms(2)] by (auto simp: ordered_def)
  ultimately have "sorted_wrt (<) (map bl_version (buckets k ! i @ [\<lparr> bl_version = c_version k, bl_obj = a \<rparr>]))"
    by (auto simp: sorted_wrt_append)
  moreover have "\<forall>b\<in>set (buckets k). sorted_wrt (<) (map bl_version b)" using assms(1) by (simp add: ordered_def)
  ultimately have "\<forall>b\<in>set (buckets (insert_entry False i a k)). sorted_wrt (<) (map bl_version b)"
    by (auto simp: insert_entry_def Let_def dest!: set_update_subset_insert [THEN subsetD])
  with insert_entry_ok [OF ok assms(2,3)] show ?thesis by (simp add: ordered_def)
qed

lemma remove_entry_ordered:
  assumes "ordered k" "i < length (buckets k)" "l \<in> set (buckets k ! i)"
  shows "ordered (remove_entry i l k)"
proof -
  have ok: "cont_ok k" and srt: "\<forall>b\<in>set (buckets k). sorted_wrt (<) (map bl_version b)"
    using assms(1) by (simp_all add: ordered_def)
  then have "sorted_wrt (\<lambda>x y. bl_version x < bl_version y) (buckets k ! i)"
    using nth_mem [OF assms(2)] by (auto simp: sorted_wrt_map)
  then have "sorted_wrt (<) (map bl_version (remove1 l (buckets k ! i)))"
    by (simp add: sorted_wrt_map sorted_wrt_remove1)
  with srt have "\<forall>b\<in>set (buckets (remove_entry i l k)). sorted_wrt (<) (map bl_version b)"
    by (auto simp: remove_entry_def dest!: set_update_subset_insert [THEN subsetD])
  with remove_entry_ok [OF ok assms(2,3)] show ?thesis by (simp add: ordered_def)
qed

text \<open>
  The invariant, for the entries \<open>K\<close> of the container at the start: the entries returned are distinct and passed,
  and those of \<open>K\<close> that are passed and still linked have been returned.
\<close>

definition iter_inv :: "bucket_list set \<Rightarrow> iter_state \<Rightarrow> bool" where
  "iter_inv K s \<longleftrightarrow>
     ordered (st_k s) \<and> in_sync (st_k s) (st_it s) \<and>
     distinct (st_seen s) \<and> (\<forall>l\<in>set (st_seen s). passed (st_k s) (st_it s) l) \<and>
     (\<forall>l\<in>K. bl_version l < c_version (st_k s)) \<and>
     (\<forall>l\<in>K. linked (st_k s) l \<and> passed (st_k s) (st_it s) l \<longrightarrow> l \<in> set (st_seen s)) \<and>
     (st_end s \<longrightarrow> (\<forall>l. linked (st_k s) l \<longrightarrow> passed (st_k s) (st_it s) l))"

lemma iter_inv_change:
  assumes inv: "iter_inv K s" and shape: "same_shape (st_k s) k'" and ord: "ordered k'" and v: "c_version k' = c_version (st_k s) + 1"
    and linked: "\<And>l. linked k' l \<Longrightarrow> linked (st_k s) l \<or> bl_version l = c_version (st_k s)"
  shows "iter_inv K (s\<lparr> st_k := k', st_end := False \<rparr>)"
proof -
  have "in_sync k' (st_it s)"
    using inv shape v by (auto simp: iter_inv_def in_sync_def same_shape_def)
  moreover have "l \<in> set (st_seen s)" if "l \<in> K" "linked k' l" "passed (st_k s) (st_it s) l" for l
  proof -
    have "linked (st_k s) l" using linked [OF that(2)] inv that(1) by (auto simp: iter_inv_def)
    with inv that show ?thesis by (simp add: iter_inv_def)
  qed
  moreover have "\<forall>l\<in>K. bl_version l < c_version k'" using inv v by (fastforce simp: iter_inv_def)
  moreover have "distinct (st_seen s)" "\<forall>l\<in>set (st_seen s). passed (st_k s) (st_it s) l" using inv by (simp_all add: iter_inv_def)
  ultimately show ?thesis
    using ord by (simp add: iter_inv_def same_shape_passed [OF shape])
qed

lemma iter_step_inv:
  assumes inv: "iter_inv K s"
  shows "\<exists>s'. iter_step e s = Some s' \<and> iter_inv K s'"
proof (cases e)
  case (Ev_link a)
  let ?i = "entry_bucket (st_k s) a"
  show ?thesis
  proof (cases "0 \<le> ?i \<and> ?i < n_buckets (st_k s)")
    case True
    then have i: "nat ?i < length (buckets (st_k s))" "int (nat ?i) = ?i" by (auto simp: n_buckets_def)
    have ord: "ordered (st_k s)" using inv by (simp add: iter_inv_def)
    let ?k = "insert_entry False (nat ?i) a (st_k s)"
    have "set_mset (mset (concat (buckets ?k))) =
        insert \<lparr> bl_version = c_version (st_k s), bl_obj = a \<rparr> (set_mset (mset (concat (buckets (st_k s)))))"
      by (simp only: insert_entry_mset [OF i(1)] set_mset_add_mset_insert)
    then have "linked ?k l \<Longrightarrow> linked (st_k s) l \<or> bl_version l = c_version (st_k s)" for l
      by (auto simp: linked_def simp del: set_concat)
    moreover have "c_version ?k = c_version (st_k s) + 1" by (simp add: insert_entry_def Let_def)
    ultimately have "iter_inv K (s\<lparr> st_k := ?k, st_end := False \<rparr>)"
      using insert_entry_ordered [OF ord i] by (intro iter_inv_change [OF inv entry_shape(1)]) auto
    with True Ev_link show ?thesis by (simp add: Let_def)
  qed (use inv Ev_link in auto)
next
  case (Ev_unlink l)
  show ?thesis
  proof (cases "linked (st_k s) l")
    case True
    have ord: "ordered (st_k s)" "cont_ok (st_k s)" using inv by (simp_all add: iter_inv_def ordered_def)
    note b = linked_bucket(1,2) [OF ord(2) True]
    let ?k = "remove_entry (bucket_of (st_k s) l) l (st_k s)"
    have "set_mset (mset (concat (buckets (st_k s)))) = insert l (set_mset (mset (concat (buckets ?k))))"
      by (simp only: remove_entry_mset [OF b, symmetric] set_mset_add_mset_insert)
    then have "linked ?k m \<Longrightarrow> linked (st_k s) m" for m by (auto simp: linked_def simp del: set_concat)
    moreover have "c_version ?k = c_version (st_k s) + 1" by (simp add: remove_entry_def)
    ultimately have "iter_inv K (s\<lparr> st_k := ?k, st_end := False \<rparr>)"
      using remove_entry_ordered [OF ord(1) b] by (intro iter_inv_change [OF inv entry_shape(2)]) auto
    with True Ev_unlink show ?thesis by (simp add: Let_def)
  qed (use inv Ev_unlink in auto)
next
  case Ev_next
  have ord: "ordered (st_k s)" and sync: "in_sync (st_k s) (st_it s)" using inv by (simp_all add: iter_inv_def)
  obtain it' p where step: "iterator_advance (st_k s) (st_it s) = Some (it', p)" "in_sync (st_k s) it'"
    "\<forall>m. passed (st_k s) (st_it s) m \<longrightarrow> passed (st_k s) it' m"
    "case p of
       Some l \<Rightarrow> linked (st_k s) l \<and> \<not> passed (st_k s) (st_it s) l \<and> passed (st_k s) it' l \<and>
         (\<forall>m. linked (st_k s) m \<and> passed (st_k s) it' m \<longrightarrow> passed (st_k s) (st_it s) m \<or> m = l)
     | None \<Rightarrow> \<forall>m. linked (st_k s) m \<longrightarrow> passed (st_k s) (st_it s) m"
    using ord sync by (rule iterator_advance_first)
  have "iter_inv K (s\<lparr> st_it := it', st_seen := st_seen s @ (case p of None \<Rightarrow> [] | Some l \<Rightarrow> [l]), st_end := (p = None) \<rparr>)"
  proof (cases p)
    case None
    with inv step(2-4) show ?thesis by (simp add: iter_inv_def)
  next
    case (Some l)
    then have l: "\<not> passed (st_k s) (st_it s) l" "passed (st_k s) it' l"
      "\<forall>m. linked (st_k s) m \<and> passed (st_k s) it' m \<longrightarrow> passed (st_k s) (st_it s) m \<or> m = l" using step(4) by simp_all
    then have "l \<notin> set (st_seen s)" using inv by (auto simp: iter_inv_def)
    with inv l step(2,3) Some show ?thesis by (simp add: iter_inv_def) blast
  qed
  with step(1) Ev_next show ?thesis by simp
qed

lemma iter_run_inv: "iter_inv K s \<Longrightarrow> \<exists>s'. iter_run es s = Some s' \<and> iter_inv K s'"
proof (induction es arbitrary: s)
  case (Cons e es)
  obtain s1 where "iter_step e s = Some s1" "iter_inv K s1" using iter_step_inv [OF Cons.prems] by blast
  with Cons.IH [of s1] show ?case by simp
qed simp

lemma iter_start_inv:
  assumes "ordered k"
  shows "iter_inv {l. linked k l} (iter_start k c)"
proof -
  have ok: "cont_ok k" using assms by (simp add: ordered_def)
  then have "0 < c_version k" by (simp add: cont_ok_def)
  moreover have "0 < bl_version l" "bl_version l < c_version k" if "linked k l" for l using linked_bucket(3,4) [OF ok that] by auto
  ultimately show ?thesis
    using assms by (simp add: iter_inv_def iter_start_def in_sync_def passed_def) (meson not_less)
qed

text \<open>
  C5. An iterator over a container that other threads change meanwhile: its steps never follow a
  dangling pointer, never return the same entry twice, and once it reports the end it has returned
  every entry that was linked when it started and still is.
\<close>

theorem iterator_complete:
  assumes "ordered k"
  shows "\<exists>s. iter_run es (iter_start k c) = Some s \<and> distinct (st_seen s) \<and>
    (st_end s \<longrightarrow> (\<forall>l. linked k l \<and> linked (st_k s) l \<longrightarrow> l \<in> set (st_seen s)))"
  using iter_run_inv [OF iter_start_inv [OF assms, of c], of es] by (auto simp: iter_inv_def)

definition ex_iter_k :: ao2_container where
  "ex_iter_k = \<lparr> hash_fn = int, cmp_fn = None, c_elements = 2, c_version = 3,
     buckets = [[\<lparr> bl_version = 1, bl_obj = 2 \<rparr>, \<lparr> bl_version = 2, bl_obj = 4 \<rparr>], []] \<rparr>"

lemma ex_iter_ordered: "ordered ex_iter_k"
proof -
  have "c_abs 2 smod 2 = 0" "c_abs 4 smod 2 = 0" by code_simp+
  then show ?thesis
    by (auto simp: ordered_def cont_ok_def ex_iter_k_def entry_bucket_def n_buckets_def less_Suc_eq numeral_2_eq_2)
qed

theorem iterator_complete_witness:
  "\<exists>s. iter_run [Ev_next, Ev_link 3, Ev_next, Ev_next, Ev_next] (iter_start ex_iter_k 1) = Some s \<and> distinct (st_seen s)"
  using iterator_complete [OF ex_iter_ordered, of "[Ev_next, Ev_link 3, Ev_next, Ev_next, Ev_next]" 1] by blast

text \<open>
  With entries inserted at the head of a bucket, as \<open>iax2_hack\<close> does, an iterator can miss an object that
  is linked all the time: after a change it looks for a greater version number, and the older entries
  behind the current one have smaller ones.
\<close>

theorem iterator_misses_hack:
  "\<exists>k it. let k0 = \<lparr> hash_fn = int, cmp_fn = None, c_elements = 0, c_version = 1, buckets = [[], []] \<rparr>;
             k1 = insert_entry True 1 3 (insert_entry True 0 4 (insert_entry True 0 2 k0))
     in iterator_advance k1 (st_it (iter_start k1 7)) = Some (it, Some \<lparr> bl_version = 2, bl_obj = 4 \<rparr>) \<and>
        k = remove_entry 1 \<lparr> bl_version = 3, bl_obj = 3 \<rparr> k1 \<and>
        map_option snd (iterator_advance k it) = Some None \<and>
        \<lparr> bl_version = 1, bl_obj = 2 \<rparr> \<in> set (buckets k ! 0)"
  by (simp add: Let_def insert_entry_def remove_entry_def iterator_advance_def iter_start_def follow_obj_def)

end
