(* ===== verification/Inet.thy ===== *)
theory Inet
  imports Clib
begin

text \<open>
  Numbers and Internet addresses as the C library reads and writes them (\<open>strtoul\<close>, \<open>sscanf\<close>, \<open>inet_aton\<close>,
  \<open>inet_ntop\<close>), and \<open>ast_inet_ntoa\<close> of \<open>main/utils.c\<close>. An address is a 32-bit word whose most significant octet
  is the first one; \<open>htonl\<close> is left out, because addresses are only compared, masked and printed octet by octet.
\<close>

section \<open>Reading numbers and addresses\<close>

text \<open>Numbers as \<open>strtoul\<close> reads them with base 0, without sign and without white space.\<close>

definition digit_val :: "char \<Rightarrow> nat option" where
  "digit_val c =
     (let n = c_code c in
      if 48 \<le> n \<and> n \<le> 57 then Some (n - 48)
      else if 65 \<le> n \<and> n \<le> 70 then Some (n - 55)
      else if 97 \<le> n \<and> n \<le> 102 then Some (n - 87)
      else None)"

definition is_digit_in :: "nat \<Rightarrow> char \<Rightarrow> bool" where
  "is_digit_in base c = (case digit_val c of Some d \<Rightarrow> d < base | None \<Rightarrow> False)"

definition digits_val :: "nat \<Rightarrow> string \<Rightarrow> nat" where
  "digits_val base s = foldl (\<lambda>n c. base * n + the (digit_val c)) 0 s"

definition number_base :: "string \<Rightarrow> nat \<times> string" where
  "number_base s =
     (case s of
        c # x # h # _ \<Rightarrow>
          if c = CHR ''0'' \<and> (x = CHR ''x'' \<or> x = CHR ''X'') \<and> is_digit_in 16 h then (16, drop 2 s)
          else if c = CHR ''0'' then (8, s) else (10, s)
      | c # _ \<Rightarrow> if c = CHR ''0'' then (8, s) else (10, s)
      | [] \<Rightarrow> (10, s))"

definition strtoul0 :: "string \<Rightarrow> nat \<times> string" where
  "strtoul0 s =
     (case number_base s of
        (base, t) \<Rightarrow> (digits_val base (takeWhile (is_digit_in base) t), dropWhile (is_digit_in base) t))"

text \<open>\<open>inet_aton\<close>: up to four numbers separated by dots, the last one filling the remaining octets. \<open>n\<close> is the number of dots that may follow.\<close>

fun inet_parts :: "nat \<Rightarrow> string \<Rightarrow> (nat list \<times> nat) option" where
  "inet_parts n s =
     (if s = [] \<or> \<not> c_isdigit (hd s) then None
      else
        case strtoul0 s of (val, t) \<Rightarrow>
          if t \<noteq> [] \<and> hd t = CHR ''.'' then
            (case n of
               0 \<Rightarrow> None
             | Suc n \<Rightarrow> if val > 255 then None else map_option (\<lambda>(vs, v). (val # vs, v)) (inet_parts n (tl t)))
          else if t \<noteq> [] \<and> \<not> c_isspace (hd t) then None
          else Some ([], val))"

definition inet_aton :: "string \<Rightarrow> 32 word option" where
  "inet_aton s =
     (case inet_parts 3 s of
        None \<Rightarrow> None
      | Some (vs, v) \<Rightarrow>
          if v < 256 ^ (4 - length vs)
          then Some (of_nat (v + sum_list (map (\<lambda>(i, x). x * 256 ^ (3 - i)) (List.enumerate 0 vs))))
          else None)"

text \<open>The value of a number too large for \<open>int\<close>: the nearest \<open>long\<close>, cut to 32 bits, as the GNU C library has it.\<close>

definition scan_int :: "int \<Rightarrow> int" where
  "scan_int v = sint (word_of_int (max (- (2 ^ 63)) (min (2 ^ 63 - 1) v)) :: 32 word)"

text \<open>\<open>sscanf\<close> with \<open>%30d\<close> and \<open>%30i\<close>: white space, a sign, then digits; at most thirty characters after the white space.\<close>

definition scan_sign :: "string \<Rightarrow> int \<times> string" where
  "scan_sign s =
     (case s of c # t \<Rightarrow> if c = CHR ''-'' then (-1, t) else if c = CHR ''+'' then (1, t) else (1, s) | [] \<Rightarrow> (1, s))"

definition sscanf_d :: "string \<Rightarrow> int option" where
  "sscanf_d s =
     (case scan_sign (take 30 (dropWhile c_isspace s)) of
        (sg, t) \<Rightarrow> if t \<noteq> [] \<and> c_isdigit (hd t) then Some (scan_int (sg * int (digits_val 10 (takeWhile (is_digit_in 10) t)))) else None)"

definition sscanf_i :: "string \<Rightarrow> int option" where
  "sscanf_i s =
     (case scan_sign (take 30 (dropWhile c_isspace s)) of
        (sg, t) \<Rightarrow> if t \<noteq> [] \<and> c_isdigit (hd t) then Some (scan_int (sg * int (fst (strtoul0 t)))) else None)"

section \<open>Writing numbers and addresses\<close>

text \<open>A number as \<open>printf\<close> writes it.\<close>

fun dec :: "nat \<Rightarrow> string" where
  "dec n = (if n < 10 then [char_of (48 + n)] else dec (n div 10) @ [char_of (48 + n mod 10)])"

declare dec.simps [simp del]

definition dotted :: "nat \<Rightarrow> nat \<Rightarrow> nat \<Rightarrow> nat \<Rightarrow> string" where
  "dotted a b c d = dec a @ ''.'' @ dec b @ ''.'' @ dec c @ ''.'' @ dec d"

definition octet :: "nat \<Rightarrow> 32 word \<Rightarrow> nat" where
  "octet i w = unat (drop_bit (8 * i) w) mod 256"

text \<open>The text of an address; the buffer of the thread is assumed to be there.\<close>

definition ast_inet_ntoa :: "32 word \<Rightarrow> string" where
  "ast_inet_ntoa w = dotted (octet 3 w) (octet 2 w) (octet 1 w) (octet 0 w)"

section \<open>Decimal numbers\<close>

lemma c_code_digit: "d < 10 \<Longrightarrow> c_code (char_of (48 + d)) = 48 + d"
  by (simp add: c_code_def)

lemma digit_val_digit: "d < 10 \<Longrightarrow> digit_val (char_of (48 + d)) = Some d"
  by (simp add: digit_val_def c_code_digit)

lemma dec_digits: "\<forall>c\<in>set (dec n). is_digit_in 10 c \<and> c_isdigit c"
proof (induction n rule: dec.induct)
  case (1 n)
  have "is_digit_in 10 (char_of (48 + d)) \<and> c_isdigit (char_of (48 + d))" if "d < 10" for d :: nat
    using that by (simp add: is_digit_in_def digit_val_digit c_isdigit_def c_code_digit)
  with 1 show ?case by (subst dec.simps) auto
qed

lemma dec_nonempty [simp]: "dec n \<noteq> []"
  by (subst dec.simps) simp

lemma digits_val_snoc: "digits_val b (s @ [c]) = b * digits_val b s + the (digit_val c)"
  by (simp add: digits_val_def)

lemma digits_val_dec: "digits_val 10 (dec n) = n"
proof (induction n rule: dec.induct)
  case (1 n)
  show ?case
  proof (cases "n < 10")
    case True
    then show ?thesis by (subst dec.simps) (simp add: digits_val_def digit_val_digit)
  next
    case False
    then have "digits_val 10 (dec n) = 10 * (n div 10) + n mod 10"
      using 1 digit_val_digit [of "n mod 10"] by (subst dec.simps) (simp add: digits_val_snoc)
    then show ?thesis by simp
  qed
qed

lemma dec_leading_zero: "hd (dec n) = CHR ''0'' \<Longrightarrow> n = 0"
proof (induction n rule: dec.induct)
  case (1 n)
  show ?case
  proof (cases "n < 10")
    case True
    with "1.prems" have "c_code (char_of (48 + n)) = 48" by (subst (asm) dec.simps) (simp add: c_code_def)
    with True show ?thesis by (simp add: c_code_digit)
  next
    case False
    with "1.prems" have "hd (dec (n div 10)) = CHR ''0''" by (subst (asm) dec.simps) simp
    with 1(1) False show ?thesis by simp
  qed
qed

lemma takeWhile_dec:
  assumes "t = [] \<or> \<not> is_digit_in 10 (hd t)"
  shows "takeWhile (is_digit_in 10) (dec n @ t) = dec n" "dropWhile (is_digit_in 10) (dec n @ t) = t"
  using assms dec_digits [of n] by (cases t; simp add: takeWhile_append2 dropWhile_append2)+

lemma dec_zero: "dec 0 = ''0''"
  by code_simp

text \<open>A decimal number in front of something that is not one is read back.\<close>

lemma strtoul0_dec:
  assumes "t = [] \<or> (\<not> is_digit_in 16 (hd t) \<and> hd t \<noteq> CHR ''x'' \<and> hd t \<noteq> CHR ''X'')"
  shows "strtoul0 (dec n @ t) = (n, t)"
proof (cases "n = 0")
  case True
  have "number_base (''0'' @ t) = (8, ''0'' @ t)" using assms by (cases t) (auto simp: number_base_def split: list.splits)
  moreover have "is_digit_in 8 CHR ''0''" "digits_val 8 ''0'' = 0" by code_simp+
  moreover have "t = [] \<or> \<not> is_digit_in 8 (hd t)" using assms by (auto simp: is_digit_in_def split: option.splits)
  ultimately show ?thesis using True by (cases t) (simp_all add: strtoul0_def dec_zero)
next
  case False
  have "hd (dec n @ t) \<noteq> CHR ''0''" using False dec_leading_zero [of n] by auto
  then have "number_base (dec n @ t) = (10, dec n @ t)"
    by (cases "dec n @ t") (auto simp: number_base_def split: list.splits)
  moreover have "t = [] \<or> \<not> is_digit_in 10 (hd t)" using assms by (auto simp: is_digit_in_def split: option.splits)
  ultimately show ?thesis by (simp add: strtoul0_def takeWhile_dec digits_val_dec)
qed

definition ip :: "nat \<Rightarrow> nat \<Rightarrow> nat \<Rightarrow> nat \<Rightarrow> 32 word" where
  "ip a b c d = of_nat (a * 256 ^ 3 + b * 256 ^ 2 + c * 256 + d)"

lemma inet_parts_dot:
  assumes "n < 256"
  shows "inet_parts (Suc k) (dec n @ CHR ''.'' # t) = map_option (\<lambda>(vs, v). (n # vs, v)) (inet_parts k t)"
proof -
  have "strtoul0 (dec n @ CHR ''.'' # t) = (n, CHR ''.'' # t)"
    by (rule strtoul0_dec) (simp add: is_digit_in_def digit_val_def c_code_def)
  moreover have "c_isdigit (hd (dec n))" using dec_digits [of n] dec_nonempty [of n] by (meson hd_in_set)
  ultimately show ?thesis using assms by (subst inet_parts.simps) simp
qed

lemma inet_parts_last: "inet_parts k (dec n) = Some ([], n)"
proof -
  have "strtoul0 (dec n) = (n, [])" using strtoul0_dec [of "[]" n] by simp
  moreover have "c_isdigit (hd (dec n))" using dec_digits [of n] dec_nonempty [of n] by (meson hd_in_set)
  ultimately show ?thesis by (subst inet_parts.simps) simp
qed

lemma inet_aton_dotted:
  assumes "a < 256" "b < 256" "c < 256" "d < 256"
  shows "inet_aton (dotted a b c d) = Some (ip a b c d)"
proof -
  have "inet_parts 3 (dotted a b c d) = Some ([a, b, c], d)"
    using assms by (simp add: dotted_def inet_parts_dot inet_parts_last numeral_3_eq_3 del: inet_parts.simps)
  then show ?thesis using assms(4) by (simp add: inet_aton_def ip_def enumerate_eq_zip ac_simps)
qed

lemma scan_int_small: "0 \<le> v \<Longrightarrow> v < 2 ^ 31 \<Longrightarrow> scan_int v = v"
  by (simp add: scan_int_def min_def max_def sint_sbintrunc' signed_take_bit_int_eq_self)

lemma c_isspace_digit: "c_isdigit c \<Longrightarrow> \<not> c_isspace c"
  by (auto simp: c_isdigit_def c_isspace_def)

lemma scan_sign_digit: "c_isdigit (hd s) \<Longrightarrow> s \<noteq> [] \<Longrightarrow> scan_sign s = (1, s)"
  by (cases s) (auto simp: scan_sign_def c_isdigit_def c_code_def)

lemma hd_dec: "c_isdigit (hd (dec n))"
  using dec_digits [of n] dec_nonempty [of n] by (meson hd_in_set)

lemma length_dec: "n < 10 ^ k \<Longrightarrow> 0 < k \<Longrightarrow> length (dec n) \<le> k"
proof (induction n arbitrary: k rule: dec.induct)
  case (1 n)
  show ?case
  proof (cases "n < 10")
    case True
    with "1.prems" show ?thesis by (subst dec.simps) simp
  next
    case False
    with "1.prems" obtain j where k: "k = Suc j" "0 < j" by (cases k; cases "k - 1") auto
    with "1.prems" have "n div 10 < 10 ^ j" by (simp add: less_mult_imp_div_less mult.commute)
    with False 1(1) k have "length (dec (n div 10)) \<le> j" by simp
    with False k show ?thesis by (subst dec.simps) simp
  qed
qed

lemma sscanf_d_dec:
  assumes "n < 10 ^ 9"
  shows "sscanf_d (dec n) = Some (int n)"
proof -
  have "dropWhile c_isspace (dec n) = dec n"
    using c_isspace_digit [OF hd_dec [of n]] dec_nonempty [of n] by (cases "dec n") simp_all
  moreover have "take 30 (dec n) = dec n" using length_dec [of n 9] assms by simp
  moreover have "takeWhile (is_digit_in 10) (dec n) = dec n" using takeWhile_dec(1) [of "[]" n] unfolding append_Nil2 by blast
  ultimately show ?thesis
    using assms digits_val_dec [of n] unfolding sscanf_d_def by (simp add: scan_sign_digit hd_dec scan_int_small del: takeWhile_eq_all_conv)
qed

lemma octet_less: "octet i w < 256"
  by (simp add: octet_def)

lemma ip_octets: "ip (octet 3 w) (octet 2 w) (octet 1 w) (octet 0 w) = w"
proof -
  define n where "n = unat w"
  have n: "n < 2 ^ 32" using unsigned_less [of w, where ?'a = nat] by (simp add: n_def)
  have o: "octet i w = n div 2 ^ (8 * i) mod 256" for i
    unfolding octet_def n_def unat_drop_bit_eq by (simp add: drop_bit_eq_div)
  define q1 where "q1 = n div 256"
  define q2 where "q2 = q1 div 256"
  define q3 where "q3 = q2 div 256"
  have q3: "q3 < 256" using n by (simp add: q3_def q2_def q1_def flip: div_mult2_eq)
  have d: "n = q1 * 256 + n mod 256" "q1 = q2 * 256 + q1 mod 256" "q2 = q3 * 256 + q2 mod 256"
    by (simp_all add: q1_def q2_def q3_def)
  have "octet 3 w = q3" using q3 by (simp add: o q3_def q2_def q1_def flip: div_mult2_eq)
  moreover have "octet 2 w = q2 mod 256" "octet 1 w = q1 mod 256" "octet 0 w = n mod 256"
    by (simp_all add: o q2_def q1_def flip: div_mult2_eq)
  ultimately have "octet 3 w * 256 ^ 3 + octet 2 w * 256 ^ 2 + octet 1 w * 256 + octet 0 w = n"
    using d by simp
  then show ?thesis by (simp add: ip_def n_def)
qed

text \<open>An address that is printed is read back.\<close>

lemma inet_roundtrip: "inet_aton (ast_inet_ntoa w) = Some w"
  using ip_octets [of w] by (simp add: ast_inet_ntoa_def inet_aton_dotted octet_less)

text \<open>In particular the printed text tells addresses apart.\<close>

lemma ast_inet_ntoa_inject: "ast_inet_ntoa v = ast_inet_ntoa w \<longleftrightarrow> v = w"
  by (metis inet_roundtrip option.inject)

lemma dec_chars: "c \<in> set (dec n) \<Longrightarrow> c_isdigit c"
  using dec_digits by blast

lemma dec_no_punct: "CHR ''/'' \<notin> set (dec n)" "CHR ''.'' \<notin> set (dec n)"
  using dec_chars [of "CHR ''/''" n] dec_chars [of "CHR ''.''" n] by (auto simp: c_isdigit_def c_code_def)

lemma ntoa_no_slash: "CHR ''/'' \<notin> set (ast_inet_ntoa w)"
  by (auto simp: ast_inet_ntoa_def dotted_def dec_no_punct)

lemma length_ntoa: "length (ast_inet_ntoa w) \<le> 15"
proof -
  have "length (dec (octet i w)) \<le> 3" for i using length_dec [of "octet i w" 3] octet_less [of i w] by simp
  from this [of 3] this [of 2] this [of 1] this [of 0] show ?thesis
    by (simp add: ast_inet_ntoa_def dotted_def)
qed


end
