(* ===== verification/Acl.thy ===== *)
theory Acl
  imports Inet
begin

text \<open>
  Host access rules and type-of-service names, \<open>main/acl.c\<close>.

  \<^item> A list of rules is a chain of nodes. \<open>Ha_junk\<close> is a \<open>next\<close> pointer never written, \<open>None\<close> the result of
    following one.
  \<^item> \<open>junk\<close> is the content of the netmask field of freshly allocated memory, \<open>alloc\<close> says whether the
    allocator returns a node.
\<close>

section \<open>Rules\<close>

definition AST_SENSE_DENY :: int where "AST_SENSE_DENY = 0"
definition AST_SENSE_ALLOW :: int where "AST_SENSE_ALLOW = 1"

record ast_ha =
  ha_netaddr :: "32 word"
  ha_netmask :: "32 word"
  ha_sense :: int

datatype ha_list = Ha_nil | Ha_junk | Ha_node ast_ha ha_list

definition ast_copy_ha :: "ast_ha \<Rightarrow> ast_ha \<Rightarrow> ast_ha" where
  "ast_copy_ha from to =
     to\<lparr> ha_netaddr := ha_netaddr from, ha_netmask := ha_netmask from, ha_sense := ha_sense from \<rparr>"

text \<open>A duplicate, with a \<open>next\<close> pointer nobody wrote; \<open>old\<close> is the content of the memory.\<close>

definition ast_duplicate_ha :: "bool \<Rightarrow> ast_ha \<Rightarrow> ast_ha \<Rightarrow> ast_ha option" where
  "ast_duplicate_ha alloc old original = (if alloc then Some (ast_copy_ha original old) else None)"

fun ends_junk :: "ha_list \<Rightarrow> bool" where
  "ends_junk Ha_nil = False"
| "ends_junk Ha_junk = True"
| "ends_junk (Ha_node h rest) = ends_junk rest"

text \<open>
  The copy of the rest of a list, as it hangs on the copy of the node before; \<open>alloc n\<close> is the \<open>n\<close>th answer of the
  allocator. When it fails the copy ends there, and what is copied later is not linked to anything.
\<close>

fun duplicate_rest :: "ast_ha \<Rightarrow> (nat \<Rightarrow> bool) \<Rightarrow> nat \<Rightarrow> ha_list \<Rightarrow> ha_list option" where
  "duplicate_rest old alloc n Ha_nil = Some Ha_junk"
| "duplicate_rest old alloc n Ha_junk = None"
| "duplicate_rest old alloc n (Ha_node ha rest) =
     (case ast_duplicate_ha (alloc n) old ha of
        Some link \<Rightarrow> map_option (Ha_node link) (duplicate_rest old alloc (n + 1) rest)
      | None \<Rightarrow> if ends_junk rest then None else Some Ha_nil)"

fun ast_duplicate_ha_list :: "ast_ha \<Rightarrow> (nat \<Rightarrow> bool) \<Rightarrow> nat \<Rightarrow> ha_list \<Rightarrow> ha_list option" where
  "ast_duplicate_ha_list old alloc n Ha_nil = Some Ha_nil"
| "ast_duplicate_ha_list old alloc n Ha_junk = None"
| "ast_duplicate_ha_list old alloc n (Ha_node ha rest) =
     (case ast_duplicate_ha (alloc n) old ha of
        Some link \<Rightarrow> map_option (Ha_node link) (duplicate_rest old alloc (n + 1) rest)
      | None \<Rightarrow> ast_duplicate_ha_list old alloc (n + 1) rest)"

text \<open>The prefix as a mask, one bit per round.\<close>

fun prefix_mask :: "nat \<Rightarrow> 32 word \<Rightarrow> 32 word" where
  "prefix_mask 0 y = y"
| "prefix_mask (Suc z) y = prefix_mask z (drop_bit 1 y OR 0x80000000)"

fun ha_append :: "ast_ha \<Rightarrow> ha_list \<Rightarrow> ha_list option" where
  "ha_append ha Ha_nil = Some (Ha_node ha Ha_nil)"
| "ha_append ha Ha_junk = None"
| "ha_append ha (Ha_node h rest) = map_option (Ha_node h) (ha_append ha rest)"

definition split_slash :: "string \<Rightarrow> string \<times> string" where
  "split_slash tmp =
     (if CHR ''/'' \<in> set tmp
      then (takeWhile (\<lambda>c. c \<noteq> CHR ''/'') tmp, tl (dropWhile (\<lambda>c. c \<noteq> CHR ''/'') tmp))
      else (tmp, ''255.255.255.255''))"

text \<open>The netmask of a rule: from a prefix length, which must lie between 0 and 32 or the field is not written, or from a dotted mask.\<close>

definition rule_mask :: "32 word \<Rightarrow> string \<Rightarrow> 32 word option" where
  "rule_mask junk nm =
     (if CHR ''.'' \<notin> set nm then
        Some (case sscanf_d nm of
                Some x \<Rightarrow> if 0 \<le> x \<and> x \<le> 32 then prefix_mask (nat x) 0 else junk
              | None \<Rightarrow> junk)
      else inet_aton nm)"

definition make_rule :: "32 word \<Rightarrow> string \<Rightarrow> string \<Rightarrow> ast_ha option" where
  "make_rule junk sense stuff =
     (case split_slash (take 255 stuff) of
        (tmp, nm) \<Rightarrow>
          do { m \<leftarrow> rule_mask junk nm;
               a \<leftarrow> inet_aton tmp;
               Some \<lparr> ha_netaddr = a AND m, ha_netmask = m,
                      ha_sense = (if sense \<noteq> [] \<and> c_tolower (hd sense) = CHR ''p'' then AST_SENSE_ALLOW else AST_SENSE_DENY) \<rparr> })"

definition ast_append_ha :: "bool \<Rightarrow> 32 word \<Rightarrow> string \<Rightarrow> string \<Rightarrow> ha_list \<Rightarrow> ha_list option" where
  "ast_append_ha alloc junk sense stuff path =
     (if ends_junk path then None
      else if \<not> alloc then Some path
      else case make_rule junk sense stuff of None \<Rightarrow> Some path | Some ha \<Rightarrow> ha_append ha path)"

fun apply_from :: "32 word \<Rightarrow> int \<Rightarrow> ha_list \<Rightarrow> int option" where
  "apply_from sin res Ha_nil = Some res"
| "apply_from sin res Ha_junk = None"
| "apply_from sin res (Ha_node ha rest) =
     apply_from sin (if sin AND ha_netmask ha = ha_netaddr ha then ha_sense ha else res) rest"

definition ast_apply_ha :: "ha_list \<Rightarrow> 32 word \<Rightarrow> int option" where
  "ast_apply_ha ha sin = apply_from sin AST_SENSE_ALLOW ha"

fun ast_free_ha :: "ha_list \<Rightarrow> unit option" where
  "ast_free_ha Ha_nil = Some ()"
| "ast_free_ha Ha_junk = None"
| "ast_free_ha (Ha_node ha rest) = ast_free_ha rest"

section \<open>Type of service\<close>

definition dscp_pool1 :: "(string \<times> 32 word) list" where
  "dscp_pool1 =
     [(''CS0'', 0x00), (''CS1'', 0x08), (''CS2'', 0x10), (''CS3'', 0x18), (''CS4'', 0x20), (''CS5'', 0x28),
      (''CS6'', 0x30), (''CS7'', 0x38), (''AF11'', 0x0A), (''AF12'', 0x0C), (''AF13'', 0x0E), (''AF21'', 0x12),
      (''AF22'', 0x14), (''AF23'', 0x16), (''AF31'', 0x1A), (''AF32'', 0x1C), (''AF33'', 0x1E), (''AF41'', 0x22),
      (''AF42'', 0x24), (''AF43'', 0x26), (''EF'', 0x2E)]"

definition IPTOS_LOWDELAY :: "32 word" where "IPTOS_LOWDELAY = 0x10"
definition IPTOS_THROUGHPUT :: "32 word" where "IPTOS_THROUGHPUT = 0x08"
definition IPTOS_RELIABILITY :: "32 word" where "IPTOS_RELIABILITY = 0x04"
definition IPTOS_MINCOST :: "32 word" where "IPTOS_MINCOST = 0x02"

definition ast_str2tos :: "string \<Rightarrow> 32 word option" where
  "ast_str2tos s =
     (case sscanf_i s of
        Some fval \<Rightarrow> Some (of_int fval AND 0xFF)
      | None \<Rightarrow>
          (case find (\<lambda>(name, space). strcaseeq s name) dscp_pool1 of
             Some (name, space) \<Rightarrow> Some (push_bit 2 space)
           | None \<Rightarrow>
               if strcaseeq s ''lowdelay'' then Some IPTOS_LOWDELAY
               else if strcaseeq s ''throughput'' then Some IPTOS_THROUGHPUT
               else if strcaseeq s ''reliability'' then Some IPTOS_RELIABILITY
               else if strcaseeq s ''mincost'' then Some IPTOS_MINCOST
               else if strcaseeq s ''none'' then Some 0
               else None))"

definition ast_tos2str :: "32 word \<Rightarrow> string" where
  "ast_tos2str tos =
     (if tos = 0 then ''none''
      else if tos = IPTOS_LOWDELAY then ''lowdelay''
      else if tos = IPTOS_THROUGHPUT then ''throughput''
      else if tos = IPTOS_RELIABILITY then ''reliability''
      else if tos = IPTOS_MINCOST then ''mincost''
      else case find (\<lambda>(name, space). space = drop_bit 2 tos) dscp_pool1 of
             Some (name, space) \<Rightarrow> name
           | None \<Rightarrow> ''unknown'')"


section \<open>What the rules decide\<close>

text \<open>The mask of a prefix length has the leading bits set.\<close>

lemma prefix_mask_bits:
  assumes "\<And>i. bit y i \<longleftrightarrow> i < 32 \<and> 32 - k \<le> i" "k + n \<le> 32"
  shows "bit (prefix_mask n y) i \<longleftrightarrow> i < 32 \<and> 32 - (k + n) \<le> i"
  using assms
proof (induction n arbitrary: y k i)
  case (Suc n)
  have "(0x80000000 :: 32 word) = 2 ^ 31" by simp
  then have *: "bit (drop_bit 1 y OR 0x80000000) i \<longleftrightarrow> i < 32 \<and> 32 - Suc k \<le> i" for i
    unfolding bit_or_iff bit_drop_bit_eq o_def Suc.prems(1) using Suc.prems(2)
    by (simp only: bit_exp_iff) (auto simp: bit_exp_iff)
  have "bit (prefix_mask n (drop_bit 1 y OR 0x80000000)) i \<longleftrightarrow> i < 32 \<and> 32 - (Suc k + n) \<le> i"
    by (rule Suc.IH [OF *]) (use Suc.prems(2) in simp)
  then show ?case by simp
qed simp

lemma prefix_mask_match:
  assumes "n \<le> 32"
  shows "v AND prefix_mask n 0 = w AND prefix_mask n 0 \<longleftrightarrow> drop_bit (32 - n) v = drop_bit (32 - n) (w :: 32 word)"
proof -
  have m: "bit (prefix_mask n 0) i \<longleftrightarrow> i < 32 \<and> 32 - n \<le> i" for i
    using prefix_mask_bits [of 0 0 n i] assms by simp
  have "v AND prefix_mask n 0 = w AND prefix_mask n 0 \<longleftrightarrow> (\<forall>i. 32 - n \<le> i \<and> i < 32 \<longrightarrow> bit v i = bit w i)"
    unfolding bit_eq_iff by (auto simp: bit_and_iff m)
  also have "\<dots> \<longleftrightarrow> (\<forall>i. 32 - n + i < 32 \<longrightarrow> bit v (32 - n + i) = bit w (32 - n + i))"
    by (metis le_add1 le_add_diff_inverse)
  also have "\<dots> \<longleftrightarrow> drop_bit (32 - n) v = drop_bit (32 - n) w"
    using bit_imp_le_length [of v] bit_imp_le_length [of w] unfolding bit_eq_iff
    by (simp add: bit_drop_bit_eq o_def) (metis add_lessD1 add.commute)
  finally show ?thesis .
qed

text \<open>A configuration line: permit or deny, a dotted address and a prefix length.\<close>

record acl_line =
  al_permit :: bool
  al_addr :: "32 word"
  al_prefix :: nat

definition line_sense :: "acl_line \<Rightarrow> string" where
  "line_sense l = (if al_permit l then ''permit'' else ''deny'')"

definition line_stuff :: "acl_line \<Rightarrow> string" where
  "line_stuff l = ast_inet_ntoa (al_addr l) @ ''/'' @ dec (al_prefix l)"

definition line_covers :: "32 word \<Rightarrow> acl_line \<Rightarrow> bool" where
  "line_covers w l = (drop_bit (32 - al_prefix l) w = drop_bit (32 - al_prefix l) (al_addr l))"

definition line_decides :: "acl_line \<Rightarrow> int" where
  "line_decides l = (if al_permit l then AST_SENSE_ALLOW else AST_SENSE_DENY)"

text \<open>The lines of a configuration, appended one after the other; every rule gets the memory it finds.\<close>

fun append_lines :: "(acl_line \<times> 32 word) list \<Rightarrow> ha_list \<Rightarrow> ha_list option" where
  "append_lines [] path = Some path"
| "append_lines ((l, junk) # ls) path =
     Option.bind (ast_append_ha True junk (line_sense l) (line_stuff l) path) (append_lines ls)"

definition line_rule :: "acl_line \<Rightarrow> ast_ha" where
  "line_rule l = \<lparr> ha_netaddr = al_addr l AND prefix_mask (al_prefix l) 0,
                   ha_netmask = prefix_mask (al_prefix l) 0, ha_sense = line_decides l \<rparr>"

lemma make_rule_line:
  assumes "al_prefix l \<le> 32"
  shows "make_rule junk (line_sense l) (line_stuff l) = Some (line_rule l)"
proof -
  have "length (dec (al_prefix l)) \<le> 2" using length_dec [of "al_prefix l" 2] assms by simp
  with length_ntoa [of "al_addr l"] have "take 255 (line_stuff l) = line_stuff l" by (simp add: line_stuff_def)
  moreover have "takeWhile (\<lambda>c. c \<noteq> CHR ''/'') (line_stuff l) = ast_inet_ntoa (al_addr l)"
    "dropWhile (\<lambda>c. c \<noteq> CHR ''/'') (line_stuff l) = ''/'' @ dec (al_prefix l)"
    using ntoa_no_slash [of "al_addr l"]
    by (auto simp: line_stuff_def takeWhile_append dropWhile_append takeWhile_eq_all_conv)
  ultimately have "split_slash (take 255 (line_stuff l)) = (ast_inet_ntoa (al_addr l), dec (al_prefix l))"
    by (simp add: split_slash_def) (simp add: line_stuff_def)
  then show ?thesis
    using assms by (auto simp: make_rule_def rule_mask_def dec_no_punct sscanf_d_dec inet_roundtrip line_rule_def
        line_decides_def line_sense_def c_tolower_def c_code_def)
qed

fun ha_of :: "ast_ha list \<Rightarrow> ha_list" where
  "ha_of [] = Ha_nil"
| "ha_of (h # hs) = Ha_node h (ha_of hs)"

lemma ha_append_of: "ha_append h (ha_of hs) = Some (ha_of (hs @ [h]))"
  by (induction hs) simp_all

lemma ends_junk_of: "\<not> ends_junk (ha_of hs)"
  by (induction hs) simp_all

lemma append_lines_of:
  "\<forall>(l, junk)\<in>set ls. al_prefix l \<le> 32 \<Longrightarrow>
   append_lines ls (ha_of hs) = Some (ha_of (hs @ map (line_rule \<circ> fst) ls))"
  by (induction ls arbitrary: hs)
    (auto simp: ast_append_ha_def ends_junk_of make_rule_line ha_append_of split_beta)

lemma find_snoc: "find P (xs @ [x]) = (case find P xs of Some y \<Rightarrow> Some y | None \<Rightarrow> if P x then Some x else None)"
  by (induction xs) auto

lemma apply_from_of:
  "apply_from w res (ha_of hs) =
     Some (case find (\<lambda>h. w AND ha_netmask h = ha_netaddr h) (rev hs) of None \<Rightarrow> res | Some h \<Rightarrow> ha_sense h)"
proof (induction hs arbitrary: res)
  case (Cons h hs)
  have "find P (rev (h # hs)) = (case find P (rev hs) of Some x \<Rightarrow> Some x | None \<Rightarrow> if P h then Some h else None)" for P
    by (simp add: find_snoc)
  then show ?case by (simp add: Cons split: option.splits)
qed simp

text \<open>
  C20. A configuration of permit and deny lines, each an address with a prefix length of at most 32, decides about every
  address by the last line whose prefix the address has, whatever the freshly allocated memory holds; an address that
  no line covers is allowed.
\<close>

theorem acl_last_line_decides:
  assumes "\<forall>(l, junk)\<in>set ls. al_prefix l \<le> 32"
  shows "Option.bind (append_lines ls Ha_nil) (\<lambda>ha. ast_apply_ha ha w) =
     Some (case find (line_covers w) (rev (map fst ls)) of None \<Rightarrow> AST_SENSE_ALLOW | Some l \<Rightarrow> line_decides l)"
proof -
  have "find (\<lambda>h. w AND ha_netmask h = ha_netaddr h) (map line_rule xs) = map_option line_rule (find (line_covers w) xs)"
    if "\<forall>l\<in>set xs. al_prefix l \<le> 32" for xs
    using that by (induction xs) (auto simp: line_rule_def line_covers_def prefix_mask_match)
  from this [of "rev (map fst ls)"] have
    "find (\<lambda>h. w AND ha_netmask h = ha_netaddr h) (rev (map (line_rule \<circ> fst) ls)) =
       map_option line_rule (find (line_covers w) (rev (map fst ls)))"
    using assms by (auto simp: rev_map split_beta)
  then show ?thesis
    using append_lines_of [OF assms, of "[]"]
    by (simp add: ast_apply_ha_def apply_from_of line_rule_def split: option.splits)
qed

theorem acl_last_line_decides_witness:
  "Option.bind (append_lines [(\<lparr> al_permit = False, al_addr = 0, al_prefix = 0 \<rparr>, 7),
                              (\<lparr> al_permit = True, al_addr = 0x0A010000, al_prefix = 16 \<rparr>, 9)] Ha_nil)
     (\<lambda>ha. ast_apply_ha ha 0x0A010203) = Some AST_SENSE_ALLOW"
  by (subst acl_last_line_decides) (simp_all add: line_covers_def line_decides_def drop_bit_eq_div)

text \<open>
  A prefix length outside the range is accepted silently and leaves the netmask unwritten: the line
  \<open>deny = 10.0.0.0/33\<close> denies every address if the allocator hands out zeroed memory, and no address but the network
  itself if the memory is full of ones.
\<close>

theorem acl_bad_prefix_uninitialised:
  "Option.bind (ast_append_ha True 0 ''deny'' ''10.0.0.0/33'' Ha_nil) (\<lambda>ha. ast_apply_ha ha w) = Some AST_SENSE_DENY \<and>
   Option.bind (ast_append_ha True (-1) ''deny'' ''10.0.0.0/33'' Ha_nil) (\<lambda>ha. ast_apply_ha ha w) =
     Some (if w = 0x0A000000 then AST_SENSE_DENY else AST_SENSE_ALLOW)"
proof -
  have d: "dec 33 = ''33''" "dec 10 = ''10''" by code_simp+
  have "sscanf_d ''33'' = Some 33" using sscanf_d_dec [of 33] by (simp add: d)
  then have "rule_mask junk ''33'' = Some junk" for junk by (simp add: rule_mask_def)
  moreover have "inet_aton ''10.0.0.0'' = Some 0x0A000000"
    using inet_aton_dotted [of 10 0 0 0] by (simp add: dotted_def d dec_zero ip_def)
  moreover have "split_slash (take 255 ''10.0.0.0/33'') = (''10.0.0.0'', ''33'')" by (simp add: split_slash_def)
  moreover have "c_tolower CHR ''d'' \<noteq> CHR ''p''" by (simp add: c_tolower_def c_code_def)
  ultimately show ?thesis
    by (simp add: ast_append_ha_def make_rule_def ast_apply_ha_def)
qed

section \<open>Copies of rules\<close>

lemma duplicate_rest_junk:
  "\<not> ends_junk rest \<Longrightarrow> \<forall>i. alloc i \<Longrightarrow>
   \<exists>c. duplicate_rest old alloc n rest = Some c \<and> ends_junk c"
  by (induction rest arbitrary: n) (fastforce simp: ast_duplicate_ha_def)+

lemma apply_from_junk: "ends_junk ha \<Longrightarrow> apply_from w res ha = None"
  by (induction ha arbitrary: res) auto

lemma ast_free_ha_junk: "ends_junk ha \<Longrightarrow> ast_free_ha ha = None"
  by (induction ha) auto

text \<open>
  The copy of a list of rules that is not empty ends in a pointer that nobody wrote, since the nodes come from
  \<open>malloc\<close> and \<open>ast_copy_ha\<close> leaves \<open>next\<close> alone: applying, extending or freeing the copy follows that pointer.
\<close>

theorem acl_duplicate_dangles:
  assumes "path \<noteq> Ha_nil" "\<not> ends_junk path" "\<forall>i. alloc i"
  shows "\<exists>c. ast_duplicate_ha_list old alloc n path = Some c \<and> ast_apply_ha c w = None \<and> ast_free_ha c = None \<and>
    ast_append_ha True junk sense stuff c = None"
proof -
  obtain ha rest where p: "path = Ha_node ha rest" using assms(1,2) by (cases path) auto
  with assms duplicate_rest_junk [of rest alloc old "n + 1"]
  obtain c where "duplicate_rest old alloc (n + 1) rest = Some c" "ends_junk c" by auto
  then show ?thesis
    using p assms(3)
    by (simp add: ast_duplicate_ha_def ast_apply_ha_def apply_from_junk ast_free_ha_junk ast_append_ha_def)
qed

theorem acl_duplicate_dangles_witness:
  "\<exists>c. ast_duplicate_ha_list \<lparr> ha_netaddr = 1, ha_netmask = 2, ha_sense = 3 \<rparr> (\<lambda>i. True) 0
         (Ha_node \<lparr> ha_netaddr = 0, ha_netmask = 0, ha_sense = AST_SENSE_DENY \<rparr> Ha_nil) = Some c \<and>
       ast_apply_ha c 0x0A000001 = None \<and> ast_free_ha c = None \<and> ast_append_ha True 0 ''permit'' ''10.0.0.1'' c = None"
  by (rule acl_duplicate_dangles) simp_all

section \<open>Type-of-service names\<close>

lemmas tos_names = ast_str2tos_def sscanf_i_def scan_sign_def c_isspace_def c_isdigit_def c_code_def strcaseeq_def c_tolower_def

lemma dscp_names_read: "list_all (\<lambda>(name, space). ast_str2tos name = Some (push_bit 2 space)) dscp_pool1"
  by (simp add: tos_names dscp_pool1_def)

lemma deprecated_names_read:
  "ast_str2tos ''none'' = Some 0" "ast_str2tos ''lowdelay'' = Some IPTOS_LOWDELAY"
  "ast_str2tos ''throughput'' = Some IPTOS_THROUGHPUT" "ast_str2tos ''reliability'' = Some IPTOS_RELIABILITY"
  "ast_str2tos ''mincost'' = Some IPTOS_MINCOST"
  by (simp_all add: tos_names dscp_pool1_def)

text \<open>A type of service that has a name is read back from it, up to the two bits that a code point does not show.\<close>

lemma tos_roundtrip:
  assumes "ast_tos2str tos \<noteq> ''unknown''"
  shows "ast_str2tos (ast_tos2str tos) =
    Some (if tos = IPTOS_LOWDELAY \<or> tos = IPTOS_THROUGHPUT \<or> tos = IPTOS_RELIABILITY \<or> tos = IPTOS_MINCOST then tos
          else push_bit 2 (drop_bit 2 tos))"
proof (cases "tos \<in> {0, IPTOS_LOWDELAY, IPTOS_THROUGHPUT, IPTOS_RELIABILITY, IPTOS_MINCOST}")
  case True
  then show ?thesis by (auto simp: ast_tos2str_def deprecated_names_read)
next
  case False
  with assms obtain name space where
    "find (\<lambda>(name, space). space = drop_bit 2 tos) dscp_pool1 = Some (name, space)"
    by (auto simp: ast_tos2str_def split: option.splits)
  moreover from this have "(name, space) \<in> set dscp_pool1" "space = drop_bit 2 tos"
    by (auto simp: find_Some_iff) (metis nth_mem)
  ultimately show ?thesis
    using False dscp_names_read by (auto simp: ast_tos2str_def list_all_iff)
qed

end
