(* ===== verification/Ourip.thy ===== *)
theory Ourip
  imports Inet
begin

text \<open>
  The search for the own address, \<open>main/acl.c\<close>: scores of interface addresses, the address of an interface, the address
  towards a peer. What the operating system answers (\<open>getifaddrs\<close>, \<open>socket\<close>, \<open>ioctl\<close>, \<open>connect\<close> with
  \<open>getsockname\<close>, \<open>gethostname\<close>, \<open>gethostbyname\<close>) is an argument of the operation. \<open>get_local_address\<close> is the version
  for Linux and the BSDs.
\<close>

section \<open>The own address\<close>

text \<open>The character at a place of a string, the null character after its end.\<close>

definition char_at :: "string \<Rightarrow> nat \<Rightarrow> char" where
  "char_at s i = (if i < length s then s ! i else CHR 0x00)"

definition strneq :: "string \<Rightarrow> string \<Rightarrow> nat \<Rightarrow> bool" where
  "strneq s t n = (take n s = take n t)"

definition address_score :: "string \<Rightarrow> int" where
  "address_score address =
     (if char_at address 0 = CHR ''0'' then -25
      else if strneq address ''127'' 3 then -20
      else if strneq address ''10.'' 3 then -5
      else if strneq address ''172'' 3 then
        (if char_at address 4 = CHR ''1'' \<and> c_code CHR ''6'' \<le> c_code (char_at address 5) \<and> char_at address 6 = CHR ''.'' then -5
         else if char_at address 4 = CHR ''2'' \<and> char_at address 6 = CHR ''.'' then -5
         else if char_at address 4 = CHR ''3'' \<and> (char_at address 5 = CHR ''0'' \<or> char_at address 5 = CHR ''1'') then -5
         else 0)
      else if strneq address ''198.1'' 5 \<and> c_code CHR ''8'' \<le> c_code (char_at address 5) \<and> char_at address 6 = CHR ''.'' then -10
      else if strneq address ''192.168'' 7 then -5
      else if strneq address ''169.254'' 7 then -10
      else if strneq address ''192.0.2.'' 8 then -15
      else 0)"

definition score_address :: "32 word \<Rightarrow> 32 word \<times> int \<Rightarrow> 32 word \<times> int" where
  "score_address sin best =
     (let score = address_score (ast_inet_ntoa sin) in if snd best < score then (sin, score) else best)"

text \<open>
  The interfaces in the order of \<open>getifaddrs\<close>; \<open>None\<close> is an interface without an Internet address.
\<close>

fun scan_interfaces :: "32 word option list \<Rightarrow> (32 word \<times> int) \<times> int \<Rightarrow> (32 word \<times> int) \<times> int" where
  "scan_interfaces [] (best, res) = (best, res)"
| "scan_interfaces (None # ifs) (best, res) = scan_interfaces ifs (best, res)"
| "scan_interfaces (Some sin # ifs) (best, res) =
     (let best' = score_address sin best in if snd best' = 0 then (best', 0) else scan_interfaces ifs (best', 0))"

definition get_local_address :: "32 word option list option \<Rightarrow> int \<Rightarrow> 32 word \<Rightarrow> 32 word \<times> int" where
  "get_local_address getifaddrs socket ourip =
     (case getifaddrs of
        None \<Rightarrow> (ourip, -1)
      | Some ifs \<Rightarrow>
          (case (if 0 < socket then scan_interfaces ifs ((0, -100), -1) else ((0, -100), -1)) of
             (best, res) \<Rightarrow> (if res = 0 then fst best else ourip, res)))"

definition our_default_ip :: "32 word" where "our_default_ip = 0"

definition ast_lookup_iface :: "(string \<Rightarrow> 32 word option) \<Rightarrow> string \<Rightarrow> 32 word \<times> int" where
  "ast_lookup_iface ioctl iface =
     (case ioctl (take 15 iface) of
        None \<Rightarrow> (our_default_ip, -1)
      | Some a \<Rightarrow> (a, 0))"

text \<open>\<open>route\<close> gives the own address of a datagram socket connected to port 5060 of a peer.\<close>

definition ast_ouraddrfor :: "int \<Rightarrow> (32 word \<Rightarrow> 32 word option) \<Rightarrow> 32 word \<Rightarrow> 32 word \<Rightarrow> 32 word \<times> int" where
  "ast_ouraddrfor socket route them us =
     (if socket < 0 then (us, -1) else case route them of None \<Rightarrow> (us, -1) | Some a \<Rightarrow> (a, 0))"

record os_answers =
  os_getifaddrs :: "32 word option list option"
  os_socket :: int
  os_route :: "32 word \<Rightarrow> 32 word option"
  os_hostname :: "string option"
  os_gethostbyname :: "string \<Rightarrow> 32 word option"

definition ast_find_ourip :: "os_answers \<Rightarrow> 32 word \<Rightarrow> 32 word \<Rightarrow> 32 word \<times> int" where
  "ast_find_ourip os bindaddr ourip =
     (if bindaddr \<noteq> 0 then (bindaddr, 0)
      else
        case Option.bind (os_hostname os) (os_gethostbyname os) of
          Some a \<Rightarrow> (a, 0)
        | None \<Rightarrow>
            (case inet_aton ''198.41.0.4'' of
               None \<Rightarrow> get_local_address (os_getifaddrs os) (os_socket os) ourip
             | Some saddr \<Rightarrow>
                 (case ast_ouraddrfor (os_socket os) (os_route os) saddr ourip of
                    (ourip', r) \<Rightarrow>
                      if r = 0 then (ourip', 0)
                      else get_local_address (os_getifaddrs os) (os_socket os) ourip')))"

section \<open>Scores of addresses\<close>

text \<open>
  The ranges of the RFCs that the scoring is after, on the octets: the local network, the loop back, the private
  networks, the benchmark and the link-local range, the test network; everything else is public.
\<close>

definition address_rank :: "nat \<Rightarrow> nat \<Rightarrow> nat \<Rightarrow> int" where
  "address_rank a b c =
     (if a = 0 then -25
      else if a = 127 then -20
      else if a = 10 \<or> a = 172 \<and> 16 \<le> b \<and> b \<le> 31 \<or> a = 192 \<and> b = 168 then -5
      else if a = 198 \<and> 18 \<le> b \<and> b \<le> 19 \<or> a = 169 \<and> b = 254 then -10
      else if a = 192 \<and> b = 0 \<and> c = 2 then -15
      else 0)"

lemma dec_inject: "dec a = dec b \<longleftrightarrow> a = b"
  by (metis digits_val_dec)

lemma dec_one: "n < 10 \<Longrightarrow> dec n = [char_of (48 + n)]"
  by (subst dec.simps) simp

lemma dec_two: "10 \<le> n \<Longrightarrow> n < 100 \<Longrightarrow> dec n = [char_of (48 + n div 10), char_of (48 + n mod 10)]"
  by (subst dec.simps) (simp add: dec_one)

lemma dec_three:
  "100 \<le> n \<Longrightarrow> n < 1000 \<Longrightarrow>
   dec n = [char_of (48 + n div 100), char_of (48 + n div 10 mod 10), char_of (48 + n mod 10)]"
  by (subst dec.simps) (simp add: dec_two flip: div_mult2_eq)

lemma digit_char_eq: "d < 10 \<Longrightarrow> char_of (48 + d) = c \<longleftrightarrow> c_code c = 48 + d"
  by (auto simp: c_code_def) (metis char_of_char)

lemma octet_cases:
  assumes "n < (256 :: nat)"
  obtains "n < 10" | "10 \<le> n" "n < 100" | "100 \<le> n" "n < 1000"
  using assms by linarith

lemma dec_prefix:
  assumes "\<forall>c\<in>set p. c_isdigit c"
  shows "take (Suc (length p)) (dec n @ CHR ''.'' # r) = p @ ''.'' \<longleftrightarrow> dec n = p"
proof
  assume l: "take (Suc (length p)) (dec n @ CHR ''.'' # r) = p @ ''.''"
  have dot: "\<not> c_isdigit CHR ''.''" by (simp add: c_isdigit_def c_code_def)
  have "takeWhile c_isdigit (take (Suc (length p)) (dec n @ CHR ''.'' # r)) = take (Suc (length p)) (dec n)"
    using dec_chars [of _ n] dot by (auto simp: take_append takeWhile_append take_Cons' dest: in_set_takeD)
  moreover have "takeWhile c_isdigit (p @ ''.'') = p" using assms dot by (simp add: takeWhile_append)
  ultimately have "take (Suc (length p)) (dec n) = p" using l by simp
  then show "dec n = p" by (metis Suc_n_not_le_n length_take min_def take_all_iff nat_le_linear)
qed simp

lemma octet_prefix:
  assumes "n < 256" "length p = 3" "\<forall>c\<in>set p. c_isdigit c"
  shows "take 3 (dec n @ CHR ''.'' # r) = p \<longleftrightarrow> dec n = p"
proof
  assume l: "take 3 (dec n @ CHR ''.'' # r) = p"
  have "length (dec n) \<le> 3" using length_dec [of n 3] assms(1) by simp
  moreover have "length (dec n) \<ge> 3"
  proof (rule ccontr)
    assume "\<not> 3 \<le> length (dec n)"
    then have "CHR ''.'' \<in> set (take 3 (dec n @ CHR ''.'' # r))" by (simp add: take_Cons')
    with l assms(3) show False by (auto simp: c_isdigit_def c_code_def)
  qed
  ultimately show "dec n = p" using l by simp
qed (use assms(2) in simp)

lemma strneq_octet:
  "n < 256 \<Longrightarrow> length (dec m) = 3 \<Longrightarrow> strneq (dec n @ CHR ''.'' # r) (dec m) 3 \<longleftrightarrow> n = m"
  using octet_prefix [of n "dec m" r] dec_chars by (simp add: strneq_def dec_inject)

lemma strneq_shorter: "strneq s t (j + k) \<Longrightarrow> strneq s t j"
  unfolding strneq_def by (metis le_add1 min.absorb1 take_take)

lemma strneq_dot: "strneq (dec n @ CHR ''.'' # r) (dec m @ ''.'' @ q) (Suc (length (dec m) + k)) \<longleftrightarrow> n = m \<and> strneq r q k"
proof
  assume l: "strneq (dec n @ CHR ''.'' # r) (dec m @ ''.'' @ q) (Suc (length (dec m) + k))"
  then have "strneq (dec n @ CHR ''.'' # r) (dec m @ ''.'' @ q) (Suc (length (dec m)))"
    using strneq_shorter [of _ _ "Suc (length (dec m))" k] by simp
  then have "take (Suc (length (dec m))) (dec n @ CHR ''.'' # r) = dec m @ ''.''" by (simp add: strneq_def)
  then have "n = m" using dec_prefix [of "dec m" n r] dec_chars by (simp add: dec_inject)
  with l show "n = m \<and> strneq r q k" by (simp add: strneq_def)
qed (simp add: strneq_def)

lemma code_literals [simp]:
  "c_code CHR ''0'' = 48" "c_code CHR ''1'' = 49" "c_code CHR ''2'' = 50" "c_code CHR ''3'' = 51"
  "c_code CHR ''6'' = 54" "c_code CHR ''8'' = 56" "c_code CHR ''.'' = 46"
  by (simp_all add: c_code_def)

lemma octet_chars:
  "b < 10 \<Longrightarrow> char_at (dec b @ CHR ''.'' # r) 0 = char_of (48 + b)"
  "b < 10 \<Longrightarrow> char_at (dec b @ CHR ''.'' # r) 1 = CHR ''.''"
  "10 \<le> b \<Longrightarrow> b < 100 \<Longrightarrow> char_at (dec b @ CHR ''.'' # r) 0 = char_of (48 + b div 10)"
  "10 \<le> b \<Longrightarrow> b < 100 \<Longrightarrow> char_at (dec b @ CHR ''.'' # r) 1 = char_of (48 + b mod 10)"
  "10 \<le> b \<Longrightarrow> b < 100 \<Longrightarrow> char_at (dec b @ CHR ''.'' # r) 2 = CHR ''.''"
  "100 \<le> b \<Longrightarrow> b < 1000 \<Longrightarrow> char_at (dec b @ CHR ''.'' # r) 0 = char_of (48 + b div 100)"
  "100 \<le> b \<Longrightarrow> b < 1000 \<Longrightarrow> char_at (dec b @ CHR ''.'' # r) 1 = char_of (48 + b div 10 mod 10)"
  "100 \<le> b \<Longrightarrow> b < 1000 \<Longrightarrow> char_at (dec b @ CHR ''.'' # r) 2 = char_of (48 + b mod 10)"
  by (simp_all add: char_at_def dec_one dec_two dec_three)

lemma teens:
  assumes "b = q * 10 + r" "r < 10"
  shows "q = Suc 0 \<and> k \<le> r \<longleftrightarrow> 10 + k \<le> b \<and> b \<le> (19 :: nat)"
proof -
  consider "q = 0" | "q = 1" | "2 \<le> q" by linarith
  then show ?thesis using assms by cases auto
qed

lemma thirties:
  assumes "b = q * 10 + r" "r < 10"
  shows "q = 3 \<and> (r = 0 \<or> r = Suc 0) \<longleftrightarrow> 30 \<le> b \<and> b \<le> (31 :: nat)"
proof -
  consider "q \<le> 2" | "q = 3" | "4 \<le> q" by linarith
  then show ?thesis using assms by cases auto
qed

lemma second_octet_teens:
  assumes "b < 256" "5 \<le> k" "k \<le> 9"
  shows "(char_at (dec b @ CHR ''.'' # r) 0 = CHR ''1'' \<and> 48 + k \<le> c_code (char_at (dec b @ CHR ''.'' # r) 1) \<and>
          char_at (dec b @ CHR ''.'' # r) 2 = CHR ''.'') \<longleftrightarrow> 10 + k \<le> b \<and> b \<le> 19"
  using assms(1)
proof (cases b rule: octet_cases)
  case 1
  with assms show ?thesis by (simp add: octet_chars del: One_nat_def)
next
  case 2
  then have "b div 10 = Suc 0 \<and> k \<le> b mod 10 \<longleftrightarrow> 10 + k \<le> b \<and> b \<le> 19"
    by (intro teens) simp_all
  with 2 show ?thesis by (simp add: octet_chars digit_char_eq c_code_digit del: One_nat_def)
next
  case 3
  then show ?thesis using assms by (simp add: octet_chars digit_char_eq del: One_nat_def)
qed

lemma second_octet_twenties:
  assumes "b < 256"
  shows "(char_at (dec b @ CHR ''.'' # r) 0 = CHR ''2'' \<and> char_at (dec b @ CHR ''.'' # r) 2 = CHR ''.'') \<longleftrightarrow>
    20 \<le> b \<and> b \<le> 29 \<or> b = 2 \<and> char_at r 0 = CHR ''.''"
  using assms
proof (cases b rule: octet_cases)
  case 1
  then have "char_at (dec b @ CHR ''.'' # r) 2 = char_at r 0" by (simp add: char_at_def dec_one)
  with 1 show ?thesis by (auto simp: octet_chars digit_char_eq del: One_nat_def)
next
  case 2
  then have "b div 10 = 2 \<longleftrightarrow> 20 \<le> b \<and> b \<le> 29"
    using div_mult_mod_eq [of b 10] mod_less_divisor [of 10 b] by linarith
  with 2 show ?thesis by (auto simp: octet_chars digit_char_eq del: One_nat_def)
next
  case 3
  then show ?thesis using assms by (simp add: octet_chars digit_char_eq del: One_nat_def)
qed

lemma second_octet_thirties:
  assumes "b < 256"
  shows "(char_at (dec b @ CHR ''.'' # r) 0 = CHR ''3'' \<and>
      (char_at (dec b @ CHR ''.'' # r) 1 = CHR ''0'' \<or> char_at (dec b @ CHR ''.'' # r) 1 = CHR ''1'')) \<longleftrightarrow>
    30 \<le> b \<and> b \<le> 31"
  using assms
proof (cases b rule: octet_cases)
  case 1
  then show ?thesis by (simp add: octet_chars del: One_nat_def)
next
  case 2
  then have "b div 10 = 3 \<and> (b mod 10 = 0 \<or> b mod 10 = Suc 0) \<longleftrightarrow> 30 \<le> b \<and> b \<le> 31"
    by (intro thirties) simp_all
  with 2 show ?thesis by (simp add: octet_chars digit_char_eq del: One_nat_def)
next
  case 3
  then have "b div 100 \<noteq> 3" using assms by linarith
  with 3 show ?thesis using assms by (simp add: octet_chars digit_char_eq del: One_nat_def)
qed

lemma char_at_shift: "char_at (s @ CHR ''.'' # t) (Suc (length s + i)) = char_at t i"
  by (simp add: char_at_def nth_append)

lemma strneq_first: "strneq (dec b @ CHR ''.'' # r) ''1'' 1 \<longleftrightarrow> char_at (dec b @ CHR ''.'' # r) 0 = CHR ''1''"
  by (cases "dec b") (simp_all add: strneq_def char_at_def)

lemma first_zero: "char_at (dec a @ r) 0 = CHR ''0'' \<longleftrightarrow> a = 0"
proof -
  have "char_at (dec a @ r) 0 = hd (dec a)" by (cases "dec a") (auto simp: char_at_def)
  then show ?thesis using dec_leading_zero [of a] by (auto simp: dec_zero)
qed

lemma dec_literals:
  "dec 127 = ''127''" "dec 10 = ''10''" "dec 172 = ''172''" "dec 198 = ''198''" "dec 192 = ''192''"
  "dec 168 = ''168''" "dec 169 = ''169''" "dec 254 = ''254''" "dec 2 = ''2''"
  by code_simp+

lemma address_prefixes:
  assumes "a < 256" "b < 256" "c < 256"
  defines "s \<equiv> \<lambda>d. dec b @ CHR ''.'' # dec c @ CHR ''.'' # dec d"
  shows "strneq (dec a @ CHR ''.'' # s d) ''127'' 3 \<longleftrightarrow> a = 127"
    "strneq (dec a @ CHR ''.'' # s d) ''10.'' 3 \<longleftrightarrow> a = 10"
    "strneq (dec a @ CHR ''.'' # s d) ''172'' 3 \<longleftrightarrow> a = 172"
    "strneq (dec a @ CHR ''.'' # s d) ''198.1'' 5 \<longleftrightarrow> a = 198 \<and> strneq (s d) ''1'' 1"
    "strneq (dec a @ CHR ''.'' # s d) ''192.168'' 7 \<longleftrightarrow> a = 192 \<and> b = 168"
    "strneq (dec a @ CHR ''.'' # s d) ''169.254'' 7 \<longleftrightarrow> a = 169 \<and> b = 254"
    "strneq (dec a @ CHR ''.'' # s d) ''192.0.2.'' 8 \<longleftrightarrow> a = 192 \<and> b = 0 \<and> c = 2"
proof -
  have five: "Suc (Suc (Suc (Suc (Suc 0)))) = 5" by simp
  have two: "Suc (Suc 0) = 2" and four: "Suc (Suc (Suc (Suc 0))) = 4" by simp_all
  have e: "strneq u [] 0" for u by (simp add: strneq_def)
  show "strneq (dec a @ CHR ''.'' # s d) ''127'' 3 \<longleftrightarrow> a = 127"
    using strneq_octet [of a 127 "s d"] assms(1) by (simp add: dec_literals)
  show "strneq (dec a @ CHR ''.'' # s d) ''10.'' 3 \<longleftrightarrow> a = 10"
    using strneq_dot [of a "s d" 10 "[]" 0] by (simp add: dec_literals e numeral_3_eq_3)
  show "strneq (dec a @ CHR ''.'' # s d) ''172'' 3 \<longleftrightarrow> a = 172"
    using strneq_octet [of a 172 "s d"] assms(1) by (simp add: dec_literals)
  show "strneq (dec a @ CHR ''.'' # s d) ''198.1'' 5 \<longleftrightarrow> a = 198 \<and> strneq (s d) ''1'' 1"
    using strneq_dot [of a "s d" 198 "''1''" 1] by (simp add: dec_literals five)
  show "strneq (dec a @ CHR ''.'' # s d) ''192.168'' 7 \<longleftrightarrow> a = 192 \<and> b = 168"
    using strneq_dot [of a "s d" 192 "''168''" 3] strneq_octet [of b 168 "dec c @ CHR ''.'' # dec d"] assms(2)
    by (simp add: dec_literals s_def)
  show "strneq (dec a @ CHR ''.'' # s d) ''169.254'' 7 \<longleftrightarrow> a = 169 \<and> b = 254"
    using strneq_dot [of a "s d" 169 "''254''" 3] strneq_octet [of b 254 "dec c @ CHR ''.'' # dec d"] assms(2)
    by (simp add: dec_literals s_def)
  show "strneq (dec a @ CHR ''.'' # s d) ''192.0.2.'' 8 \<longleftrightarrow> a = 192 \<and> b = 0 \<and> c = 2"
    using strneq_dot [of a "s d" 192 "''0.2.''" 4] strneq_dot [of b "dec c @ CHR ''.'' # dec d" 0 "''2.''" 2]
      strneq_dot [of c "dec d" 2 "[]" 0]
    by (simp add: dec_literals dec_zero s_def e two four)
qed

text \<open>
  The comparisons of single characters of the printed address decide the ranges they are meant to.
\<close>

lemma address_score_rank:
  assumes "a < 256" "b < 256" "c < 256"
  shows "address_score (dotted a b c d) = address_rank a b c"
proof -
  define t where "t = dec c @ CHR ''.'' # dec d"
  define s where "s = dec b @ CHR ''.'' # t"
  have dotted: "dotted a b c d = dec a @ CHR ''.'' # s" by (simp add: dotted_def s_def t_def)
  have t0: "char_at t 0 \<noteq> CHR ''.''"
    using dec_nonempty [of c] hd_dec [of c] by (cases "dec c") (auto simp: t_def char_at_def c_isdigit_def)
  note pre = address_prefixes [OF assms, of d, folded t_def, folded s_def]
  have at: "char_at (dec a @ CHR ''.'' # s) 4 = char_at s 0" "char_at (dec a @ CHR ''.'' # s) 5 = char_at s 1"
      "char_at (dec a @ CHR ''.'' # s) 6 = char_at s 2" if "length (dec a) = 3"
    using char_at_shift [of "dec a" s 0] char_at_shift [of "dec a" s 1] char_at_shift [of "dec a" s 2] that
    by (simp_all add: eval_nat_numeral)
  consider "a = 172" | "a = 198" | "a \<noteq> 172" "a \<noteq> 198" by blast
  then show ?thesis
  proof cases
    case 1
    then have l: "length (dec a) = 3" by (simp add: dec_literals)
    have "(char_at s 0 = CHR ''1'' \<and> 54 \<le> c_code (char_at s 1) \<and> char_at s 2 = CHR ''.'') \<longleftrightarrow> 16 \<le> b \<and> b \<le> 19"
      using second_octet_teens [OF assms(2), of 6 t, folded s_def] by simp
    moreover note second_octet_twenties [OF assms(2), of t, folded s_def] second_octet_thirties [OF assms(2), of t, folded s_def]
    ultimately show ?thesis
      unfolding dotted address_score_def pre first_zero address_rank_def at [OF l] code_literals using 1 t0 by simp
  next
    case 2
    then have l: "length (dec a) = 3" by (simp add: dec_literals)
    have "(strneq s ''1'' 1 \<and> 56 \<le> c_code (char_at s 1) \<and> char_at s 2 = CHR ''.'') \<longleftrightarrow> 18 \<le> b \<and> b \<le> 19"
      using second_octet_teens [OF assms(2), of 8 t, folded s_def] strneq_first [of b t, folded s_def] by simp
    then show ?thesis
      unfolding dotted address_score_def pre first_zero address_rank_def at [OF l] code_literals using 2 by simp
  next
    case 3
    then show ?thesis unfolding dotted address_score_def pre first_zero address_rank_def by simp
  qed
qed

section \<open>The most public interface\<close>

definition rank_of :: "32 word \<Rightarrow> int" where
  "rank_of w = address_rank (octet 3 w) (octet 2 w) (octet 1 w)"

lemma score_address_rank:
  "score_address w best = (if snd best < rank_of w then (w, rank_of w) else best)"
  using address_score_rank [OF octet_less [of 3 w] octet_less [of 2 w] octet_less [of 1 w]]
  by (simp add: score_address_def ast_inet_ntoa_def rank_of_def Let_def)

lemma rank_bounds: "rank_of w \<le> 0" "- 100 < rank_of w"
  by (simp_all add: rank_of_def address_rank_def)

definition addresses :: "32 word option list \<Rightarrow> 32 word list" where
  "addresses ifs = List.map_filter (\<lambda>x. x) ifs"

lemma addresses_simps [simp]:
  "addresses [] = []" "addresses (None # ifs) = addresses ifs" "addresses (Some w # ifs) = w # addresses ifs"
  by (simp_all add: addresses_def List.map_filter_simps)

lemma fold_score_public: "snd best = 0 \<Longrightarrow> fold score_address ws best = best"
  by (induction ws) (simp_all add: score_address_rank leD [OF rank_bounds(1)])

text \<open>Leaving the loop at the first public address is no different from looking at all of them.\<close>

lemma scan_interfaces_fold:
  "scan_interfaces ifs (best, res) =
     (fold score_address (addresses ifs) best, if addresses ifs = [] then res else 0)"
proof (induction ifs "(best, res)" arbitrary: best res rule: scan_interfaces.induct)
  case (3 w ifs best res)
  then show ?case by (simp add: Let_def fold_score_public)
qed simp_all

definition best_of :: "32 word list \<Rightarrow> 32 word option" where
  "best_of ws = find (\<lambda>a. \<forall>b\<in>set ws. rank_of b \<le> rank_of a) ws"

lemma best_of_step:
  "best_of (w # x # ws) = (if rank_of w < rank_of x then best_of (x # ws) else best_of (w # ws))"
proof (cases "rank_of w < rank_of x")
  case True
  have "find (\<lambda>a. \<forall>b\<in>set (w # x # ws). rank_of b \<le> rank_of a) vs =
      find (\<lambda>a. \<forall>b\<in>set (x # ws). rank_of b \<le> rank_of a) vs" for vs
    using True by (intro find_cong) auto
  with True show ?thesis by (simp add: best_of_def)
next
  case False
  have "find (\<lambda>a. \<forall>b\<in>set (w # x # ws). rank_of b \<le> rank_of a) vs =
      find (\<lambda>a. \<forall>b\<in>set (w # ws). rank_of b \<le> rank_of a) vs" for vs
    using False by (intro find_cong) auto
  with False show ?thesis by (auto simp: best_of_def)
qed

lemma fold_score_best: "\<exists>a. best_of (w # ws) = Some a \<and> fold score_address ws (w, rank_of w) = (a, rank_of a)"
proof (induction ws arbitrary: w)
  case (Cons x ws)
  show ?case using Cons [of x] Cons [of w] by (simp add: best_of_step score_address_rank)
qed (simp add: best_of_def)

text \<open>
  C27. Among the interfaces with an Internet address the search for the local address returns the first one in the most
  public of the address ranges: the comparisons of characters of the printed addresses amount to the numeric ranges, and
  leaving the loop early misses nothing.
\<close>

theorem get_local_address_best:
  assumes "0 < socket" "addresses ifs \<noteq> []"
  shows "\<exists>a. get_local_address (Some ifs) socket ourip = (a, 0) \<and> best_of (addresses ifs) = Some a"
proof -
  obtain w ws where a: "addresses ifs = w # ws" using assms(2) by (cases "addresses ifs") auto
  with fold_score_best [of w ws] obtain b where
    "best_of (w # ws) = Some b" "fold score_address ws (w, rank_of w) = (b, rank_of b)" by blast
  then show ?thesis
    using assms(1) rank_bounds(2) [of w]
    by (simp add: get_local_address_def scan_interfaces_fold a score_address_rank)
qed

theorem get_local_address_best_witness:
  "get_local_address (Some [Some 0x7F000001, None, Some 0xC0A80005, Some 0x0A000001]) 5 0 = (0xC0A80005, 0)"
proof -
  have "best_of [0x7F000001, 0xC0A80005, 0x0A000001] = Some 0xC0A80005"
    by (simp add: best_of_def rank_of_def address_rank_def octet_def drop_bit_eq_div unat_div)
  then show ?thesis
    using get_local_address_best [of 5 "[Some 0x7F000001, None, Some 0xC0A80005, Some 0x0A000001]" 0] by simp
qed

end
