(* ===== verification/Dns.thy ===== *)
theory Dns
  imports Inet
begin

text \<open>
  Answers of the domain name service, \<open>main/dns.c\<close>.

  \<^item> \<open>msg\<close> is the part of the buffer that the resolver filled; a read behind it is \<open>None\<close>. A pointer into the
    message is its offset. \<open>len\<close> is the number of octets that the code believes to be left, as an \<open>int\<close>.
  \<^item> A callback takes its context, the offset of the data of a record and the size that the record claims; it returns
    the new context and its return value, or \<open>None\<close> for an access outside the message.
\<close>

section \<open>Operations\<close>

definition read16 :: "byte list \<Rightarrow> nat \<Rightarrow> nat option" where
  "read16 msg i = do { a \<leftarrow> byte_at msg i; b \<leftarrow> byte_at msg (i + 1); Some (unat a * 256 + unat b) }"

text \<open>The loop of \<open>skip_name\<close>: \<open>s\<close> is the pointer, \<open>x\<close> the count.\<close>

function skip_labels :: "byte list \<Rightarrow> nat \<Rightarrow> int \<Rightarrow> int \<Rightarrow> int option" where
  "skip_labels msg s x len =
     (if x < len then
        (case byte_at msg s of
           None \<Rightarrow> None
         | Some c \<Rightarrow>
             if c = 0 then Some (x + 1)
             else if c AND 0xc0 = 0xc0 then Some (x + 2)
             else skip_labels msg (s + unat c + 1) (x + int (unat c) + 1) len)
      else Some x)"
  by auto

termination
  by (relation "measure (\<lambda>(msg, s, x, len). nat (len - x))") (auto intro!: less_le_trans [OF _ unsigned_greater_eq])

definition skip_name :: "byte list \<Rightarrow> nat \<Rightarrow> int \<Rightarrow> int option" where
  "skip_name msg s len = do { x \<leftarrow> skip_labels msg s 0 len; Some (if x \<ge> len then -1 else x) }"

text \<open>The questions: the new place and the octets left, or the return value of an error.\<close>

fun skip_questions :: "byte list \<Rightarrow> nat \<Rightarrow> nat \<Rightarrow> int \<Rightarrow> (int + nat \<times> int) option" where
  "skip_questions msg 0 answer len = Some (Inr (answer, len))"
| "skip_questions msg (Suc n) answer len =
     do { res \<leftarrow> skip_name msg answer len;
          if res < 0 then Some (Inl (-1))
          else if len - (res + 4) < 0 then Some (Inl (-1))
          else skip_questions msg n (answer + nat res + 4) (len - (res + 4)) }"

text \<open>The records, until the callback accepts or rejects one.\<close>

fun scan_records ::
    "('c \<Rightarrow> nat \<Rightarrow> nat \<Rightarrow> ('c \<times> int) option) \<Rightarrow> nat \<Rightarrow> nat \<Rightarrow> byte list \<Rightarrow> nat \<Rightarrow> nat \<Rightarrow> int \<Rightarrow> 'c \<Rightarrow> ('c \<times> int) option" where
  "scan_records callback cls rtype msg 0 answer len ctx = Some (ctx, 0)"
| "scan_records callback cls rtype msg (Suc n) answer len ctx =
     do { res \<leftarrow> skip_name msg answer len;
          if res < 0 then Some (ctx, -1)
          else if len - res - 10 < 0 then Some (ctx, -1)
          else
            do { let ans = answer + nat res;
                 c \<leftarrow> read16 msg (ans + 2);
                 t \<leftarrow> read16 msg ans;
                 sz \<leftarrow> read16 msg (ans + 8);
                 if c = cls \<and> t = rtype then
                   do { (ctx', r) \<leftarrow> callback ctx (ans + 10) sz;
                        if r < 0 then Some (ctx', -1)
                        else if r > 0 then Some (ctx', 1)
                        else scan_records callback cls rtype msg n (ans + 10 + sz) (len - res - 10 - int sz) ctx' }
                 else scan_records callback cls rtype msg n (ans + 10 + sz) (len - res - 10 - int sz) ctx } }"

definition dns_parse_answer ::
    "('c \<Rightarrow> nat \<Rightarrow> nat \<Rightarrow> ('c \<times> int) option) \<Rightarrow> nat \<Rightarrow> nat \<Rightarrow> byte list \<Rightarrow> int \<Rightarrow> 'c \<Rightarrow> ('c \<times> int) option" where
  "dns_parse_answer callback cls rtype msg len ctx =
     do { qdcount \<leftarrow> read16 msg 4;
          q \<leftarrow> skip_questions msg qdcount 12 (len - 12);
          case q of
            Inl r \<Rightarrow> Some (ctx, r)
          | Inr (answer, len') \<Rightarrow>
              do { ancount \<leftarrow> read16 msg 6;
                   scan_records callback cls rtype msg ancount answer len' ctx } }"

text \<open>
  A search: \<open>reply\<close> is the return value of the resolver and the octets it stored. The callback is handed the message.
\<close>

definition ast_search_dns ::
    "(byte list \<Rightarrow> 'c \<Rightarrow> nat \<Rightarrow> nat \<Rightarrow> ('c \<times> int) option) \<Rightarrow> nat \<Rightarrow> nat \<Rightarrow> int \<times> byte list \<Rightarrow> 'c \<Rightarrow> ('c \<times> int) option" where
  "ast_search_dns callback cls rtype reply ctx =
     (case reply of
        (res, answer) \<Rightarrow>
          if res > 0 then
            do { (ctx', r) \<leftarrow> dns_parse_answer (callback answer) cls rtype answer res ctx;
                 Some (ctx', if r < 0 then -1 else if r = 0 then 0 else 1) }
          else Some (ctx, -1))"

declare skip_labels.simps [simp del]

section \<open>Staying inside the message\<close>

lemma read16_defined: "i + 1 < length msg \<Longrightarrow> \<exists>v. read16 msg i = Some v"
  by (simp add: read16_def byte_at_def)

lemma skip_labels_defined:
  "int s + (len - x) \<le> int (length msg) \<Longrightarrow> \<exists>y. skip_labels msg s x len = Some y \<and> x \<le> y"
proof (induction msg s x len rule: skip_labels.induct)
  case (1 msg s x len)
  show ?case
  proof (cases "x < len")
    case True
    with "1.prems" have b: "byte_at msg s = Some (msg ! s)" by (simp add: byte_at_def)
    show ?thesis
    proof (cases "msg ! s = 0 \<or> msg ! s AND 0xc0 = 0xc0")
      case False
      then have "\<exists>y. skip_labels msg (s + unat (msg ! s) + 1) (x + int (unat (msg ! s)) + 1) len = Some y \<and>
          x + int (unat (msg ! s)) + 1 \<le> y"
        by (intro "1.IH" [OF True b]) (use "1.prems" in simp_all)
      then obtain y where y: "skip_labels msg (s + unat (msg ! s) + 1) (x + int (unat (msg ! s)) + 1) len = Some y"
        "x + int (unat (msg ! s)) + 1 \<le> y" by blast
      have "x \<le> y" using y(2) of_nat_0_le_iff [of "unat (msg ! s)"] by linarith
      with True b False y(1) show ?thesis by (subst skip_labels.simps) simp
    next
      case True
      with \<open>x < len\<close> b show ?thesis by (subst skip_labels.simps) auto
    qed
  next
    case False
    then show ?thesis by (subst skip_labels.simps) simp
  qed
qed

lemma skip_name_defined:
  assumes "int s + len \<le> int (length msg)"
  obtains r where "skip_name msg s len = Some r" "r = -1 \<or> 0 \<le> r \<and> r < len"
proof -
  obtain y where "skip_labels msg s 0 len = Some y" "0 \<le> y"
    using skip_labels_defined [of s len 0 msg] assms by auto
  then show ?thesis by (intro that [of "if y \<ge> len then -1 else y"]) (auto simp: skip_name_def)
qed

lemma skip_questions_defined:
  "int s + len \<le> int (length msg) \<Longrightarrow>
   \<exists>q. skip_questions msg n s len = Some q \<and> (\<forall>s' len'. q = Inr (s', len') \<longrightarrow> int s' + len' = int s + len)"
proof (induction n arbitrary: s len)
  case (Suc n)
  obtain r where r: "skip_name msg s len = Some r" "r = -1 \<or> 0 \<le> r \<and> r < len"
    using skip_name_defined [OF Suc.prems] .
  show ?case
  proof (cases "r < 0 \<or> len - (r + 4) < 0")
    case False
    with r Suc.IH [of "s + nat r + 4" "len - (r + 4)"] Suc.prems show ?thesis by simp
  qed (use r in auto)
qed simp

lemma scan_records_defined:
  assumes "\<And>ctx pos sz. pos \<le> length msg \<Longrightarrow> callback ctx pos sz \<noteq> None"
  shows "int s + len \<le> int (length msg) \<Longrightarrow> scan_records callback cls rtype msg n s len ctx \<noteq> None"
proof (induction n arbitrary: s len ctx)
  case (Suc n)
  obtain r where r: "skip_name msg s len = Some r" "r = -1 \<or> 0 \<le> r \<and> r < len"
    using skip_name_defined [OF Suc.prems] .
  show ?case
  proof (cases "r < 0 \<or> len - r - 10 < 0")
    case False
    define ans where "ans = s + nat r"
    have ans: "ans + 10 \<le> length msg" using False Suc.prems unfolding ans_def by linarith
    obtain c t sz where v: "read16 msg (ans + 2) = Some c" "read16 msg ans = Some t" "read16 msg (ans + 8) = Some sz"
      using ans read16_defined [of "ans + 2" msg] read16_defined [of ans msg] read16_defined [of "ans + 8" msg] by auto
    have "scan_records callback cls rtype msg n (ans + 10 + sz) (len - r - 10 - int sz) ctx' \<noteq> None" for ctx'
      by (rule Suc.IH) (use False Suc.prems in \<open>simp add: ans_def\<close>)
    with r False v assms [OF ans, of ctx sz] show ?thesis
      by (auto simp: Let_def simp flip: ans_def split: option.splits)
  qed (use r in auto)
qed simp

text \<open>
  C26. For a message with a complete header the walk over questions and records stays inside the message and ends, whatever
  the counts, labels and record sizes in it are, provided that the callback is safe at every place of the message.
\<close>

theorem dns_parse_answer_inside:
  assumes "12 \<le> length msg" "\<And>ctx pos sz. pos \<le> length msg \<Longrightarrow> callback ctx pos sz \<noteq> None"
  shows "dns_parse_answer callback cls rtype msg (int (length msg)) ctx \<noteq> None"
proof -
  obtain qd an where c: "read16 msg 4 = Some qd" "read16 msg 6 = Some an"
    using assms(1) read16_defined [of 4 msg] read16_defined [of 6 msg] by auto
  obtain q where q: "skip_questions msg qd 12 (int (length msg) - 12) = Some q"
    "\<forall>s' len'. q = Inr (s', len') \<longrightarrow> int s' + len' = int (length msg)"
    using skip_questions_defined [of 12 "int (length msg) - 12" msg qd] by auto
  show ?thesis
  proof (cases q)
    case (Inr p)
    then obtain s' len' where "q = Inr (s', len')" by (cases p) auto
    moreover have "scan_records callback cls rtype msg an s' len' ctx \<noteq> None"
      by (rule scan_records_defined [OF assms(2)]) (use q(2) calculation in auto)
    ultimately show ?thesis using c q(1) by (simp add: dns_parse_answer_def)
  qed (use c q(1) in \<open>auto simp: dns_parse_answer_def\<close>)
qed

section \<open>Encoded answers\<close>

text \<open>
  The format of an answer, to say what the code reads from it: a name is a sequence of labels that ends in an empty one
  or in a pointer, a record is a name, a type, a class, a time to live, a size and the data.
\<close>

definition be16 :: "nat \<Rightarrow> byte list" where
  "be16 n = [of_nat (n div 256), of_nat (n mod 256)]"

record dns_name =
  n_labels :: "byte list list"
  n_pointer :: "(byte \<times> byte) option"

definition name_ok :: "dns_name \<Rightarrow> bool" where
  "name_ok nm =
     ((\<forall>l\<in>set (n_labels nm). 1 \<le> length l \<and> length l \<le> 63) \<and>
      (case n_pointer nm of None \<Rightarrow> True | Some (hi, lo) \<Rightarrow> hi AND 0xc0 = 0xc0))"

definition enc_end :: "(byte \<times> byte) option \<Rightarrow> byte list" where
  "enc_end p = (case p of None \<Rightarrow> [0] | Some (hi, lo) \<Rightarrow> [hi, lo])"

definition enc_name :: "dns_name \<Rightarrow> byte list" where
  "enc_name nm = concat (map (\<lambda>l. of_nat (length l) # l) (n_labels nm)) @ enc_end (n_pointer nm)"

record dns_question =
  q_name :: dns_name
  q_code :: nat
  q_class :: nat

definition enc_question :: "dns_question \<Rightarrow> byte list" where
  "enc_question q = enc_name (q_name q) @ be16 (q_code q) @ be16 (q_class q)"

record dns_rr =
  rr_name :: dns_name
  rr_type :: nat
  rr_class :: nat
  rr_ttl :: "nat \<times> nat"
  rr_data :: "byte list"

definition enc_rr :: "dns_rr \<Rightarrow> byte list" where
  "enc_rr r = enc_name (rr_name r) @ be16 (rr_type r) @ be16 (rr_class r) @ be16 (fst (rr_ttl r)) @ be16 (snd (rr_ttl r)) @
     be16 (length (rr_data r)) @ rr_data r"

definition rr_ok :: "dns_rr \<Rightarrow> bool" where
  "rr_ok r = (name_ok (rr_name r) \<and> rr_type r < 65536 \<and> rr_class r < 65536 \<and> length (rr_data r) < 65536)"

text \<open>A message: four octets of identification and flags, the counts, the sections; \<open>others\<close> holds the other sections.\<close>

definition enc_message :: "byte list \<Rightarrow> dns_question list \<Rightarrow> dns_rr list \<Rightarrow> nat \<times> nat \<Rightarrow> byte list \<Rightarrow> byte list" where
  "enc_message ident qs rrs counts others =
     take 4 (ident @ [0, 0, 0, 0]) @ be16 (length qs) @ be16 (length rrs) @ be16 (fst counts) @ be16 (snd counts) @
     concat (map enc_question qs) @ concat (map enc_rr rrs) @ others"

lemma be16_length [simp]: "length (be16 n) = 2"
  by (simp add: be16_def)

lemma drop_Cons_at:
  assumes "drop s msg = c # r"
  shows "byte_at msg s = Some c" "drop (Suc s) msg = r" "s < length msg"
proof -
  show l: "s < length msg" using assms by (metis drop_eq_Nil list.distinct(1) not_less)
  show "byte_at msg s = Some c" using assms l by (simp add: byte_at_def flip: hd_drop_conv_nth)
  show "drop (Suc s) msg = r" using assms by (simp add: drop_Suc flip: tl_drop)
qed

lemma read16_enc:
  assumes "drop i msg = be16 n @ rest" "n < 65536"
  shows "read16 msg i = Some n"
proof -
  have d: "drop i msg = of_nat (n div 256) # of_nat (n mod 256) # rest" using assms(1) by (simp add: be16_def)
  have "byte_at msg i = Some (of_nat (n div 256))" "byte_at msg (i + 1) = Some (of_nat (n mod 256))"
    using drop_Cons_at [OF d] drop_Cons_at [OF drop_Cons_at(2) [OF d]] by simp_all
  moreover have "n div 256 < 256" using assms(2) by simp
  ultimately show ?thesis by (simp add: read16_def unat_of_nat)
qed

lemma label_byte: "n \<le> 63 \<Longrightarrow> of_nat n AND (0xc0 :: byte) \<noteq> 0xc0"
proof
  assume n: "n \<le> 63" and e: "of_nat n AND (0xc0 :: byte) = 0xc0"
  have "bit (of_nat n AND (0xc0 :: byte)) 7" unfolding e by code_simp
  then have "bit (of_nat n :: byte) 7" unfolding bit_and_iff by (rule conjunct1)
  then have "bit n 7" by (simp add: bit_of_nat_iff)
  with n show False by (simp add: bit_iff_odd)
qed

lemma skip_labels_end:
  assumes "drop s msg = enc_end p @ rest" "case p of None \<Rightarrow> True | Some (hi, lo) \<Rightarrow> hi AND 0xc0 = 0xc0" "x < len"
  shows "skip_labels msg s x len = Some (x + int (length (enc_end p)))"
proof (cases p)
  case None
  then have "byte_at msg s = Some 0" using assms(1) drop_Cons_at(1) [of s msg 0 rest] by (simp add: enc_end_def)
  with None assms(3) show ?thesis by (subst skip_labels.simps) (simp add: enc_end_def)
next
  case (Some q)
  obtain hi lo where q: "q = (hi, lo)" by (cases q)
  with Some assms(1,2) have "byte_at msg s = Some hi" "hi AND 0xc0 = 0xc0" "hi \<noteq> 0"
    using drop_Cons_at(1) [of s msg hi "lo # rest"] by (auto simp: enc_end_def)
  with Some q assms(3) show ?thesis by (subst skip_labels.simps) (simp add: enc_end_def)
qed

definition enc_labels :: "byte list list \<Rightarrow> byte list" where
  "enc_labels ls = concat (map (\<lambda>l. of_nat (length l) # l) ls)"

lemma skip_labels_enc:
  assumes "drop s msg = enc_labels ls @ enc_end p @ rest"
    "\<forall>l\<in>set ls. 1 \<le> length l \<and> length l \<le> 63" "case p of None \<Rightarrow> True | Some (hi, lo) \<Rightarrow> hi AND 0xc0 = 0xc0"
    "x + int (length (enc_labels ls)) < len"
  shows "skip_labels msg s x len = Some (x + int (length (enc_labels ls @ enc_end p)))"
  using assms
proof (induction ls arbitrary: s x)
  case Nil
  then show ?case using skip_labels_end [of s msg p rest x len] by (simp add: enc_labels_def)
next
  case (Cons l ls)
  have n: "1 \<le> length l" "length l \<le> 63" using Cons.prems(2) by auto
  have d: "drop s msg = of_nat (length l) # l @ enc_labels ls @ enc_end p @ rest"
    using Cons.prems(1) by (simp add: enc_labels_def)
  have u: "unat (of_nat (length l) :: byte) = length l" using n by (simp add: unat_of_nat)
  have nz: "(of_nat (length l) :: byte) \<noteq> 0" using u n by auto
  have len: "x < len" "x + int (length l) + 1 + int (length (enc_labels ls)) < len"
    using Cons.prems(4) by (simp_all add: enc_labels_def)
  have "drop (s + length l + 1) msg = drop (length l) (drop (Suc s) msg)" by (simp add: add.commute)
  also have "\<dots> = enc_labels ls @ enc_end p @ rest" unfolding drop_Cons_at(2) [OF d] by simp
  finally have "skip_labels msg (s + length l + 1) (x + int (length l) + 1) len =
      Some (x + int (length l) + 1 + int (length (enc_labels ls @ enc_end p)))"
    by (rule Cons.IH) (use Cons.prems(2,3) len in simp_all)
  then show ?case
    using drop_Cons_at(1) [OF d] len u nz label_byte [OF n(2)]
    by (subst skip_labels.simps) (simp add: enc_labels_def)
qed

lemma skip_name_enc:
  assumes "drop s msg = enc_name nm @ rest" "rest \<noteq> []" "name_ok nm" "len = int (length (drop s msg))"
  shows "skip_name msg s len = Some (int (length (enc_name nm)))"
proof -
  have nm: "enc_name nm = enc_labels (n_labels nm) @ enc_end (n_pointer nm)" by (simp add: enc_name_def enc_labels_def)
  have "len = int (length (enc_name nm)) + int (length rest)" using assms(1,4) by simp
  moreover from this have "int (length (enc_labels (n_labels nm))) < len"
    using length_greater_0_conv [THEN iffD2, OF assms(2)] unfolding nm length_append by linarith
  then have "skip_labels msg s 0 len = Some (int (length (enc_name nm)))"
    using skip_labels_enc [of s msg "n_labels nm" "n_pointer nm" rest 0 len] assms(1,3)
    by (simp add: nm name_ok_def)
  ultimately show ?thesis using assms(2) by (simp add: skip_name_def)
qed

lemma enc_name_nonempty: "length (enc_name nm) > 0"
  by (auto simp: enc_name_def enc_end_def split: option.splits)

lemma drop_append_at: "drop s msg = xs @ ys \<Longrightarrow> drop (s + length xs) msg = ys"
  by (metis add.commute append_eq_conv_conj drop_drop)

lemma skip_questions_enc:
  assumes "drop s msg = concat (map enc_question qs) @ rest" "\<forall>q\<in>set qs. name_ok (q_name q)"
    "len = int (length (drop s msg))"
  shows "skip_questions msg (length qs) s len =
    Some (Inr (s + length (concat (map enc_question qs)), int (length rest)))"
  using assms
proof (induction qs arbitrary: s len)
  case (Cons q qs)
  define codes where "codes = be16 (q_code q) @ be16 (q_class q)"
  have d: "drop s msg = enc_name (q_name q) @ codes @ concat (map enc_question qs) @ rest"
    using Cons.prems(1) by (simp add: enc_question_def [of q] codes_def)
  have n: "skip_name msg s len = Some (int (length (enc_name (q_name q))))"
    by (rule skip_name_enc [OF d]) (use Cons.prems in \<open>auto simp: codes_def be16_def\<close>)
  have d': "drop (s + length (enc_name (q_name q)) + 4) msg = concat (map enc_question qs) @ rest"
    using drop_append_at [of s msg "enc_name (q_name q) @ codes"] d by (simp add: codes_def ac_simps)
  have len: "len - (int (length (enc_name (q_name q))) + 4) = int (length (concat (map enc_question qs) @ rest))"
    using Cons.prems(3) unfolding d by (simp add: codes_def)
  have "skip_questions msg (length qs) (s + length (enc_name (q_name q)) + 4) (len - (int (length (enc_name (q_name q))) + 4)) =
      Some (Inr (s + length (enc_name (q_name q)) + 4 + length (concat (map enc_question qs)), int (length rest)))"
    by (rule Cons.IH [OF d']) (use Cons.prems(2) d' len in simp_all)
  then show ?case using n len by (simp add: enc_question_def [of q])
qed simp

text \<open>The records with the places of their data, when the first one starts at \<open>s\<close>.\<close>

fun places :: "nat \<Rightarrow> dns_rr list \<Rightarrow> (nat \<times> dns_rr) list" where
  "places s [] = []"
| "places s (r # rs) = (s + length (enc_name (rr_name r)) + 10, r) # places (s + length (enc_rr r)) rs"

text \<open>The callback on one record after the other, until it is done.\<close>

fun deliver :: "('c \<Rightarrow> nat \<Rightarrow> nat \<Rightarrow> ('c \<times> int) option) \<Rightarrow> 'c \<Rightarrow> (nat \<times> dns_rr) list \<Rightarrow> ('c \<times> int) option" where
  "deliver callback ctx [] = Some (ctx, 0)"
| "deliver callback ctx ((s, r) # rs) =
     do { (ctx', v) \<leftarrow> callback ctx s (length (rr_data r));
          if v < 0 then Some (ctx', -1) else if v > 0 then Some (ctx', 1) else deliver callback ctx' rs }"

definition wanted :: "nat \<Rightarrow> nat \<Rightarrow> nat \<times> dns_rr \<Rightarrow> bool" where
  "wanted cls rtype p = (rr_class (snd p) = cls \<and> rr_type (snd p) = rtype)"

lemma scan_records_enc:
  assumes "drop s msg = concat (map enc_rr rs) @ rest" "\<forall>r\<in>set rs. rr_ok r" "len = int (length (drop s msg))"
  shows "scan_records callback cls rtype msg (length rs) s len ctx = deliver callback ctx (filter (wanted cls rtype) (places s rs))"
  using assms
proof (induction rs arbitrary: s len ctx)
  case (Cons r rs)
  define nm where "nm = enc_name (rr_name r)"
  define t where "t = rr_data r @ concat (map enc_rr rs) @ rest"
  define n where "n = length (rr_data r)"
  have ok: "rr_ok r" using Cons.prems(2) by simp
  have d: "drop s msg = nm @ be16 (rr_type r) @ be16 (rr_class r) @ (be16 (fst (rr_ttl r)) @ be16 (snd (rr_ttl r))) @ be16 n @ t"
    using Cons.prems(1) by (simp add: enc_rr_def [of r] nm_def t_def n_def)
  note d1 = drop_append_at [OF d]
  note d2 = drop_append_at [OF d1]
  note d3 = drop_append_at [OF drop_append_at [OF d2]]
  note d4 = drop_append_at [OF d3]
  have sk: "skip_name msg s len = Some (int (length nm))"
    unfolding nm_def by (rule skip_name_enc [OF d [unfolded nm_def]]) (use Cons.prems(3) ok in \<open>simp_all add: be16_def rr_ok_def\<close>)
  have rd: "read16 msg (s + length nm) = Some (rr_type r)" "read16 msg (s + length nm + 2) = Some (rr_class r)"
    "read16 msg (s + length nm + 8) = Some n"
    using ok read16_enc [OF d1] read16_enc [OF d2] read16_enc [OF d3] by (simp_all add: rr_ok_def n_def ac_simps)
  have d': "drop (s + length nm + 10 + n) msg = concat (map enc_rr rs) @ rest"
    using drop_append_at [OF d4 [unfolded t_def]] by (simp add: n_def ac_simps)
  have len: "len - int (length nm) - 10 - int n = int (length (concat (map enc_rr rs) @ rest))"
    using Cons.prems(3) unfolding d by (simp add: t_def n_def)
  then have pos: "\<not> len - int (length nm) - 10 < 0" by linarith
  have IH: "scan_records callback cls rtype msg (length rs) (s + length nm + 10 + n) (len - int (length nm) - 10 - int n) ctx' =
      deliver callback ctx' (filter (wanted cls rtype) (places (s + length nm + 10 + n) rs))" for ctx'
    by (rule Cons.IH [OF d']) (use Cons.prems(2) d' len in simp_all)
  have e: "s + length (enc_rr r) = s + length nm + 10 + n" by (simp add: enc_rr_def [of r] nm_def n_def)
  have pl: "places s (r # rs) = (s + length nm + 10, r) # places (s + length nm + 10 + n) rs"
    by (simp only: places.simps e nm_def)
  have w: "wanted cls rtype (k, r) \<longleftrightarrow> rr_class r = cls \<and> rr_type r = rtype" for k by (simp add: wanted_def)
  show ?case
    unfolding pl list.size scan_records.simps filter.simps w add_0_right add_Suc_right Let_def
    by (simp only: sk rd pos IH w nat_int Option.bind_eq_Some_conv option.simps bind.bind_lunit if_False of_nat_less_0_iff
        deliver.simps) (auto simp flip: n_def)
qed simp

lemma places_data:
  assumes "drop s msg = concat (map enc_rr rs) @ rest" "(pos, r) \<in> set (places s rs)"
  shows "take (length (rr_data r)) (drop pos msg) = rr_data r \<and> pos + length (rr_data r) \<le> length msg"
  using assms
proof (induction rs arbitrary: s)
  case (Cons x rs)
  have d: "drop s msg = enc_rr x @ concat (map enc_rr rs) @ rest" using Cons.prems(1) by simp
  show ?case
  proof (cases "(pos, r) \<in> set (places (s + length (enc_rr x)) rs)")
    case True
    then show ?thesis using Cons.IH [OF drop_append_at [OF d]] by blast
  next
    case False
    then have x: "r = x" "pos = s + length (enc_name (rr_name x)) + 10" using Cons.prems(2) by auto
    have "drop (s + length (enc_rr x) - length (rr_data x)) msg = rr_data x @ concat (map enc_rr rs) @ rest"
      using drop_append_at [of s msg "take (length (enc_rr x) - length (rr_data x)) (enc_rr x)"
          "rr_data x @ concat (map enc_rr rs) @ rest"] d
      by (simp add: enc_rr_def [of x] ac_simps)
    then have p: "drop pos msg = rr_data x @ concat (map enc_rr rs) @ rest"
      by (simp add: x enc_rr_def [of x] ac_simps)
    then have "length msg - pos \<ge> length (rr_data x)" by (metis length_append length_drop le_add1)
    moreover have "pos < length msg \<or> rr_data x = []" using p by (cases "pos < length msg") auto
    moreover have "pos \<le> length msg"
      using arg_cong [OF d, of length] by (simp add: x enc_rr_def [of x])
    ultimately show ?thesis using p x(1) by auto
  qed
qed simp

text \<open>
  C19. An answer in the format of the domain name system is parsed as it is meant: whatever the compressed names,
  questions and later sections are, the callback is handed the data of the records of the wanted class and type, in the
  order of the answer, each with its exact place and size, until it accepts or rejects one; every such record lies
  inside the message.
\<close>

theorem dns_parse_answer_encoded:
  fixes ident others qs rrs counts
  defines "msg \<equiv> enc_message ident qs rrs counts others"
    and "s \<equiv> 12 + length (concat (map enc_question qs))"
  assumes "\<forall>q\<in>set qs. name_ok (q_name q)" "\<forall>r\<in>set rrs. rr_ok r" "length qs < 65536" "length rrs < 65536"
  shows "dns_parse_answer callback cls rtype msg (int (length msg)) ctx =
      deliver callback ctx (filter (wanted cls rtype) (places s rrs)) \<and>
    (\<forall>(pos, r)\<in>set (places s rrs). take (length (rr_data r)) (drop pos msg) = rr_data r \<and>
      pos + length (rr_data r) \<le> length msg)"
proof -
  define h where "h = take 4 (ident @ [0, 0, 0, 0 :: byte])"
  have h: "length h = 4" by (simp add: h_def)
  have d0: "drop 0 msg = h @ be16 (length qs) @ be16 (length rrs) @ (be16 (fst counts) @ be16 (snd counts)) @
      concat (map enc_question qs) @ concat (map enc_rr rrs) @ others"
    by (simp add: msg_def enc_message_def h_def)
  note d4 = drop_append_at [OF d0, unfolded h]
  note d6 = drop_append_at [OF d4]
  note d12 = drop_append_at [OF drop_append_at [OF d6]]
  have r: "read16 msg 4 = Some (length qs)" "read16 msg 6 = Some (length rrs)"
    using read16_enc [OF d4] read16_enc [OF d6] assms(5,6) by simp_all
  have d: "drop 12 msg = concat (map enc_question qs) @ concat (map enc_rr rrs) @ others" using d12 by simp
  have l: "int (length msg) - 12 = int (length (drop 12 msg))"
    using d0 h by (simp add: be16_def)
  have q: "skip_questions msg (length qs) 12 (int (length msg) - 12) =
      Some (Inr (s, int (length (concat (map enc_rr rrs) @ others))))"
    unfolding s_def by (rule skip_questions_enc [OF d assms(3) l])
  have ds: "drop s msg = concat (map enc_rr rrs) @ others" unfolding s_def by (rule drop_append_at [OF d])
  have "scan_records callback cls rtype msg (length rrs) s (int (length (concat (map enc_rr rrs) @ others))) ctx =
      deliver callback ctx (filter (wanted cls rtype) (places s rrs))"
    by (rule scan_records_enc [OF ds assms(4)]) (simp add: ds)
  then show ?thesis using r q places_data [OF ds] by (auto simp: dns_parse_answer_def)
qed

text \<open>
  The size that a record claims is not compared with the octets left: a message of 23 octets hands its callback 65535
  octets of data.
\<close>

lemma record_size_unchecked:
  "dns_parse_answer (\<lambda>ctx pos sz. Some ((pos, sz) # ctx, 0)) 1 33
     ([0, 0, 0, 0, 0, 0, 0, 1, 0, 0, 0, 0] @ [0] @ [0, 33, 0, 1, 0, 0, 0, 0, 255, 255]) 23 [] =
   Some ([(23, 65535)], 0)"
  by (simp add: dns_parse_answer_def read16_def byte_at_def skip_name_def skip_labels.simps [of _ 12] Let_def)

theorem dns_parse_answer_inside_witness:
  "dns_parse_answer (\<lambda>ctx pos sz. Some ((pos, sz) # ctx, 0)) 1 33 [0, 0, 0, 0, 0, 0, 255, 255, 0, 0, 0, 0, 7] 13 [] \<noteq> None"
  using dns_parse_answer_inside [of "[0, 0, 0, 0, 0, 0, 255, 255, 0, 0, 0, 0, 7]" "\<lambda>ctx pos sz. Some ((pos, sz) # ctx, 0)" 1 33 "[]"]
  by simp

definition example_name :: dns_name where
  "example_name = \<lparr> n_labels = [[115, 105, 112], [111, 114, 103]], n_pointer = None \<rparr>"

definition example_rrs :: "dns_rr list" where
  "example_rrs =
     [\<lparr> rr_name = \<lparr> n_labels = [], n_pointer = Some (0xc0, 12) \<rparr>, rr_type = 5, rr_class = 1, rr_ttl = (0, 60), rr_data = [3, 3] \<rparr>,
      \<lparr> rr_name = \<lparr> n_labels = [], n_pointer = Some (0xc0, 12) \<rparr>, rr_type = 33, rr_class = 1, rr_ttl = (0, 60), rr_data = [9, 8, 7] \<rparr>]"

theorem dns_parse_answer_encoded_witness:
  "dns_parse_answer (\<lambda>ctx pos sz. Some ((pos, sz) # ctx, 0)) 1 33
     (enc_message [] [\<lparr> q_name = example_name, q_code = 33, q_class = 1 \<rparr>] example_rrs (0, 0) [])
     (int (length (enc_message [] [\<lparr> q_name = example_name, q_code = 33, q_class = 1 \<rparr>] example_rrs (0, 0) []))) [] =
   Some ([(51, 3)], 0)"
proof -
  have n: "name_ok example_name" "\<forall>r\<in>set example_rrs. rr_ok r" "length example_rrs < 65536"
    by (simp_all add: example_name_def example_rrs_def rr_ok_def name_ok_def)
  let ?msg = "enc_message [] [\<lparr> q_name = example_name, q_code = 33, q_class = 1 \<rparr>] example_rrs (0, 0) []"
  have "dns_parse_answer (\<lambda>ctx pos sz. Some ((pos, sz) # ctx, 0)) 1 33 ?msg (int (length ?msg)) [] =
    deliver (\<lambda>ctx pos sz. Some ((pos, sz) # ctx, 0)) []
      (filter (wanted 1 33) (places (12 + length (concat (map enc_question [\<lparr> q_name = example_name, q_code = 33, q_class = 1 \<rparr>])))
        example_rrs))"
    by (rule conjunct1 [OF dns_parse_answer_encoded]) (use n in simp_all)
  also have "\<dots> = Some ([(51, 3)], 0)"
    by (simp add: example_name_def example_rrs_def enc_question_def enc_name_def enc_end_def enc_rr_def wanted_def be16_def)
  finally show ?thesis .
qed

end
