(* ===== verification/Srv.thy ===== *)
theory Srv
  imports Dns
begin

text \<open>
  Service records of the domain name service, \<open>main/srv.c\<close>, on top of the answer parser, and the look-up of a host by
  address, service record or name, \<open>ast_get_ip_or_srv\<close> of \<open>main/acl.c\<close>.

  \<^item> \<open>dn_expand\<close> is the resolver's function that expands a compressed name: it takes the message up to the end of the
    data and the place of the name, and returns its result with the name.
  \<^item> \<open>alloc\<close> says whether the allocator returns memory for an entry.
  \<^item> \<open>roll n s\<close> is the random weight that the \<open>n\<close>th draw yields for a sum of weights \<open>s\<close>. The loop that draws until
    an entry is heavy enough may go on for ever: it is \<open>None\<close> then.
\<close>

section \<open>Entries\<close>

record srv_entry =
  se_priority :: nat
  se_weight :: nat
  se_port :: nat
  se_weight_sum :: c_uint
  se_host :: string

record srv_context =
  have_weights :: bool
  sc_entries :: "srv_entry list"

definition parse_srv ::
    "(byte list \<Rightarrow> nat \<Rightarrow> int \<times> string) \<Rightarrow> bool \<Rightarrow> byte list \<Rightarrow> nat \<Rightarrow> nat \<Rightarrow> (srv_entry + int) option" where
  "parse_srv dn_expand alloc msg answer len =
     (if len < 6 then Some (Inr (-1))
      else
        case dn_expand (take (answer + len) msg) (answer + 6) of
          (res, repl) \<Rightarrow>
            if res \<le> 0 then Some (Inr (-1))
            else if repl = ''.'' then Some (Inr (-1))
            else if \<not> alloc then Some (Inr (-1))
            else
              do { p \<leftarrow> read16 msg answer;
                   w \<leftarrow> read16 msg (answer + 2);
                   port \<leftarrow> read16 msg (answer + 4);
                   Some (Inl \<lparr> se_priority = p, se_weight = w, se_port = port, se_weight_sum = 0, se_host = repl \<rparr>) })"

text \<open>The place of an entry: before the first one with a higher priority value.\<close>

fun srv_insert :: "srv_entry \<Rightarrow> srv_entry list \<Rightarrow> srv_entry list" where
  "srv_insert e [] = [e]"
| "srv_insert e (current # rest) =
     (if se_priority current \<le> se_priority e then current # srv_insert e rest else e # current # rest)"

definition srv_callback ::
    "(byte list \<Rightarrow> nat \<Rightarrow> int \<times> string) \<Rightarrow> bool \<Rightarrow> byte list \<Rightarrow> srv_context \<Rightarrow> nat \<Rightarrow> nat \<Rightarrow> (srv_context \<times> int) option" where
  "srv_callback dn_expand alloc msg c answer len =
     do { r \<leftarrow> parse_srv dn_expand alloc msg answer len;
          case r of
            Inr v \<Rightarrow> Some (c, -1)
          | Inl entry \<Rightarrow>
              Some (c\<lparr> have_weights := (se_weight entry \<noteq> 0 \<or> have_weights c),
                       sc_entries := srv_insert entry (sc_entries c) \<rparr>, 1) }"

section \<open>Weights\<close>

text \<open>The running sums of the weights, stored in the entries.\<close>

fun sum_weights :: "c_uint \<Rightarrow> srv_entry list \<Rightarrow> srv_entry list \<times> c_uint" where
  "sum_weights s [] = ([], s)"
| "sum_weights s (e # es) =
     (let s' = s + of_nat (se_weight e) in
      case sum_weights s' es of (es', t) \<Rightarrow> (e\<lparr> se_weight_sum := s' \<rparr> # es', t))"

text \<open>The entry that a draw takes, and the others.\<close>

fun take_heavy :: "c_uint \<Rightarrow> srv_entry list \<Rightarrow> (srv_entry \<times> srv_entry list) option" where
  "take_heavy random_weight [] = None"
| "take_heavy random_weight (e # es) =
     (if of_nat (se_weight e) < random_weight
      then map_option (\<lambda>(x, xs). (x, e # xs)) (take_heavy random_weight es)
      else Some (e, es))"

partial_function (option) draw_entries ::
    "(nat \<Rightarrow> c_uint \<Rightarrow> c_uint) \<Rightarrow> nat \<Rightarrow> srv_entry list \<Rightarrow> srv_entry list \<Rightarrow> (srv_entry list \<times> nat) option" where
  "draw_entries roll n temp_list newlist =
     (if temp_list = [] then Some (newlist, n)
      else
        case sum_weights 0 temp_list of
          (temp_list, weight_sum) \<Rightarrow>
            if weight_sum = 0 then Some (newlist @ temp_list, n)
            else
              case take_heavy (roll n weight_sum) temp_list of
                None \<Rightarrow> draw_entries roll (n + 1) temp_list newlist
              | Some (current, temp_list) \<Rightarrow> draw_entries roll (n + 1) temp_list (newlist @ [current]))"

fun order_entries ::
    "(nat \<Rightarrow> c_uint \<Rightarrow> c_uint) \<Rightarrow> nat \<Rightarrow> srv_entry list list \<Rightarrow> srv_entry list \<Rightarrow> srv_entry list option" where
  "order_entries roll n [] newlist = Some newlist"
| "order_entries roll n (temp_list # groups) newlist =
     do { (newlist, n) \<leftarrow> draw_entries roll n temp_list newlist; order_entries roll n groups newlist }"

text \<open>The entries with the priority of the first one, up to the first with another priority, are one group.\<close>

function priority_groups :: "srv_entry list \<Rightarrow> srv_entry list list" where
  "priority_groups [] = []"
| "priority_groups (e # es) =
     (e # takeWhile (\<lambda>x. se_priority x = se_priority e) es) #
       priority_groups (dropWhile (\<lambda>x. se_priority x = se_priority e) es)"
  by pat_completeness auto

termination
  by (relation "measure length") (auto simp: le_imp_less_Suc length_dropWhile_le)

definition process_weights :: "(nat \<Rightarrow> c_uint \<Rightarrow> c_uint) \<Rightarrow> srv_context \<Rightarrow> srv_context option" where
  "process_weights roll c =
     map_option (\<lambda>es. c\<lparr> sc_entries := es \<rparr>) (order_entries roll 0 (priority_groups (sc_entries c)) [])"

section \<open>Look-ups\<close>

text \<open>
  \<open>chan\<close> holds the results of starting and stopping the automatic service of a channel, \<open>None\<close> without a channel. The
  result is the return value, the host and the port.
\<close>

definition ast_get_srv ::
    "(byte list \<Rightarrow> nat \<Rightarrow> int \<times> string) \<Rightarrow> bool \<Rightarrow> (nat \<Rightarrow> c_uint \<Rightarrow> c_uint) \<Rightarrow> (int \<times> int) option \<Rightarrow> int \<times> byte list \<Rightarrow> nat
     \<Rightarrow> string \<times> int \<Rightarrow> (int \<times> string \<times> int) option" where
  "ast_get_srv dn_expand alloc roll chan reply hostlen old =
     (if (case chan of Some (start, stop) \<Rightarrow> start < 0 | None \<Rightarrow> False) then Some (-1, old)
      else
        do { (ctx, ret) \<leftarrow> ast_search_dns (srv_callback dn_expand alloc) 1 33 reply \<lparr> have_weights = False, sc_entries = [] \<rparr>;
             ctx \<leftarrow> (if have_weights ctx then process_weights roll ctx else Some ctx);
             let ret' = (case chan of Some (start, stop) \<Rightarrow> ret OR stop | None \<Rightarrow> ret);
             Some (case sc_entries ctx of
                     current # _ \<Rightarrow>
                       if ret' > 0 then (ret', take (hostlen - 1) (se_host current), int (se_port current)) else (ret', '''', -1)
                   | [] \<Rightarrow> (ret', '''', -1)) })"

record lookup_env =
  le_srv :: "string \<Rightarrow> int \<Rightarrow> (int \<times> string \<times> int) option"
  le_gethostbyname :: "string \<Rightarrow> 32 word option"

text \<open>
  The host of a peer. \<open>le_srv service port\<close> stands for \<open>ast_get_srv\<close> on the service's name, where \<open>port\<close> is the content of
  the variable before the call; the result is the return value, the address and the port.
\<close>

definition ast_get_ip_or_srv ::
    "lookup_env \<Rightarrow> string \<Rightarrow> string option \<Rightarrow> 32 word \<times> nat \<Rightarrow> (int \<times> 32 word \<times> nat) option" where
  "ast_get_ip_or_srv env val service sin =
     (case inet_aton val of
        Some a \<Rightarrow> Some (0, a, snd sin)
      | None \<Rightarrow>
          do { (host, port) \<leftarrow>
                 (case service of
                    None \<Rightarrow> Some (val, snd sin)
                  | Some sv \<Rightarrow>
                      do { (r, host, tportno) \<leftarrow> le_srv env (take 255 (sv @ ''.'' @ val)) (int (snd sin));
                           Some (if r > 0 then (host, nat (tportno mod 65536)) else (val, snd sin)) });
               Some (case le_gethostbyname env host of
                       Some a \<Rightarrow> (0, a, port)
                     | None \<Rightarrow> (-1, fst sin, port)) })"

definition ast_get_ip :: "lookup_env \<Rightarrow> string \<Rightarrow> 32 word \<times> nat \<Rightarrow> (int \<times> 32 word \<times> nat) option" where
  "ast_get_ip env val sin = ast_get_ip_or_srv env val None sin"

section \<open>The order of the entries\<close>

interpretation sv: stable_insert "se_priority :: srv_entry \<Rightarrow> nat" srv_insert
proof
  fix xs :: "srv_entry list" and x :: srv_entry
  assume "sorted (map se_priority xs)"
  then show "\<exists>ys zs. xs = ys @ zs \<and> srv_insert x xs = ys @ x # zs \<and>
      (\<forall>y\<in>set ys. se_priority y \<le> se_priority x) \<and> (\<forall>z\<in>set zs. se_priority x < se_priority z)"
  proof (induction xs)
    case (Cons y xs)
    show ?case
    proof (cases "se_priority y \<le> se_priority x")
      case True
      obtain ys zs where "xs = ys @ zs" "srv_insert x xs = ys @ x # zs"
        "\<forall>y\<in>set ys. se_priority y \<le> se_priority x" "\<forall>z\<in>set zs. se_priority x < se_priority z"
        using Cons by auto
      with True show ?thesis by (intro exI [of _ "y # ys"] exI [of _ zs]) simp
    next
      case False
      with Cons.prems show ?thesis by (intro exI [of _ "[]"] exI [of _ "y # xs"]) auto
    qed
  qed simp
qed

text \<open>An entry without the running sum that the draws leave in it.\<close>

definition bare :: "srv_entry \<Rightarrow> srv_entry" where
  "bare e = e\<lparr> se_weight_sum := 0 \<rparr>"

lemma bare_simps [simp]:
  "bare (e\<lparr> se_weight_sum := s \<rparr>) = bare e" "se_priority (bare e) = se_priority e" "se_weight (bare e) = se_weight e"
  "se_host (bare e) = se_host e" "se_port (bare e) = se_port e"
  by (simp_all add: bare_def)

lemma sum_weights_bare: "map bare (fst (sum_weights s es)) = map bare es"
  by (induction s es rule: sum_weights.induct) (simp_all add: Let_def split_beta)

lemma sum_weights_sum: "snd (sum_weights s es) = s + (\<Sum>e\<leftarrow>es. of_nat (se_weight e))"
  by (induction s es rule: sum_weights.induct) (simp_all add: Let_def split_beta ac_simps)

lemma sum_weights_length: "length (fst (sum_weights s es)) = length es"
  by (metis sum_weights_bare length_map)

lemma sum_weights_weights: "map se_weight (fst (sum_weights s es)) = map se_weight es"
  by (induction s es rule: sum_weights.induct) (simp_all add: Let_def split_beta)

lemma take_heavy_split:
  "take_heavy r es = Some (x, xs) \<Longrightarrow> \<exists>ys zs. es = ys @ x # zs \<and> xs = ys @ zs \<and> \<not> of_nat (se_weight x) < r"
proof (induction es arbitrary: x xs)
  case (Cons e es)
  show ?case
  proof (cases "of_nat (se_weight e) < r")
    case True
    with Cons.prems obtain xs' where "take_heavy r es = Some (x, xs')" "xs = e # xs'" by auto
    with Cons.IH obtain ys zs where "es = ys @ x # zs" "xs' = ys @ zs" "\<not> of_nat (se_weight x) < r" by blast
    with \<open>xs = e # xs'\<close> show ?thesis by (intro exI [of _ "e # ys"] exI [of _ zs]) simp
  next
    case False
    with Cons.prems show ?thesis by (intro exI [of _ "[]"] exI [of _ es]) simp
  qed
qed simp

text \<open>The draws only reorder the entries of a group.\<close>

lemma draw_entries_perm:
  assumes "draw_entries roll n es new = Some r"
  shows "\<exists>ds. fst r = new @ ds \<and> mset (map bare ds) = mset (map bare es)"
proof (rule draw_entries.raw_induct [where P = "\<lambda>roll n es new r. \<exists>ds. fst r = new @ ds \<and> mset (map bare ds) = mset (map bare es)",
      OF _ assms], goal_cases)
  case (1 draw roll n es new r)
  obtain es' s where sw: "sum_weights 0 es = (es', s)" by (cases "sum_weights 0 es")
  have b: "mset (map bare es') = mset (map bare es)" using sum_weights_bare [of 0 es] unfolding sw fst_conv by (rule arg_cong)
  show ?case
  proof (cases "es = [] \<or> s = 0")
    case True
    with 1(2) sw b show ?thesis by (auto split: if_splits)
  next
    case False
    show ?thesis
    proof (cases "take_heavy (roll n s) es'")
      case None
      with 1(2) sw False have "draw roll (n + 1) es' new = Some r" by simp
      from 1(1) [OF this] show ?thesis unfolding b .
    next
      case (Some p)
      then obtain x xs where p: "take_heavy (roll n s) es' = Some (x, xs)" by (cases p) auto
      with 1(2) sw False have "draw roll (n + 1) xs (new @ [x]) = Some r" by simp
      from 1(1) [OF this] obtain ds where "fst r = (new @ [x]) @ ds" "mset (map bare ds) = mset (map bare xs)" by blast
      moreover obtain ys zs where "es' = ys @ x # zs" "xs = ys @ zs" using take_heavy_split [OF p] by blast
      ultimately show ?thesis using b by (intro exI [of _ "x # ds"]) auto
    qed
  qed
qed

text \<open>
  They come to an end if a draw of one turns up again and again: the sum is positive only if some entry has a weight,
  and that entry passes.
\<close>

lemma take_heavy_one:
  assumes "(\<Sum>e\<leftarrow>es. of_nat (se_weight e) :: c_uint) \<noteq> 0"
  shows "take_heavy 1 es \<noteq> None"
  using assms
proof (induction es)
  case (Cons e es)
  show ?case
  proof (cases "of_nat (se_weight e) = (0 :: c_uint)")
    case True
    with Cons show ?thesis by simp
  next
    case False
    then have "\<not> of_nat (se_weight e) < (1 :: c_uint)" by (simp add: word_less_1)
    then show ?thesis by simp
  qed
qed simp

definition fair_rolls :: "(nat \<Rightarrow> c_uint \<Rightarrow> c_uint) \<Rightarrow> bool" where
  "fair_rolls roll = (\<forall>n. \<exists>m\<ge>n. \<forall>s. s \<noteq> 0 \<longrightarrow> roll m s = 1)"

lemma draw_entries_ends:
  assumes "fair_rolls roll"
  shows "\<exists>r. draw_entries roll n es new = Some r"
proof (induction "length es" arbitrary: n es new rule: less_induct)
  case less
  obtain m where m: "n \<le> m" "\<forall>s. s \<noteq> 0 \<longrightarrow> roll m s = 1" using assms by (auto simp: fair_rolls_def)
  have "\<exists>r. draw_entries roll n' es' new = Some r" if "n' \<le> m" "length es' = length es" for n' es'
    using that
  proof (induction "m - n'" arbitrary: n' es')
    case step: 0
    obtain xs s where sw: "sum_weights 0 es' = (xs, s)" by (cases "sum_weights 0 es'")
    have s: "s = (\<Sum>e\<leftarrow>es'. of_nat (se_weight e))" using sum_weights_sum [of 0 es'] sw by simp
    have w: "map se_weight xs = map se_weight es'" using sum_weights_weights [of 0 es'] sw by simp
    show ?case
    proof (cases "es' = [] \<or> s = 0")
      case False
      have "(\<Sum>e\<leftarrow>xs. of_nat (se_weight e) :: c_uint) = s"
        using arg_cong [OF w, of "\<lambda>ws. \<Sum>w\<leftarrow>ws. of_nat w :: c_uint"] by (simp add: s o_def)
      with False have "take_heavy 1 xs \<noteq> None" using take_heavy_one [of xs] by simp
      then obtain x ys where h: "take_heavy 1 xs = Some (x, ys)" by auto
      have n': "n' = m" using step by simp
      have "length ys < length es" using take_heavy_split [OF h] step(3) arg_cong [OF w, of length] by auto
      with less have "\<exists>r. draw_entries roll (n' + 1) ys (new @ [x]) = Some r" by blast
      then show ?thesis using False sw h m(2) n' by (subst draw_entries.simps) simp
    qed (use sw in \<open>subst draw_entries.simps, auto\<close>)
  next
    case step: (Suc d)
    obtain xs s where sw: "sum_weights 0 es' = (xs, s)" by (cases "sum_weights 0 es'")
    have l: "length xs = length es" using sum_weights_length [of 0 es'] sw step by simp
    show ?case
    proof (cases "es' = [] \<or> s = 0")
      case False
      show ?thesis
      proof (cases "take_heavy (roll n' s) xs")
        case None
        have "\<exists>r. draw_entries roll (n' + 1) xs new = Some r" using step(1) [of "n' + 1" xs] step(2) l by simp
        with None False sw show ?thesis by (subst draw_entries.simps) simp
      next
        case (Some p)
        then obtain x ys where p: "take_heavy (roll n' s) xs = Some (x, ys)" by (cases p) auto
        have "length ys < length es" using take_heavy_split [OF p] l by auto
        with less have "\<exists>r. draw_entries roll (n' + 1) ys (new @ [x]) = Some r" by blast
        with p False sw show ?thesis by (subst draw_entries.simps) simp
      qed
    qed (use sw in \<open>subst draw_entries.simps, auto\<close>)
  qed
  from this [OF m(1), of es] show ?case by simp
qed

lemma concat_priority_groups: "concat (priority_groups es) = es"
  by (induction es rule: priority_groups.induct) simp_all

lemma priority_groups_uniform:
  "g \<in> set (priority_groups es) \<Longrightarrow> x \<in> set g \<Longrightarrow> y \<in> set g \<Longrightarrow> se_priority x = se_priority y"
  by (induction es rule: priority_groups.induct) (auto dest!: set_takeWhileD)

text \<open>What the draws make of a group has, place by place, the priorities of the group.\<close>

lemma uniform_priorities:
  assumes "mset (map bare ds) = mset (map bare g)" "\<And>x y. x \<in> set g \<Longrightarrow> y \<in> set g \<Longrightarrow> se_priority x = se_priority y"
  shows "map se_priority ds = map se_priority g"
proof (cases g)
  case (Cons x g')
  have "set (map se_priority ds) = set (map se_priority g)"
    using arg_cong [OF assms(1), of "\<lambda>M. set_mset (image_mset se_priority M)"] by (simp add: image_image)
  moreover have g: "\<forall>p\<in>set (map se_priority g). p = se_priority x"
    by (auto simp: Cons intro!: assms(2) [unfolded Cons])
  ultimately have "replicate (length ds) (se_priority x) = map se_priority ds"
    using replicate_length_same [of "map se_priority ds" "se_priority x"] by simp
  moreover have "replicate (length g) (se_priority x) = map se_priority g"
    using replicate_length_same [OF g] by simp
  moreover have "length ds = length g" using arg_cong [OF assms(1), of size] by simp
  ultimately show ?thesis by simp
qed (use assms in simp)

lemma order_entries_perm:
  assumes "fair_rolls roll" "\<And>g x y. g \<in> set gs \<Longrightarrow> x \<in> set g \<Longrightarrow> y \<in> set g \<Longrightarrow> se_priority x = se_priority y"
  shows "\<exists>out. order_entries roll n gs new = Some (new @ out) \<and> mset (map bare out) = mset (map bare (concat gs)) \<and>
    map se_priority out = map se_priority (concat gs)"
  using assms(2)
proof (induction gs arbitrary: n new)
  case (Cons g gs)
  obtain r where r: "draw_entries roll n g new = Some r" using draw_entries_ends [OF assms(1)] by blast
  obtain ds where ds: "fst r = new @ ds" "mset (map bare ds) = mset (map bare g)" using draw_entries_perm [OF r] by blast
  have p: "map se_priority ds = map se_priority g" by (rule uniform_priorities [OF ds(2)]) (use Cons.prems in auto)
  obtain out where "order_entries roll (snd r) gs (new @ ds) = Some ((new @ ds) @ out)"
    "mset (map bare out) = mset (map bare (concat gs))" "map se_priority out = map se_priority (concat gs)"
    using Cons.IH [of "snd r" "new @ ds"] Cons.prems by auto
  with r ds p show ?case by (intro exI [of _ "ds @ out"]) (simp add: split_beta)
qed simp

text \<open>
  C28. If the draws are fair, the ordering of service entries ends; it keeps every entry and the priority at every place, so
  that a list in the order of priorities stays in that order and only entries of the same priority change places.
\<close>

theorem process_weights_orders:
  assumes "fair_rolls roll"
  shows "\<exists>c'. process_weights roll c = Some c' \<and> mset (map bare (sc_entries c')) = mset (map bare (sc_entries c)) \<and>
    map se_priority (sc_entries c') = map se_priority (sc_entries c)"
proof -
  obtain out where "order_entries roll 0 (priority_groups (sc_entries c)) [] = Some ([] @ out)"
    "mset (map bare out) = mset (map bare (concat (priority_groups (sc_entries c))))"
    "map se_priority out = map se_priority (concat (priority_groups (sc_entries c)))"
    using order_entries_perm [OF assms, of "priority_groups (sc_entries c)" 0 "[]"] priority_groups_uniform by blast
  then show ?thesis by (simp add: process_weights_def concat_priority_groups)
qed

theorem process_weights_orders_witness:
  "\<exists>c'. process_weights (\<lambda>n s. 1)
      \<lparr> have_weights = True, sc_entries = [\<lparr> se_priority = 1, se_weight = 5, se_port = 5060, se_weight_sum = 0, se_host = ''a'' \<rparr>] \<rparr> = Some c' \<and>
    map se_priority (sc_entries c') = [1]"
proof -
  have "fair_rolls (\<lambda>n s. 1)" by (auto simp: fair_rolls_def)
  from process_weights_orders [OF this, of
      "\<lparr> have_weights = True, sc_entries = [\<lparr> se_priority = 1, se_weight = 5, se_port = 5060, se_weight_sum = 0, se_host = ''a'' \<rparr>] \<rparr>"]
  show ?thesis by auto
qed

text \<open>
  The comparison is with the weight of the single entry and not with the running sum: an entry that is at least as heavy
  as all behind it is always drawn first, whatever the draws are.
\<close>

lemma take_heavy_head:
  assumes "take_heavy r (e # es) = Some (x, xs)" "\<forall>y\<in>set es. se_weight y \<le> se_weight e" "se_weight e < 2 ^ 32"
  shows "x = e"
proof (rule ccontr)
  assume "x \<noteq> e"
  with assms(1) have lt: "of_nat (se_weight e) < r" by (auto split: if_splits)
  with assms(1) \<open>x \<noteq> e\<close> obtain ys where "take_heavy r es = Some (x, ys)" by auto
  then have x: "x \<in> set es" "\<not> of_nat (se_weight x) < r" using take_heavy_split [of r es] by auto
  have "se_weight x \<le> se_weight e" using assms(2) x(1) by blast
  then have "(of_nat (se_weight x) :: c_uint) \<le> of_nat (se_weight e)"
    using assms(3) by (simp add: word_le_nat_alt unat_of_nat)
  with lt x(2) show False by simp
qed

definition heavy_head :: "srv_entry list \<Rightarrow> bool" where
  "heavy_head es = (es \<noteq> [] \<and> (\<forall>y\<in>set es. se_weight y \<le> se_weight (hd es)) \<and> se_weight (hd es) < 2 ^ 32)"

lemma heavy_head_alt:
  "heavy_head es = (let ws = map se_weight es in ws \<noteq> [] \<and> (\<forall>w\<in>set ws. w \<le> hd ws) \<and> hd ws < 2 ^ 32)"
  by (cases es) (auto simp: heavy_head_def)

lemma heavy_first:
  assumes "draw_entries roll n es new = Some r"
  shows "\<exists>ds. fst r = new @ ds \<and> (heavy_head es \<longrightarrow> ds \<noteq> [] \<and> bare (hd ds) = bare (hd es))"
proof (rule draw_entries.raw_induct [where P = "\<lambda>roll n es new r. \<exists>ds. fst r = new @ ds \<and>
      (heavy_head es \<longrightarrow> ds \<noteq> [] \<and> bare (hd ds) = bare (hd es))", OF _ assms], goal_cases)
  case (1 draw roll n es new r)
  obtain es' s where sw: "sum_weights 0 es = (es', s)" by (cases "sum_weights 0 es")
  have b: "es \<noteq> [] \<Longrightarrow> es' \<noteq> [] \<and> bare (hd es') = bare (hd es)"
    using sum_weights_bare [of 0 es] sw by (cases es; cases es') auto
  have h: "heavy_head es' \<longleftrightarrow> heavy_head es"
    using sum_weights_weights [of 0 es] sw by (simp add: heavy_head_alt)
  show ?case
  proof (cases "es = [] \<or> s = 0")
    case True
    with 1(2) sw b show ?thesis by (auto simp: heavy_head_def split: if_splits)
  next
    case False
    show ?thesis
    proof (cases "take_heavy (roll n s) es'")
      case None
      with 1(2) sw False have "draw roll (n + 1) es' new = Some r" by simp
      from 1(1) [OF this] h b False show ?thesis by simp
    next
      case (Some p)
      then obtain x xs where p: "take_heavy (roll n s) es' = Some (x, xs)" by (cases p) auto
      with 1(2) sw False have "draw roll (n + 1) xs (new @ [x]) = Some r" by simp
      from 1(1) [OF this] obtain ds where ds: "fst r = (new @ [x]) @ ds" by blast
      have "x = hd es'" if "heavy_head es'"
        using take_heavy_head [of "roll n s" "hd es'" "tl es'" x xs] p that
        by (cases es') (auto simp: heavy_head_def)
      with ds h b False show ?thesis by (intro exI [of _ "x # ds"]) auto
    qed
  qed
qed

section \<open>The look-up as a whole\<close>

definition srv_data :: "nat \<Rightarrow> nat \<Rightarrow> nat \<Rightarrow> byte list \<Rightarrow> byte list" where
  "srv_data p w port name = be16 p @ be16 w @ be16 port @ name"

lemma parse_srv_data:
  assumes "drop pos msg = srv_data p w port name @ rest" "p < 65536" "w < 65536" "port < 65536" "len = length (srv_data p w port name)"
    "dn_expand (take (pos + len) msg) (pos + 6) = (res, host)" "0 < res" "host \<noteq> ''.''"
  shows "parse_srv dn_expand True msg pos len =
    Some (Inl \<lparr> se_priority = p, se_weight = w, se_port = port, se_weight_sum = 0, se_host = host \<rparr>)"
proof -
  have d: "drop pos msg = be16 p @ be16 w @ be16 port @ name @ rest" using assms(1) by (simp add: srv_data_def)
  note d2 = drop_append_at [OF d]
  note d4 = drop_append_at [OF d2]
  have "read16 msg pos = Some p" "read16 msg (pos + 2) = Some w" "read16 msg (pos + 4) = Some port"
    using read16_enc [OF d] read16_enc [OF d2] read16_enc [OF d4] assms(2-4)
    by (simp_all add: add.assoc del: add_2_eq_Suc add_2_eq_Suc')
  moreover have "\<not> len < 6" using assms(5) by (simp add: srv_data_def)
  ultimately show ?thesis using assms(6-8) by (simp add: parse_srv_def)
qed

lemma draw_single:
  assumes "se_weight e \<noteq> 0" "se_weight e < 65536" "\<And>n s. s \<noteq> 0 \<Longrightarrow> roll n s \<le> s"
  shows "draw_entries roll n [e] new = Some (new @ [e\<lparr> se_weight_sum := of_nat (se_weight e) \<rparr>], n + 1)"
proof -
  have "(of_nat (se_weight e) :: c_uint) \<noteq> 0"
    using assms(1,2) unat_of_nat [of "se_weight e", where ?'a = 32] by (auto dest: arg_cong [of _ _ unat])
  moreover from this have "\<not> of_nat (se_weight e) < roll n (of_nat (se_weight e))"
    using assms(3) [of "of_nat (se_weight e)" n] by (simp add: not_less)
  moreover have "draw_entries roll m [] es = Some (es, m)" for m es by (subst draw_entries.simps) simp
  ultimately show ?thesis by (subst draw_entries.simps) (simp add: Let_def)
qed

text \<open>
  C39. The look-up of a service takes the first service record of the answer, whatever priorities and weights it and the
  later ones have: the callback accepts the first record that can be parsed, and acceptance ends the walk over the
  answer. The ordering by priority and weight is left nothing to order.
\<close>

theorem ast_get_srv_first_record:
  fixes ident qs rrs counts others
  defines "msg \<equiv> enc_message ident qs rrs counts others"
  assumes "\<forall>q\<in>set qs. name_ok (q_name q)" "\<forall>r\<in>set rrs. rr_ok r" "length qs < 65536" "length rrs < 65536"
    and first: "filter (wanted 1 33) (places (12 + length (concat (map enc_question qs))) rrs) = (pos, r) # later"
    and r: "rr_data r = srv_data p w port name" "p < 65536" "w < 65536" "port < 65536"
    and expand: "dn_expand (take (pos + length (rr_data r)) msg) (pos + 6) = (res, host)" "0 < res" "host \<noteq> ''.''"
    and roll: "\<And>n s. s \<noteq> 0 \<Longrightarrow> roll n s \<le> s"
  shows "ast_get_srv dn_expand True roll None (int (length msg), msg) hostlen old = Some (1, take (hostlen - 1) host, int port)"
proof -
  define e where "e = \<lparr> se_priority = p, se_weight = w, se_port = port, se_weight_sum = 0, se_host = host \<rparr>"
  define c0 where "c0 = \<lparr> have_weights = False, sc_entries = [] \<rparr>"
  note enc = dns_parse_answer_encoded [OF assms(2-5), where ident = ident and counts = counts and others = others, folded msg_def]
  have "(pos, r) \<in> set (filter (wanted 1 33) (places (12 + length (concat (map enc_question qs))) rrs))" using first by simp
  then have t: "take (length (rr_data r)) (drop pos msg) = rr_data r"
    using enc [where callback = "srv_callback dn_expand True msg" and cls = 1 and rtype = 33 and ctx = c0] by auto
  have "drop pos msg = rr_data r @ drop (length (rr_data r)) (drop pos msg)"
    using append_take_drop_id [of "length (rr_data r)" "drop pos msg"] unfolding t by simp
  then have "parse_srv dn_expand True msg pos (length (rr_data r)) = Some (Inl e)"
    unfolding r(1) e_def by (rule parse_srv_data) (use r expand in simp_all)
  then have cb: "srv_callback dn_expand True msg c0 pos (length (rr_data r)) =
      Some (\<lparr> have_weights = (w \<noteq> 0), sc_entries = [e] \<rparr>, 1)"
    by (simp add: srv_callback_def c0_def e_def)
  have "dns_parse_answer (srv_callback dn_expand True msg) 1 33 msg (int (length msg)) c0 =
      Some (\<lparr> have_weights = (w \<noteq> 0), sc_entries = [e] \<rparr>, 1)"
    using enc [where callback = "srv_callback dn_expand True msg" and cls = 1 and rtype = 33 and ctx = c0] cb
    unfolding first by simp
  moreover have "0 < int (length msg)" by (simp add: msg_def enc_message_def be16_def)
  ultimately have s: "ast_search_dns (srv_callback dn_expand True) 1 33 (int (length msg), msg) c0 =
      Some (\<lparr> have_weights = (w \<noteq> 0), sc_entries = [e] \<rparr>, 1)"
    by (simp add: ast_search_dns_def)
  have "process_weights roll \<lparr> have_weights = True, sc_entries = [e] \<rparr> =
      Some \<lparr> have_weights = True, sc_entries = [e\<lparr> se_weight_sum := of_nat w \<rparr>] \<rparr>" if "w \<noteq> 0"
    using draw_single [of e roll 0 "[]"] that r roll by (simp add: process_weights_def e_def)
  then show ?thesis using s by (simp add: ast_get_srv_def c0_def [symmetric] e_def Let_def)
qed

definition example_expand :: "byte list \<Rightarrow> nat \<Rightarrow> int \<times> string" where
  "example_expand m pos = (int (length m) - int pos, map (\<lambda>b. char_of (unat b)) (drop pos m))"

definition example_srvs :: "dns_rr list" where
  "example_srvs =
     [\<lparr> rr_name = example_name, rr_type = 33, rr_class = 1, rr_ttl = (0, 60), rr_data = srv_data 20 0 5060 [98] \<rparr>,
      \<lparr> rr_name = example_name, rr_type = 33, rr_class = 1, rr_ttl = (0, 60), rr_data = srv_data 10 0 5062 [97] \<rparr>]"

text \<open>Of a backup host \<open>b\<close> of priority 20 and a main host \<open>a\<close> of priority 10 the look-up takes the backup.\<close>

theorem ast_get_srv_first_record_witness:
  "ast_get_srv example_expand True (\<lambda>n s. s) None
     (int (length (enc_message [] [] example_srvs (0, 0) [])), enc_message [] [] example_srvs (0, 0) []) 256 ([], 0) =
   Some (1, ''b'', 5060)"
proof -
  let ?msg = "enc_message [] [] example_srvs (0, 0) []"
  have ok: "\<forall>r\<in>set example_srvs. rr_ok r" "length example_srvs < 65536"
    by (simp_all add: example_srvs_def rr_ok_def name_ok_def example_name_def srv_data_def)
  have f: "filter (wanted 1 33) (places (12 + length (concat (map enc_question []))) example_srvs) =
      (31, hd example_srvs) # tl (filter (wanted 1 33) (places (12 + length (concat (map enc_question []))) example_srvs))"
    by (simp add: example_srvs_def wanted_def example_name_def enc_name_def enc_end_def)
  have d: "rr_data (hd example_srvs) = srv_data 20 0 5060 [98]" by (simp add: example_srvs_def)
  have c: "char_of (98 :: nat) = CHR ''b''" by code_simp
  have x: "example_expand (take (31 + length (rr_data (hd example_srvs))) ?msg) (31 + 6) = (1, ''b'')"
    by (simp add: example_srvs_def example_expand_def srv_data_def enc_message_def be16_def enc_rr_def example_name_def
        enc_name_def enc_end_def c)
  have "ast_get_srv example_expand True (\<lambda>n s. s) None (int (length ?msg), ?msg) 256 ([], 0) =
      Some (1, take (256 - 1) ''b'', int 5060)"
    by (rule ast_get_srv_first_record [where dn_expand = example_expand and ident = "[]" and qs = "[]" and
          rrs = example_srvs and counts = "(0, 0)" and others = "[]" and pos = 31 and r = "hd example_srvs" and p = 20 and w = 0 and name = "[98]" and
          res = 1, OF _ ok(1) _ ok(2) f d _ _ _ x]) simp_all
  then show ?thesis by simp
qed

end
