(* ===== verification/Smoother.thy ===== *)
theory Smoother
  imports Frame Formats "HOL-Library.Log_Nat"
begin

text \<open>
  The smoother, \<open>main/frame.c\<close>: it takes voice frames of any length and gives frames of one length.

  \<^item> \<open>sm_data\<close> is the array of \<open>SMOOTHER_SIZE\<close> octets, of which \<open>sm_len\<close> are in use. \<open>None\<close> as the result of an
    operation is an access outside an array.
  \<^item> \<open>sm_opt\<close> is a pointer to a frame of the caller; the model holds the frame itself, so that the caller must leave it
    alone until it is read.
  \<^item> \<open>float\<close> values are the rational numbers they stand for: \<open>float32\<close> rounds to 24 significant bits, to even when in
    the middle. Numbers too small or too large for the format do not occur. A quotient by zero is \<open>None\<close>.
\<close>

section \<open>Single precision\<close>

text \<open>The exponent of the leading bit of a positive number.\<close>

definition rat_exp :: "rat \<Rightarrow> int" where
  "rat_exp x =
     (case quotient_of x of
        (p, q) \<Rightarrow> let e = bitlen p - bitlen q in if power_int 2 e \<le> x then e else e - 1)"

definition round_even :: "rat \<Rightarrow> int" where
  "round_even y =
     (let n = \<lfloor>y\<rfloor>; d = y - of_int n in
      if d < 1 / 2 then n else if d > 1 / 2 then n + 1 else if even n then n else n + 1)"

definition float32 :: "rat \<Rightarrow> rat" where
  "float32 x =
     (if x = 0 then 0
      else let u = power_int 2 (rat_exp \<bar>x\<bar> - 23) in of_int (round_even (x / u)) * u)"

definition trunc :: "rat \<Rightarrow> int" where
  "trunc x = (if x < 0 then \<lceil>x\<rceil> else \<lfloor>x\<rfloor>)"

section \<open>Operations\<close>

definition SMOOTHER_SIZE :: nat where "SMOOTHER_SIZE = 8000"

record ast_smoother =
  sm_size :: int
  sm_format :: int
  sm_flags :: int
  sm_samplesperbyte :: "rat option"
  sm_opt_needs_swap :: bool
  sm_f :: ast_frame
  sm_delivery :: timeval
  sm_data :: "byte list"
  sm_opt :: "ast_frame option"
  sm_len :: nat

fun swap_pairs :: "byte list \<Rightarrow> byte list" where
  "swap_pairs (a # b # xs) = b # a # swap_pairs xs"
| "swap_pairs xs = xs"

definition write_at :: "byte list \<Rightarrow> nat \<Rightarrow> byte list \<Rightarrow> byte list option" where
  "write_at buf i xs =
     (if i + length xs \<le> length buf then Some (take i buf @ xs @ drop (i + length xs) buf) else None)"

text \<open>The first \<open>n\<close> octets of a frame's data.\<close>

definition frame_bytes :: "ast_frame \<Rightarrow> nat \<Rightarrow> byte list option" where
  "frame_bytes f n =
     (if n = 0 then Some []
      else case f_data f of None \<Rightarrow> None | Some d \<Rightarrow> if n \<le> length d then Some (take n d) else None)"

text \<open>\<open>ast_swapcopy_samples\<close> as a function of the octets read.\<close>

definition ast_swapcopy_samples :: "ast_frame \<Rightarrow> int \<Rightarrow> byte list option" where
  "ast_swapcopy_samples f samples = map_option swap_pairs (frame_bytes f (2 * nat samples))"

definition has_flag :: "int \<Rightarrow> int \<Rightarrow> bool" where
  "has_flag flags flag = (flags AND flag \<noteq> 0)"

definition smoother_frame_feed :: "ast_smoother \<Rightarrow> ast_frame \<Rightarrow> bool \<Rightarrow> ast_smoother option" where
  "smoother_frame_feed s f swap =
     (if has_flag (sm_flags s) AST_SMOOTHER_FLAG_G729 \<and> sm_len s mod 10 \<noteq> 0 then Some s
      else
        do { xs \<leftarrow> (if swap then ast_swapcopy_samples f (f_samples f) else frame_bytes f (f_datalen f));
             d \<leftarrow> write_at (sm_data s) (sm_len s) xs;
             Some (s\<lparr> sm_data := d,
                      sm_delivery := (if sm_len s = 0 \<or> ast_tvzero (f_delivery f) \<or> ast_tvzero (sm_delivery s)
                                      then f_delivery f else sm_delivery s),
                      sm_len := sm_len s + f_datalen f \<rparr>) })"

definition ast_smoother_reset :: "int \<Rightarrow> ast_smoother" where
  "ast_smoother_reset bytes =
     \<lparr> sm_size = bytes, sm_format = 0, sm_flags = 0, sm_samplesperbyte = Some 0, sm_opt_needs_swap = False, sm_f = zero_frame,
       sm_delivery = ast_tv 0 0, sm_data = replicate SMOOTHER_SIZE 0, sm_opt = None, sm_len = 0 \<rparr>"

definition ast_smoother_reconfigure :: "ast_smoother \<Rightarrow> int \<Rightarrow> ast_smoother option" where
  "ast_smoother_reconfigure s bytes =
     (if sm_size s = bytes then Some s
      else
        let s = s\<lparr> sm_size := bytes \<rparr> in
        case sm_opt s of
          None \<Rightarrow> Some s
        | Some f \<Rightarrow> map_option (\<lambda>s. s\<lparr> sm_opt := None \<rparr>) (smoother_frame_feed s f (sm_opt_needs_swap s)))"

definition ast_smoother_new :: "bool \<Rightarrow> int \<Rightarrow> ast_smoother option" where
  "ast_smoother_new alloc bytes = (if bytes < 1 then None else if alloc then Some (ast_smoother_reset bytes) else None)"

definition ast_smoother_get_flags :: "ast_smoother \<Rightarrow> int" where
  "ast_smoother_get_flags s = sm_flags s"

definition ast_smoother_set_flags :: "ast_smoother \<Rightarrow> int \<Rightarrow> ast_smoother" where
  "ast_smoother_set_flags s flags = s\<lparr> sm_flags := flags \<rparr>"

definition ast_smoother_test_flag :: "ast_smoother \<Rightarrow> int \<Rightarrow> int" where
  "ast_smoother_test_flag s flag = sm_flags s AND flag"

text \<open>Feeding a frame: the smoother, the frame, whose data may have been swapped in place, and the return value.\<close>

definition ast_smoother_feed :: "ast_smoother \<Rightarrow> ast_frame \<Rightarrow> bool \<Rightarrow> (ast_smoother \<times> ast_frame \<times> int) option" where
  "ast_smoother_feed s f swap =
     (if f_type f \<noteq> AST_FRAME_VOICE then Some (s, f, -1)
      else if sm_format s \<noteq> 0 \<and> sm_format s \<noteq> f_subclass f then Some (s, f, -1)
      else
        let s = (if sm_format s = 0
                 then s\<lparr> sm_format := f_subclass f,
                         sm_samplesperbyte :=
                           (if f_datalen f = 0 then None
                            else Some (float32 (float32 (of_int (f_samples f)) / float32 (of_nat (f_datalen f))))) \<rparr>
                 else s) in
        if sm_len s + f_datalen f > SMOOTHER_SIZE then Some (s, f, -1)
        else if (int (f_datalen f) = sm_size s \<or> f_datalen f < 10 \<and> has_flag (sm_flags s) AST_SMOOTHER_FLAG_G729) \<and>
                sm_opt s = None \<and> sm_len s = 0 \<and> f_offset f \<ge> AST_MIN_OFFSET
        then
          do { f' \<leftarrow> (if swap
                     then do { xs \<leftarrow> ast_swapcopy_samples f (f_samples f);
                               Some (f\<lparr> f_data := map_option (\<lambda>d. xs @ drop (length xs) d) (f_data f) \<rparr>) }
                     else Some f);
               Some (s\<lparr> sm_opt := Some f', sm_opt_needs_swap := swap \<rparr>, f', 0) }
        else map_option (\<lambda>s. (s, f, 0)) (smoother_frame_feed s f swap))"

definition ast_smoother_read :: "ast_smoother \<Rightarrow> (ast_smoother \<times> ast_frame option) option" where
  "ast_smoother_read s =
     (case sm_opt s of
        Some opt \<Rightarrow> Some (s\<lparr> sm_opt := None \<rparr>, Some opt)
      | None \<Rightarrow>
          if int (sm_len s) < sm_size s \<and> \<not> (has_flag (sm_flags s) AST_SMOOTHER_FLAG_G729 \<and> sm_len s mod 10 \<noteq> 0)
          then Some (s, None)
          else if sm_size s < 0 then None
          else
            let len = min (nat (sm_size s)) (sm_len s) in
            do { spb \<leftarrow> sm_samplesperbyte s;
                 let samples = trunc (float32 (of_nat len * spb));
                 let f = (sm_f s)\<lparr> f_type := AST_FRAME_VOICE, f_subclass := sm_format s, f_offset := int AST_FRIENDLY_OFFSET,
                                    f_datalen := len, f_samples := samples, f_delivery := sm_delivery s,
                                    f_data := Some (take len (sm_data s)) \<rparr>;
                 let left = sm_len s - len;
                 d \<leftarrow> write_at (sm_data s) 0 (take left (drop len (sm_data s)));
                 Some (s\<lparr> sm_f := f, sm_len := left, sm_data := d,
                          sm_delivery :=
                            (if left \<noteq> 0 \<and> \<not> ast_tvzero (sm_delivery s)
                             then ast_tvadd (sm_delivery s) (ast_samp2tv (of_int samples) 8000)
                             else sm_delivery s) \<rparr>, Some f) })"

section \<open>The octets in the smoother\<close>

definition opt_octets :: "ast_frame option \<Rightarrow> byte list" where
  "opt_octets opt = (case opt of None \<Rightarrow> [] | Some f \<Rightarrow> take (f_datalen f) (the (f_data f)))"

text \<open>What is still to be read: the frame set aside, then the buffer.\<close>

definition sm_content :: "ast_smoother \<Rightarrow> byte list" where
  "sm_content s = opt_octets (sm_opt s) @ take (sm_len s) (sm_data s)"

definition sm_ok :: "ast_smoother \<Rightarrow> bool" where
  "sm_ok s \<longleftrightarrow> length (sm_data s) = SMOOTHER_SIZE \<and> sm_len s \<le> SMOOTHER_SIZE \<and> 0 < sm_size s \<and>
     (sm_samplesperbyte s \<noteq> None) \<and> (\<forall>f. sm_opt s = Some f \<longrightarrow> int (f_datalen f) = sm_size s) \<and>
     \<not> has_flag (sm_flags s) AST_SMOOTHER_FLAG_G729"

text \<open>A frame that can be fed: not empty, with its data in memory, and whole samples where they are swapped.\<close>

definition feedable :: "ast_frame \<Rightarrow> bool \<Rightarrow> bool" where
  "feedable f swap \<longleftrightarrow> 0 < f_datalen f \<and> f_data f \<noteq> None \<and> f_datalen f \<le> length (the (f_data f)) \<and>
     (swap \<longrightarrow> int (f_datalen f) = 2 * f_samples f)"

definition payload :: "ast_frame \<Rightarrow> bool \<Rightarrow> byte list" where
  "payload f swap = (if swap then swap_pairs else id) (take (f_datalen f) (the (f_data f)))"

lemma swap_pairs_length [simp]: "length (swap_pairs xs) = length xs"
  by (induction xs rule: swap_pairs.induct) simp_all

lemma swap_pairs_twice: "swap_pairs (swap_pairs xs) = xs"
  by (induction xs rule: swap_pairs.induct) simp_all

lemma frame_bytes_ok:
  "f_data f = Some d \<Longrightarrow> n \<le> length d \<Longrightarrow> frame_bytes f n = Some (take n d)"
  by (simp add: frame_bytes_def)

lemma payload_length: "feedable f swap \<Longrightarrow> length (payload f swap) = f_datalen f"
  by (auto simp: payload_def feedable_def)

lemma payload_copied:
  assumes "feedable f swap"
  shows "(if swap then ast_swapcopy_samples f (f_samples f) else frame_bytes f (f_datalen f)) = Some (payload f swap)"
proof -
  obtain d where d: "f_data f = Some d" "f_datalen f \<le> length d" using assms by (auto simp: feedable_def)
  have "2 * nat (f_samples f) = f_datalen f" if swap
  proof -
    have "int (f_datalen f) = 2 * f_samples f" using assms that by (simp add: feedable_def)
    then show ?thesis by linarith
  qed
  with d show ?thesis by (simp add: payload_def ast_swapcopy_samples_def frame_bytes_ok)
qed

lemma write_at_append:
  assumes "n + length xs \<le> length buf"
  obtains buf' where "write_at buf n xs = Some buf'" "length buf' = length buf" "take (n + length xs) buf' = take n buf @ xs"
proof (rule that [of "take n buf @ xs @ drop (n + length xs) buf"])
  show "write_at buf n xs = Some (take n buf @ xs @ drop (n + length xs) buf)" using assms by (simp add: write_at_def)
  show "length (take n buf @ xs @ drop (n + length xs) buf) = length buf" using assms by simp
  show "take (n + length xs) (take n buf @ xs @ drop (n + length xs) buf) = take n buf @ xs" using assms by simp
qed

lemma write_at_front:
  assumes "n \<le> length buf"
  obtains buf' where "write_at buf 0 (take m (drop n buf)) = Some buf'" "length buf' = length buf"
    "take (length (take m (drop n buf))) buf' = take m (drop n buf)"
  using assms by (intro that [of "take m (drop n buf) @ drop (length (take m (drop n buf))) buf"]) (auto simp: write_at_def min_def)

text \<open>A frame that is accepted is added at the end.\<close>

lemma smoother_frame_feed_content:
  assumes "sm_ok s" "feedable f swap" "sm_len s + f_datalen f \<le> SMOOTHER_SIZE"
  obtains s' where "smoother_frame_feed s f swap = Some s'" "sm_ok s'" "sm_content s' = sm_content s @ payload f swap"
    "sm_size s' = sm_size s"
proof -
  have "sm_len s + length (payload f swap) \<le> length (sm_data s)" using assms by (simp add: sm_ok_def payload_length)
  then obtain d where d: "write_at (sm_data s) (sm_len s) (payload f swap) = Some d" "length d = length (sm_data s)"
    "take (sm_len s + length (payload f swap)) d = take (sm_len s) (sm_data s) @ payload f swap"
    by (rule write_at_append)
  let ?s = "s\<lparr> sm_data := d, sm_delivery := (if sm_len s = 0 \<or> ast_tvzero (f_delivery f) \<or> ast_tvzero (sm_delivery s)
    then f_delivery f else sm_delivery s), sm_len := sm_len s + f_datalen f \<rparr>"
  show ?thesis
  proof (rule that [of ?s])
    show "smoother_frame_feed s f swap = Some ?s"
      using assms(1) payload_copied [OF assms(2)] d(1) by (simp add: smoother_frame_feed_def sm_ok_def)
    show "sm_ok ?s" using assms(1,3) d(2) by (simp add: sm_ok_def)
    show "sm_content ?s = sm_content s @ payload f swap"
      using d(3) by (simp add: sm_content_def payload_length [OF assms(2)])
  qed simp
qed

lemma feed_content:
  assumes "sm_ok s" "feedable f swap"
  shows "\<exists>s' f' r. ast_smoother_feed s f swap = Some (s', f', r) \<and> sm_ok s' \<and> sm_size s' = sm_size s \<and>
    sm_content s' = sm_content s @ (if r = 0 then payload f swap else [])"
proof -
  define s1 where "s1 = (if sm_format s = 0 then s\<lparr> sm_format := f_subclass f, sm_samplesperbyte :=
    (if f_datalen f = 0 then None else Some (float32 (float32 (of_int (f_samples f)) / float32 (of_nat (f_datalen f))))) \<rparr> else s)"
  have s1: "sm_ok s1" "sm_content s1 = sm_content s" "sm_size s1 = sm_size s" "sm_len s1 = sm_len s" "sm_opt s1 = sm_opt s"
    "sm_flags s1 = sm_flags s"
    using assms by (simp_all add: s1_def sm_ok_def sm_content_def feedable_def)
  let ?opt = "(int (f_datalen f) = sm_size s \<or> f_datalen f < 10 \<and> has_flag (sm_flags s) AST_SMOOTHER_FLAG_G729) \<and>
    sm_opt s = None \<and> sm_len s = 0 \<and> f_offset f \<ge> AST_MIN_OFFSET"
  consider (bad) "f_type f \<noteq> AST_FRAME_VOICE \<or> sm_format s \<noteq> 0 \<and> sm_format s \<noteq> f_subclass f"
    | (full) "\<not> (f_type f \<noteq> AST_FRAME_VOICE \<or> sm_format s \<noteq> 0 \<and> sm_format s \<noteq> f_subclass f)" "SMOOTHER_SIZE < sm_len s + f_datalen f"
    | (opt) "\<not> (f_type f \<noteq> AST_FRAME_VOICE \<or> sm_format s \<noteq> 0 \<and> sm_format s \<noteq> f_subclass f)" "\<not> SMOOTHER_SIZE < sm_len s + f_datalen f" ?opt
    | (buf) "\<not> (f_type f \<noteq> AST_FRAME_VOICE \<or> sm_format s \<noteq> 0 \<and> sm_format s \<noteq> f_subclass f)" "\<not> SMOOTHER_SIZE < sm_len s + f_datalen f" "\<not> ?opt"
    by blast
  then show ?thesis
  proof cases
    case bad
    then show ?thesis using assms by (auto simp: ast_smoother_feed_def)
  next
    case full
    then have "ast_smoother_feed s f swap = Some (s1, f, -1)"
      unfolding ast_smoother_feed_def s1_def [symmetric] Let_def by (auto simp: s1)
    then show ?thesis using s1 by simp
  next
    case opt
    define f' where "f' = (if swap then f\<lparr> f_data := map_option (\<lambda>d. payload f swap @ drop (length (payload f swap)) d) (f_data f) \<rparr> else f)"
    have "ast_smoother_feed s f swap = Some (s1\<lparr> sm_opt := Some f', sm_opt_needs_swap := swap \<rparr>, f', 0)"
      using opt payload_copied [OF assms(2)]
      unfolding ast_smoother_feed_def s1_def [symmetric] Let_def by (cases swap) (auto simp: s1 f'_def)
    moreover have "opt_octets (Some f') = payload f swap" "int (f_datalen f') = sm_size s"
      using assms opt payload_length [OF assms(2)] by (auto simp: f'_def opt_octets_def payload_def feedable_def sm_ok_def)
    moreover have "sm_content s = []" using opt by (simp add: sm_content_def opt_octets_def)
    ultimately show ?thesis using s1 opt by (simp add: sm_ok_def sm_content_def)
  next
    case buf
    have "sm_len s1 + f_datalen f \<le> SMOOTHER_SIZE" using buf s1 by simp
    with s1(1) assms(2) obtain s' where "smoother_frame_feed s1 f swap = Some s'" "sm_ok s'"
      "sm_content s' = sm_content s1 @ payload f swap" "sm_size s' = sm_size s1"
      by (rule smoother_frame_feed_content)
    moreover from this(1) buf have "ast_smoother_feed s f swap = Some (s', f, 0)"
      unfolding ast_smoother_feed_def s1_def [symmetric] Let_def by (auto simp: s1)
    ultimately show ?thesis using s1 by simp
  qed
qed

text \<open>Reading takes a frame of the set size off the front, or finds less than that.\<close>

lemma read_content:
  assumes "sm_ok s"
  shows "\<exists>s' fo. ast_smoother_read s = Some (s', fo) \<and> sm_ok s' \<and> sm_size s' = sm_size s \<and>
    sm_content s = opt_octets fo @ sm_content s' \<and>
    (case fo of None \<Rightarrow> s' = s \<and> int (length (sm_content s)) < sm_size s | Some f \<Rightarrow> int (f_datalen f) = sm_size s)"
proof (cases "sm_opt s")
  case (Some f)
  with assms show ?thesis by (simp add: ast_smoother_read_def sm_ok_def sm_content_def opt_octets_def)
next
  case None
  define n where "n = nat (sm_size s)"
  have n: "int n = sm_size s" "0 < n" using assms by (simp_all add: sm_ok_def n_def)
  have len: "sm_len s \<le> length (sm_data s)" using assms by (simp add: sm_ok_def)
  show ?thesis
  proof (cases "int (sm_len s) < sm_size s")
    case True
    with None assms show ?thesis by (simp add: ast_smoother_read_def sm_ok_def sm_content_def opt_octets_def)
  next
    case False
    then have le: "n \<le> sm_len s" using n by linarith
    then have m: "min (nat (sm_size s)) (sm_len s) = n" by (simp add: n_def)
    have "n \<le> length (sm_data s)" using le len by simp
    then obtain d where d: "write_at (sm_data s) 0 (take (sm_len s - n) (drop n (sm_data s))) = Some d"
      "length d = length (sm_data s)"
      "take (length (take (sm_len s - n) (drop n (sm_data s)))) d = take (sm_len s - n) (drop n (sm_data s))"
      by (rule write_at_front [where m = "sm_len s - n"])
    have l: "length (take (sm_len s - n) (drop n (sm_data s))) = sm_len s - n" using len by simp
    obtain spb where spb: "sm_samplesperbyte s = Some spb" using assms by (auto simp: sm_ok_def)
    have "take (sm_len s) (sm_data s) = take n (sm_data s) @ take (sm_len s - n) (drop n (sm_data s))"
      using le by (metis le_add_diff_inverse take_add)
    then have "take (sm_len s) (sm_data s) = take n (sm_data s) @ take (sm_len s - n) d" using d(3) unfolding l by simp
    then show ?thesis
      using assms None False m d(1,2) spb n le
      by (auto simp: ast_smoother_read_def sm_ok_def sm_content_def opt_octets_def Let_def)
  qed
qed

section \<open>Streams\<close>

definition stream_of :: "ast_frame list \<Rightarrow> byte list" where
  "stream_of fs = concat (map (\<lambda>f. opt_octets (Some f)) fs)"

lemma stream_of_simps [simp]: "stream_of [] = []" "stream_of (f # fs) = opt_octets (Some f) @ stream_of fs"
  by (simp_all add: stream_of_def)

datatype sm_op = Feed ast_frame bool | Read

text \<open>A sequence of calls: the smoother, the frames read, and the octets of the frames that were accepted.\<close>

fun smoother_run :: "ast_smoother \<Rightarrow> sm_op list \<Rightarrow> (ast_smoother \<times> ast_frame list \<times> byte list) option" where
  "smoother_run s [] = Some (s, [], [])"
| "smoother_run s (Feed f swap # ops) =
     do { (s', f', r) \<leftarrow> ast_smoother_feed s f swap;
          (s'', out, fed) \<leftarrow> smoother_run s' ops;
          Some (s'', out, (if r = 0 then payload f swap else []) @ fed) }"
| "smoother_run s (Read # ops) =
     do { (s', fo) \<leftarrow> ast_smoother_read s;
          (s'', out, fed) \<leftarrow> smoother_run s' ops;
          Some (s'', (case fo of None \<Rightarrow> out | Some f \<Rightarrow> f # out), fed) }"

fun op_ok :: "sm_op \<Rightarrow> bool" where
  "op_ok (Feed f swap) = feedable f swap"
| "op_ok Read = True"

lemma smoother_run_stream:
  assumes "sm_ok s" "\<forall>c\<in>set ops. op_ok c"
  shows "\<exists>s' out fed. smoother_run s ops = Some (s', out, fed) \<and> sm_ok s' \<and>
    stream_of out @ sm_content s' = sm_content s @ fed \<and>
    (\<forall>f\<in>set out. int (f_datalen f) = sm_size s)"
  using assms
proof (induction ops arbitrary: s)
  case (Cons c ops)
  show ?case
  proof (cases c)
    case (Feed f swap)
    with Cons.prems obtain s1 f' r where 1: "ast_smoother_feed s f swap = Some (s1, f', r)" "sm_ok s1" "sm_size s1 = sm_size s"
      "sm_content s1 = sm_content s @ (if r = 0 then payload f swap else [])"
      using feed_content [of s f swap] by auto
    from Cons.IH [OF 1(2)] Cons.prems obtain s2 out fed where "smoother_run s1 ops = Some (s2, out, fed)" "sm_ok s2"
      "stream_of out @ sm_content s2 = sm_content s1 @ fed" "\<forall>f\<in>set out. int (f_datalen f) = sm_size s1"
      by auto
    with 1 Feed show ?thesis by auto
  next
    case Read
    obtain s1 fo where 1: "ast_smoother_read s = Some (s1, fo)" "sm_ok s1" "sm_size s1 = sm_size s"
      "sm_content s = opt_octets fo @ sm_content s1" "\<forall>f. fo = Some f \<longrightarrow> int (f_datalen f) = sm_size s"
      using read_content [OF Cons.prems(1)] by (auto split: option.splits)
    from Cons.IH [OF 1(2)] Cons.prems obtain s2 out fed where "smoother_run s1 ops = Some (s2, out, fed)" "sm_ok s2"
      "stream_of out @ sm_content s2 = sm_content s1 @ fed" "\<forall>f\<in>set out. int (f_datalen f) = sm_size s1"
      by auto
    with 1 Read show ?thesis by (cases fo) (auto simp: opt_octets_def [of None])
  qed
qed simp

text \<open>
  C12. A smoother neither loses, repeats nor reorders an octet: over every sequence of feeds and reads, the octets of the
  frames read, followed by those still inside, are the octets of the frames accepted, byte-swapped where that was asked
  for; every frame read has exactly the set size. No call leaves an array. The smoother starts reset, so that the flag for
  G.729, with which a frame may be short or be dropped, is not set; the frames fed are not empty, have their data in memory
  and, where they are to be swapped, consist of whole samples.
\<close>

theorem smoother_keeps_stream:
  assumes "0 < n" "\<forall>c\<in>set ops. op_ok c"
  shows "\<exists>s' out fed. smoother_run (ast_smoother_reset n) ops = Some (s', out, fed) \<and>
    stream_of out @ sm_content s' = fed \<and> (\<forall>f\<in>set out. int (f_datalen f) = n)"
proof -
  have "sm_ok (ast_smoother_reset n)" "sm_content (ast_smoother_reset n) = []" "sm_size (ast_smoother_reset n) = n"
    using assms(1) by (simp_all add: sm_ok_def ast_smoother_reset_def sm_content_def opt_octets_def has_flag_def)
  then show ?thesis using smoother_run_stream [of "ast_smoother_reset n" ops] assms(2) by auto
qed

definition voice :: "int \<Rightarrow> byte list \<Rightarrow> ast_frame" where
  "voice samples d =
     zero_frame\<lparr> f_type := AST_FRAME_VOICE, f_subclass := AST_FORMAT_SLINEAR, f_datalen := length d, f_samples := samples,
                 f_offset := 64, f_data := Some d \<rparr>"

theorem smoother_keeps_stream_witness:
  "\<exists>s' out fed. smoother_run (ast_smoother_reset 4) [Feed (voice 3 [1, 2, 3, 4, 5, 6]) True, Read, Read, Feed (voice 1 [7, 8]) True, Read] =
      Some (s', out, fed) \<and>
    stream_of out @ sm_content s' = fed \<and> (\<forall>f\<in>set out. int (f_datalen f) = 4)"
  by (rule smoother_keeps_stream) (simp_all add: feedable_def voice_def)

section \<open>Reconfiguration\<close>

text \<open>
  A frame set aside is put behind the octets that were fed after it, and is swapped a second time: a reconfiguration while a
  frame is set aside changes the stream.
\<close>

lemma reconfigure_content:
  assumes "sm_ok s" "sm_opt s = Some f" "feedable f (sm_opt_needs_swap s)" "n \<noteq> sm_size s"
    "sm_len s + f_datalen f \<le> SMOOTHER_SIZE"
  shows "\<exists>s'. ast_smoother_reconfigure s n = Some s' \<and>
    sm_content s' = take (sm_len s) (sm_data s) @ payload f (sm_opt_needs_swap s)"
proof -
  let ?sw = "sm_opt_needs_swap s"
  have "sm_len s + length (payload f ?sw) \<le> length (sm_data s)" using assms by (simp add: sm_ok_def payload_length)
  then obtain d where "write_at (sm_data s) (sm_len s) (payload f ?sw) = Some d"
    "take (sm_len s + length (payload f ?sw)) d = take (sm_len s) (sm_data s) @ payload f ?sw"
    by (rule write_at_append)
  then show ?thesis
    using assms payload_copied [OF assms(3)]
    by (simp add: ast_smoother_reconfigure_def smoother_frame_feed_def sm_ok_def sm_content_def opt_octets_def
        payload_length [OF assms(3)] Let_def)
qed

text \<open>
  Nor is the space checked: with a frame set aside and a full buffer behind it a reconfiguration writes behind the array.
\<close>

lemma reconfigure_overflows:
  assumes "sm_ok s" "sm_opt s = Some f" "feedable f (sm_opt_needs_swap s)" "n \<noteq> sm_size s"
    "SMOOTHER_SIZE < sm_len s + f_datalen f"
  shows "ast_smoother_reconfigure s n = None"
  using assms payload_copied [OF assms(3)]
  by (simp add: ast_smoother_reconfigure_def smoother_frame_feed_def sm_ok_def write_at_def payload_length [OF assms(3)])

text \<open>Both states are reached by feeding a frame of the set size and then another frame.\<close>

lemma opt_then_buffer:
  assumes "feedable f False" "feedable g False" "f_type f = AST_FRAME_VOICE" "f_type g = AST_FRAME_VOICE"
    "f_subclass f \<noteq> 0" "f_subclass g = f_subclass f" "f_datalen f \<le> SMOOTHER_SIZE" "f_datalen g \<le> SMOOTHER_SIZE"
    "AST_MIN_OFFSET \<le> f_offset f"
  shows "\<exists>s' out. smoother_run (ast_smoother_reset (int (f_datalen f))) [Feed f False, Feed g False] =
      Some (s', out, payload f False @ payload g False) \<and> sm_ok s' \<and> sm_opt s' = Some f \<and> sm_len s' = f_datalen g \<and>
    \<not> sm_opt_needs_swap s' \<and> sm_size s' = int (f_datalen f)"
proof -
  let ?s = "ast_smoother_reset (int (f_datalen f))"
  define s1 where "s1 = ?s\<lparr> sm_format := f_subclass f, sm_samplesperbyte :=
    Some (float32 (float32 (of_int (f_samples f)) / float32 (of_nat (f_datalen f)))), sm_opt := Some f \<rparr>"
  have 1: "ast_smoother_feed ?s f False = Some (s1, f, 0)"
    using assms by (simp add: ast_smoother_feed_def ast_smoother_reset_def s1_def Let_def feedable_def)
  have ok1: "sm_ok s1" using assms by (simp add: s1_def ast_smoother_reset_def sm_ok_def has_flag_def feedable_def)
  have "write_at (sm_data s1) 0 (payload g False) \<noteq> None"
    using assms by (simp add: s1_def ast_smoother_reset_def write_at_def payload_length)
  then obtain d where d: "write_at (sm_data s1) 0 (payload g False) = Some d" by auto
  then have l: "length d = SMOOTHER_SIZE" by (auto simp: write_at_def s1_def ast_smoother_reset_def split: if_splits)
  define s2 where "s2 = s1\<lparr> sm_data := d, sm_delivery := f_delivery g, sm_len := f_datalen g \<rparr>"
  have "smoother_frame_feed s1 g False = Some s2"
    using payload_copied [OF assms(2)] d
    by (simp add: smoother_frame_feed_def s2_def s1_def ast_smoother_reset_def has_flag_def)
  then have 2: "ast_smoother_feed s1 g False = Some (s2, g, 0)"
    using assms by (simp add: ast_smoother_feed_def Let_def) (simp add: s1_def ast_smoother_reset_def)
  have "sm_ok s2" using ok1 l assms(8) by (simp add: s2_def sm_ok_def)
  with 1 2 show ?thesis by (simp add: s2_def s1_def ast_smoother_reset_def)
qed

section \<open>Numbers of samples\<close>

lemma float32_int:
  assumes "\<bar>n\<bar> < 2 ^ 24"
  shows "float32 (of_int n) = of_int n"
proof (cases "n = 0")
  case False
  define m where "m = \<bar>n\<bar>"
  define e where "e = bitlen m - 1"
  have m: "0 < m" "m < 2 ^ 24" using False assms by (simp_all add: m_def)
  have b: "2 ^ nat (bitlen m - 1) \<le> m" using bitlen_bounds [OF m(1)] by simp
  have e0: "0 \<le> e"
  proof (rule ccontr)
    assume "\<not> 0 \<le> e"
    then have "nat (bitlen m) = 0" by (simp add: e_def)
    then show False using bitlen_bounds [OF m(1)] m(1) by simp
  qed
  have "2 ^ nat e < (2 :: int) ^ 24" using b m(2) unfolding e_def by linarith
  then have e1: "e \<le> 23" using power_less_imp_less_exp [of "2 :: int" "nat e" 24] by simp
  have "rat_exp (of_int m) = e"
  proof -
    have "power_int 2 e \<le> (of_int m :: rat)"
    proof -
      have "power_int 2 e = (of_int (2 ^ nat e) :: rat)" using e0 by (simp add: power_int_def)
      then show ?thesis using b unfolding e_def [symmetric] by (metis of_int_le_iff)
    qed
    moreover have "bitlen 1 = 1" by (simp add: bitlen_def floorlog_def)
    ultimately show ?thesis by (simp add: rat_exp_def quotient_of_int e_def Let_def)
  qed
  then have r: "rat_exp \<bar>of_int n :: rat\<bar> = e" by (simp add: m_def flip: of_int_abs)
  define u where "u = (power_int 2 (e - 23) :: rat)"
  define k where "k = nat (23 - e)"
  have "e - 23 = - int k" using e1 by (simp add: k_def)
  then have u: "u = 1 / 2 ^ k" unfolding u_def by (simp only: power_int_minus power_int_of_nat divide_inverse mult_1)
  have "of_int n / u = (of_int (n * 2 ^ k) :: rat)" by (simp add: u)
  then have "round_even (of_int n / u) = n * 2 ^ k" unfolding round_even_def Let_def by (simp only: floor_of_int) simp
  then have "of_int (round_even (of_int n / u)) * u = (of_int n :: rat)" by (simp add: u)
  then show ?thesis using False r by (simp add: float32_def u_def Let_def)
qed (simp add: float32_def)

text \<open>With a whole number of samples for every octet the frames read carry the right number of samples.\<close>

lemma read_samples:
  assumes "ast_smoother_read s = Some (s', Some f)" "sm_opt s = None" "sm_samplesperbyte s = Some (of_int k)" "0 \<le> k"
    "int (f_datalen f) * k < 2 ^ 24"
  shows "f_samples f = int (f_datalen f) * k"
proof -
  have f: "f_samples f = trunc (float32 (of_nat (f_datalen f) * of_int k))"
    using assms(1-3) by (auto simp: ast_smoother_read_def Let_def split: if_splits bind_splits)
  have "float32 (of_nat (f_datalen f) * of_int k) = of_int (int (f_datalen f) * k)"
    using float32_int [of "int (f_datalen f) * k"] assms(4,5) by (simp add: abs_of_nonneg)
  moreover have "trunc (of_int z) = z" for z by (simp add: trunc_def)
  ultimately show ?thesis unfolding f by metis
qed

end
