(* ===== verification/Samples.thy ===== *)
theory Samples
  imports Frame Formats
begin

text \<open>
  Counting and changing samples, \<open>main/frame.c\<close>: the number of samples in a frame of each format, the volume of a frame
  and the sum of two frames. Octets are read from the data of the frame; \<open>None\<close> is a read or write behind them, or a
  division by zero. A \<open>short\<close> is stored with its low octet first.
\<close>

section \<open>Bits\<close>

definition get_n_bits_at :: "byte list \<Rightarrow> nat \<Rightarrow> nat \<Rightarrow> byte option" where
  "get_n_bits_at data n b =
     (let i = b div 8; rm = 8 - b mod 8 in
      if n = 0 \<or> n > 8 then Some 0
      else
        do { ret \<leftarrow> (if rm < n
                    then do { x \<leftarrow> byte_at data i; y \<leftarrow> byte_at data (i + 1);
                              Some (push_bit (n - rm) x OR drop_bit (8 - n + rm) y) }
                    else do { x \<leftarrow> byte_at data i; Some (drop_bit (rm - n) x) });
             Some (ret AND drop_bit (8 - n) 0xff) })"

definition SpeexWBSubModeSz :: "nat list" where
  "SpeexWBSubModeSz = [0, 36, 112, 192, 352, 0, 0, 0]"

definition SpeexSubModeSz :: "nat list" where
  "SpeexSubModeSz = [5, 43, 119, 160, 220, 300, 364, 492, 79, 0, 0, 0, 0, 0, 0, 0]"

definition SpeexInBandSz :: "nat list" where
  "SpeexInBandSz = [1, 1, 4, 4, 4, 4, 4, 4, 8, 8, 16, 16, 32, 32, 64, 64]"

text \<open>Whether a wideband frame starts at a place, and how far it reaches.\<close>

definition speex_wb_at :: "byte list \<Rightarrow> nat \<Rightarrow> nat \<Rightarrow> bool option" where
  "speex_wb_at data len off =
     (if off + 5 \<le> len * 8 then map_option (\<lambda>c. c \<noteq> 0) (get_n_bits_at data 1 off) else Some False)"

definition speex_wb_next :: "byte list \<Rightarrow> nat \<Rightarrow> nat option" where
  "speex_wb_next data off = map_option (\<lambda>c. off + SpeexWBSubModeSz ! unat c) (get_n_bits_at data 3 (off + 1))"

text \<open>The size of up to two wideband frames; the inner \<open>None\<close> is the return value of an error.\<close>

definition speex_get_wb_sz_at :: "byte list \<Rightarrow> nat \<Rightarrow> nat \<Rightarrow> nat option option" where
  "speex_get_wb_sz_at data len b =
     do { w1 \<leftarrow> speex_wb_at data len b;
          if \<not> w1 then Some (Some 0)
          else
            do { off1 \<leftarrow> speex_wb_next data b;
                 w2 \<leftarrow> speex_wb_at data len off1;
                 if \<not> w2 then Some (Some (off1 - b))
                 else
                   do { off2 \<leftarrow> speex_wb_next data off1;
                        w3 \<leftarrow> speex_wb_at data len off2;
                        Some (if w3 then None else Some (off2 - b)) } } }"

text \<open>The step over a frame after its control bits \<open>c\<close>: the new place and the samples, \<open>None\<close> inside when the loop is left.\<close>

definition speex_skip :: "byte list \<Rightarrow> nat \<Rightarrow> nat \<Rightarrow> (nat \<times> int) option option" where
  "speex_skip data b c =
     (if c = 15 then Some None
      else if c = 14 then map_option (\<lambda>d. Some (b + 4 + SpeexInBandSz ! unat d, 0)) (get_n_bits_at data 4 b)
      else if c = 13 then map_option (\<lambda>d. Some (b + 5 + unat d * 8, 0)) (get_n_bits_at data 5 b)
      else if c > 8 then Some None
      else Some (Some (b + SpeexSubModeSz ! c - 5, 160)))"

lemma speex_skip_forward: "speex_skip data b c = Some (Some (b', k)) \<Longrightarrow> b \<le> b'"
proof -
  assume a: "speex_skip data b c = Some (Some (b', k))"
  have "5 \<le> SpeexSubModeSz ! c" if "c \<le> 8"
  proof -
    have "c \<in> set [0..<9]" using that by simp
    then show ?thesis by (auto simp: SpeexSubModeSz_def upt_rec)
  qed
  with a show ?thesis by (auto simp: speex_skip_def split: if_splits)
qed

function speex_samples_from :: "byte list \<Rightarrow> nat \<Rightarrow> nat \<Rightarrow> int \<Rightarrow> int option" where
  "speex_samples_from data len b cnt =
     (if b + 5 \<le> len * 8 then
        do { off \<leftarrow> speex_get_wb_sz_at data len b;
             case off of
               None \<Rightarrow> Some cnt
             | Some n \<Rightarrow>
                 if len * 8 < b + n + 5 then Some cnt
                 else
                   do { c \<leftarrow> get_n_bits_at data 5 (b + n);
                        sk \<leftarrow> speex_skip data (b + n + 5) (unat c);
                        (case sk of
                           None \<Rightarrow> Some cnt
                         | Some (b', k) \<Rightarrow> speex_samples_from data len b' (cnt + k)) } }
      else Some cnt)"
  by auto

termination
  by (relation "measure (\<lambda>(data, len, b, cnt). len * 8 - b)") (auto dest: speex_skip_forward)

declare speex_samples_from.simps [simp del]

definition speex_samples :: "byte list \<Rightarrow> nat \<Rightarrow> int option" where
  "speex_samples data len = speex_samples_from data len 0 0"

definition ast_codec_get_samples :: "ast_frame \<Rightarrow> int option" where
  "ast_codec_get_samples f =
     (let d = (case f_data f of None \<Rightarrow> [] | Some d \<Rightarrow> d); n = int (f_datalen f); fmt = f_subclass f in
      if fmt = AST_FORMAT_SPEEX then speex_samples d (f_datalen f)
      else if fmt = AST_FORMAT_G723_1 then (if f_datalen f \<le> length d then Some (g723_samples d (f_datalen f) 0 0) else None)
      else if fmt = AST_FORMAT_ILBC then Some (240 * (n div 50))
      else if fmt = AST_FORMAT_GSM then Some (160 * (n div 33))
      else if fmt = AST_FORMAT_G729A then Some (n * 8)
      else if fmt = AST_FORMAT_SLINEAR then Some (n div 2)
      else if fmt = AST_FORMAT_LPC10 then map_option (\<lambda>c. 22 * 8 + uint (c AND 1) * 8) (byte_at d 7)
      else if fmt = AST_FORMAT_ULAW \<or> fmt = AST_FORMAT_ALAW then Some n
      else if fmt = AST_FORMAT_G722 \<or> fmt = AST_FORMAT_ADPCM \<or> fmt = AST_FORMAT_G726 \<or> fmt = AST_FORMAT_G726_AAL2
        then Some (n * 2)
      else Some 0)"

section \<open>Sixteen-bit samples\<close>

definition get_short :: "byte list \<Rightarrow> nat \<Rightarrow> int option" where
  "get_short d i = do { lo \<leftarrow> byte_at d (2 * i); hi \<leftarrow> byte_at d (2 * i + 1); Some (to_short (uint lo + 256 * uint hi)) }"

definition put_short :: "byte list \<Rightarrow> nat \<Rightarrow> int \<Rightarrow> byte list" where
  "put_short d i v = d[2 * i := word_of_int v, 2 * i + 1 := word_of_int (v div 256)]"

definition saturate :: "int \<Rightarrow> int" where
  "saturate res = (if res > 32767 then 32767 else if res < -32767 then -32767 else to_short res)"

definition ast_slinear_saturated_add :: "int \<Rightarrow> int \<Rightarrow> int" where
  "ast_slinear_saturated_add x y = saturate (x + y)"

definition ast_slinear_saturated_multiply :: "int \<Rightarrow> int \<Rightarrow> int" where
  "ast_slinear_saturated_multiply x y = saturate (x * y)"

definition ast_slinear_saturated_divide :: "int \<Rightarrow> int \<Rightarrow> int option" where
  "ast_slinear_saturated_divide x y = (if y = 0 then None else Some (to_short (x sdiv y)))"

text \<open>A loop that changes the first \<open>n\<close> samples, the \<open>i\<close>th by \<open>g i\<close>.\<close>

fun change_shorts :: "(nat \<Rightarrow> int \<Rightarrow> int option) \<Rightarrow> nat \<Rightarrow> nat \<Rightarrow> byte list \<Rightarrow> byte list option" where
  "change_shorts g i 0 d = Some d"
| "change_shorts g i (Suc n) d =
     do { x \<leftarrow> get_short d i; v \<leftarrow> g i x; change_shorts g (i + 1) n (put_short d i v) }"

definition voice_slinear :: "ast_frame \<Rightarrow> bool" where
  "voice_slinear f = (f_type f = AST_FRAME_VOICE \<and> f_subclass f = AST_FORMAT_SLINEAR)"

definition frame_memory :: "ast_frame \<Rightarrow> byte list" where
  "frame_memory f = (case f_data f of None \<Rightarrow> [] | Some d \<Rightarrow> d)"

definition ast_frame_adjust_volume :: "ast_frame \<Rightarrow> int \<Rightarrow> (ast_frame \<times> int) option" where
  "ast_frame_adjust_volume f adjustment =
     (let adjust_value = to_short \<bar>adjustment\<bar> in
      if \<not> voice_slinear f then Some (f, -1)
      else if adjustment = 0 then Some (f, 0)
      else
        do { d \<leftarrow> change_shorts
               (\<lambda>i x. if adjustment > 0 then Some (ast_slinear_saturated_multiply x adjust_value)
                      else ast_slinear_saturated_divide x adjust_value)
               0 (nat (f_samples f)) (frame_memory f);
             Some (f\<lparr> f_data := map_option (\<lambda>_. d) (f_data f) \<rparr>, 0) })"

definition ast_frame_slinear_sum :: "ast_frame \<Rightarrow> ast_frame \<Rightarrow> (ast_frame \<times> int) option" where
  "ast_frame_slinear_sum f1 f2 =
     (if \<not> voice_slinear f1 then Some (f1, -1)
      else if \<not> voice_slinear f2 then Some (f1, -1)
      else if f_samples f1 \<noteq> f_samples f2 then Some (f1, -1)
      else
        do { d \<leftarrow> change_shorts (\<lambda>i x. map_option (ast_slinear_saturated_add x) (get_short (frame_memory f2) i))
               0 (nat (f_samples f1)) (frame_memory f1);
             Some (f1\<lparr> f_data := map_option (\<lambda>_. d) (f_data f1) \<rparr>, 0) })"

section \<open>Reading bits\<close>

text \<open>The bits of an array of octets, the most significant of each octet first.\<close>

definition data_bit :: "byte list \<Rightarrow> nat \<Rightarrow> bool" where
  "data_bit data p = bit (data ! (p div 8)) (7 - p mod 8)"

lemma data_bit_at: "m \<le> 7 \<Longrightarrow> data_bit data (8 * i + m) = bit (data ! i) (7 - m)"
  by (simp add: data_bit_def)

lemma field_mask: "n \<le> 8 \<Longrightarrow> bit (drop_bit (8 - n) (0xff :: byte)) j \<longleftrightarrow> j < n"
proof -
  assume n: "n \<le> 8"
  have m: "(0xff :: byte) = mask 8" by (simp add: mask_eq_exp_minus_1)
  have "bit (drop_bit (8 - n) (0xff :: byte)) j \<longleftrightarrow> 8 - n + j < 8" unfolding m bit_drop_bit_eq bit_mask_iff o_def by simp
  with n show ?thesis by auto
qed

text \<open>\<open>get_n_bits_at\<close> reads a field that may straddle two octets.\<close>

lemma get_n_bits_at_field:
  assumes "1 \<le> n" "n \<le> 8" "b + n \<le> 8 * length data"
  shows "\<exists>r. get_n_bits_at data n b = Some r \<and> (\<forall>j. bit r j \<longleftrightarrow> j < n \<and> data_bit data (b + n - 1 - j))"
proof -
  define i where "i = b div 8"
  define rm where "rm = 8 - b mod 8"
  have b: "b = 8 * i + (8 - rm)" "1 \<le> rm" "rm \<le> 8" by (simp_all add: i_def rm_def)
  have i: "i < length data" using b assms by linarith
  show ?thesis
  proof (cases "rm < n")
    case True
    then have i1: "i + 1 < length data" using b assms by linarith
    define r where "r = (push_bit (n - rm) (data ! i) OR drop_bit (8 - n + rm) (data ! (i + 1))) AND drop_bit (8 - n) 0xff"
    have "get_n_bits_at data n b = Some r"
      using assms i i1 True by (simp add: get_n_bits_at_def Let_def byte_at_def r_def flip: i_def rm_def)
    moreover have "bit r j \<longleftrightarrow> j < n \<and> data_bit data (b + n - 1 - j)" for j
    proof (cases "j < n")
      case jn: True
      show ?thesis
      proof (cases "n - rm \<le> j")
        case True
        define k where "k = j - (n - rm)"
        have p: "b + n - 1 - j = 8 * i + (7 - k)" "k \<le> 7" using b True \<open>rm < n\<close> jn assms by (simp_all add: k_def)
        have "8 - n + rm + j = 8 + k" using True \<open>rm < n\<close> jn assms by (simp add: k_def)
        then have "\<not> bit (drop_bit (8 - n + rm) (data ! (i + 1))) j"
          unfolding bit_drop_bit_eq o_def by (auto dest: bit_imp_le_length)
        moreover have "data_bit data (b + n - 1 - j) = bit (data ! i) k" unfolding p(1) using p(2) by (subst data_bit_at) simp_all
        ultimately show ?thesis using True jn assms
          by (simp add: r_def bit_and_iff bit_or_iff field_mask bit_push_bit_iff flip: k_def)
      next
        case False
        define k where "k = n - rm - 1 - j"
        have p: "b + n - 1 - j = 8 * (i + 1) + k" "k \<le> 7" using b False jn assms by (simp_all add: k_def)
        have "8 - n + rm + j = 7 - k" using False jn assms by (simp add: k_def)
        moreover have "data_bit data (b + n - 1 - j) = bit (data ! (i + 1)) (7 - k)" unfolding p(1) using p(2) by (rule data_bit_at)
        ultimately show ?thesis
          unfolding r_def bit_and_iff bit_or_iff field_mask [OF assms(2)] bit_push_bit_iff using False jn
          by (simp add: bit_drop_bit_eq)
      qed
    qed (use assms in \<open>simp add: r_def bit_and_iff field_mask\<close>)
    ultimately show ?thesis by blast
  next
    case False
    define r where "r = drop_bit (rm - n) (data ! i) AND drop_bit (8 - n) 0xff"
    have "get_n_bits_at data n b = Some r"
      using assms i False by (simp add: get_n_bits_at_def Let_def byte_at_def r_def flip: i_def rm_def)
    moreover have "bit r j \<longleftrightarrow> j < n \<and> data_bit data (b + n - 1 - j)" for j
    proof (cases "j < n")
      case True
      have p: "b + n - 1 - j = 8 * i + (7 - (rm - n + j))" "rm - n + j \<le> 7" using b True False assms by simp_all
      have "data_bit data (b + n - 1 - j) = bit (data ! i) (rm - n + j)"
        unfolding p(1) using p(2) by (subst data_bit_at) simp_all
      then show ?thesis unfolding r_def bit_and_iff field_mask [OF assms(2)] using True by (simp add: bit_drop_bit_eq)
    qed (use assms in \<open>simp add: r_def bit_and_iff field_mask\<close>)
    ultimately show ?thesis by blast
  qed
qed

section \<open>Counting Speex samples\<close>

lemma get_n_bits_at_defined:
  assumes "b + n \<le> 8 * length data"
  shows "\<exists>r. get_n_bits_at data n b = Some r"
proof (cases "1 \<le> n \<and> n \<le> 8")
  case True
  then show ?thesis using get_n_bits_at_field [of n b data] assms by blast
next
  case False
  then show ?thesis by (auto simp: get_n_bits_at_def Let_def)
qed

lemma wb_size_defined:
  assumes "len \<le> length data"
  obtains r where "speex_get_wb_sz_at data len b = Some r"
proof -
  have w: "speex_wb_at data len off \<noteq> None" for off
    using assms get_n_bits_at_defined [of off 1 data] by (auto simp: speex_wb_at_def)
  have n: "speex_wb_next data off \<noteq> None" if "speex_wb_at data len off = Some True" for off
    using assms that get_n_bits_at_defined [of "off + 1" 3 data]
    by (auto simp: speex_wb_at_def speex_wb_next_def split: if_splits)
  have step: "\<exists>w. speex_wb_at data len off = Some w \<and> (w \<longrightarrow> (\<exists>off'. speex_wb_next data off = Some off'))" for off
    using w [of off] n [of off] by auto
  obtain w1 where 1: "speex_wb_at data len b = Some w1" "w1 \<longrightarrow> (\<exists>off'. speex_wb_next data b = Some off')"
    using step [of b] by blast
  show ?thesis
  proof (cases w1)
    case True
    then obtain off1 where o1: "speex_wb_next data b = Some off1" using 1 by blast
    obtain w2 where 2: "speex_wb_at data len off1 = Some w2" "w2 \<longrightarrow> (\<exists>off'. speex_wb_next data off1 = Some off')"
      using step [of off1] by blast
    show ?thesis
    proof (cases w2)
      case t2: True
      then obtain off2 where o2: "speex_wb_next data off1 = Some off2" using 2 by blast
      obtain w3 where "speex_wb_at data len off2 = Some w3" using step [of off2] by blast
      with 1 2 o1 o2 True t2 show ?thesis by (intro that) (simp add: speex_get_wb_sz_at_def)
    qed (use 1 2 o1 True in \<open>auto intro!: that simp: speex_get_wb_sz_at_def\<close>)
  qed (use 1 in \<open>auto intro!: that simp: speex_get_wb_sz_at_def\<close>)
qed

text \<open>The walk reads at most one octet behind the frame.\<close>

lemma speex_samples_from_defined:
  "Suc len \<le> length data \<Longrightarrow> \<exists>r. speex_samples_from data len b cnt = Some r"
proof (induction data len b cnt rule: speex_samples_from.induct)
  case (1 data len b cnt)
  show ?case
  proof (cases "b + 5 \<le> len * 8")
    case True
    obtain off where off: "speex_get_wb_sz_at data len b = Some off" using "1.prems" by (auto intro: wb_size_defined [of len data b])
    show ?thesis
    proof (cases off)
      case None
      with True off show ?thesis by (subst speex_samples_from.simps) simp
    next
      case (Some n)
      show ?thesis
      proof (cases "len * 8 < b + n + 5")
        case False
        have "b + n + 5 \<le> 8 * length data" using False "1.prems" by linarith
        then obtain c where c: "get_n_bits_at data 5 (b + n) = Some c" using get_n_bits_at_defined [of "b + n" 5 data] by auto
        have l: "b + n + 5 + 5 \<le> 8 * length data" "b + n + 5 + 4 \<le> 8 * length data" using False "1.prems" by linarith+
        obtain d4 d5 where "get_n_bits_at data 4 (b + n + 5) = Some d4" "get_n_bits_at data 5 (b + n + 5) = Some d5"
          using get_n_bits_at_defined [OF l(1)] get_n_bits_at_defined [OF l(2)] by auto
        then obtain sk where sk: "speex_skip data (b + n + 5) (unat c) = Some sk" by (fastforce simp: speex_skip_def)
        show ?thesis
        proof (cases sk)
          case None
          with True off Some False c sk show ?thesis by (subst speex_samples_from.simps) simp
        next
          case s: (Some p)
          obtain b' k where p: "p = (b', k)" by (cases p)
          have "\<exists>r. speex_samples_from data len b' (cnt + k) = Some r"
            by (rule "1.IH" [OF True off Some False c sk s p [symmetric] "1.prems"])
          with True off Some False c sk s p show ?thesis by (subst speex_samples_from.simps) simp
        qed
      qed (use True off Some in \<open>subst speex_samples_from.simps, simp\<close>)
    qed
  qed (subst speex_samples_from.simps, simp)
qed

lemma speex_samples_reads: "Suc len \<le> length data \<Longrightarrow> \<exists>r. speex_samples data len = Some r"
  by (simp add: speex_samples_def speex_samples_from_defined)

text \<open>
  It does read that octet: in a frame of the single octet 0x70, which announces in-band signalling, the signal's number
  lies partly behind the frame.
\<close>

lemma speex_inband_overrun: "speex_samples [0x70] 1 = None"
proof -
  have "speex_get_wb_sz_at [0x70] 1 0 = Some (Some 0)"
    by (simp add: speex_get_wb_sz_at_def speex_wb_at_def get_n_bits_at_def byte_at_def Let_def drop_bit_eq_div take_bit_eq_mod
        flip: take_bit_eq_mask)
  moreover have "get_n_bits_at [0x70] 5 0 = Some 14"
    by (simp add: get_n_bits_at_def byte_at_def Let_def drop_bit_eq_div)
  moreover have "speex_skip [0x70] 5 14 = None"
    by (simp add: speex_skip_def get_n_bits_at_def byte_at_def Let_def)
  ultimately show ?thesis unfolding speex_samples_def by (subst speex_samples_from.simps) simp
qed

section \<open>Changing samples\<close>

lemma get_short_defined: "2 * i + 1 < length d \<Longrightarrow> \<exists>x. get_short d i = Some x"
  by (simp add: get_short_def byte_at_def)

lemma get_put_short_other: "i \<noteq> j \<Longrightarrow> get_short (put_short d i v) j = get_short d j"
  by (auto simp: get_short_def put_short_def byte_at_def nth_list_update)

lemma get_put_short:
  assumes "2 * i + 1 < length d"
  shows "get_short (put_short d i v) i = Some (to_short v)"
proof -
  have "uint (word_of_int v :: byte) + 256 * uint (word_of_int (v div 256) :: byte) = v mod 65536"
  proof -
    have "v mod 65536 = v mod 256 + 256 * (v div 256 mod 256)" using mod_mult2_eq' [of v 256 256] zmod_zmult2_eq [of 256 v 256] by simp
    then show ?thesis by (simp add: uint_word_of_int_eq take_bit_eq_mod)
  qed
  moreover have "to_short (v mod 65536) = to_short v"
    using signed_take_bit_take_bit [of 15 16 v] by (simp add: to_short_def take_bit_eq_mod)
  ultimately show ?thesis using assms by (simp add: get_short_def put_short_def byte_at_def nth_list_update)
qed

lemma put_short_length [simp]: "length (put_short d i v) = length d"
  by (simp add: put_short_def)

text \<open>The loop changes every sample by its function and leaves the others alone.\<close>

lemma change_shorts_pointwise:
  assumes "2 * (i + n) \<le> length d" "\<And>j x. i \<le> j \<Longrightarrow> j < i + n \<Longrightarrow> get_short d j = Some x \<Longrightarrow> g j x \<noteq> None"
  shows "\<exists>d'. change_shorts g i n d = Some d' \<and> length d' = length d \<and>
    (\<forall>j. get_short d' j = (if i \<le> j \<and> j < i + n then map_option to_short (Option.bind (get_short d j) (g j)) else get_short d j))"
  using assms
proof (induction n arbitrary: i d)
  case (Suc n)
  obtain x where x: "get_short d i = Some x" using get_short_defined [of i d] Suc.prems(1) by auto
  obtain v where v: "g i x = Some v" using Suc.prems(2) [of i x] x by auto
  have "g j y \<noteq> None" if "i + 1 \<le> j" "j < i + 1 + n" "get_short (put_short d i v) j = Some y" for j y
    using Suc.prems(2) [of j y] that get_put_short_other [of i j d v] by simp
  with Suc.IH [of "i + 1" "put_short d i v"] Suc.prems(1) obtain d' where d': "change_shorts g (i + 1) n (put_short d i v) = Some d'"
    "length d' = length d" "\<And>j. get_short d' j = (if i + 1 \<le> j \<and> j < i + 1 + n
      then map_option to_short (Option.bind (get_short (put_short d i v) j) (g j)) else get_short (put_short d i v) j)"
    by auto
  have "get_short d' j = (if i \<le> j \<and> j < i + Suc n then map_option to_short (Option.bind (get_short d j) (g j)) else get_short d j)" for j
  proof (cases "j = i")
    case True
    then show ?thesis using d'(3) [of i] get_put_short [of i d v] Suc.prems(1) x v by simp
  next
    case False
    then show ?thesis using d'(3) [of j] get_put_short_other [of i j d v] by auto
  qed
  then show ?case using x v d'(1,2) by auto
qed auto

lemma saturate_clamps: "saturate v = max (- 32767) (min 32767 v)"
  by (auto simp: saturate_def to_short_id)

lemma to_short_saturate [simp]: "to_short (saturate v) = saturate v"
  by (rule to_short_id) (simp_all add: saturate_clamps)

text \<open>
  Raising the volume multiplies every sample and clamps it; the sum of two frames is the clamped sum of their samples.
\<close>

lemma adjust_volume_up:
  assumes "voice_slinear f" "f_data f = Some d" "2 * nat (f_samples f) \<le> length d" "1 \<le> a" "a \<le> 32767"
  shows "\<exists>d'. ast_frame_adjust_volume f a = Some (f\<lparr> f_data := Some d' \<rparr>, 0) \<and> length d' = length d \<and>
    (\<forall>j < nat (f_samples f). get_short d' j = map_option (\<lambda>x. max (- 32767) (min 32767 (x * a))) (get_short d j))"
proof -
  have a: "to_short a = a" using assms(4,5) by (simp add: to_short_id)
  obtain d' where d': "change_shorts (\<lambda>i x. Some (ast_slinear_saturated_multiply x a)) 0 (nat (f_samples f)) d = Some d'"
    "length d' = length d" "\<And>j. get_short d' j = (if 0 \<le> j \<and> j < 0 + nat (f_samples f)
      then map_option to_short (Option.bind (get_short d j) (\<lambda>x. Some (ast_slinear_saturated_multiply x a))) else get_short d j)"
    using change_shorts_pointwise [of 0 "nat (f_samples f)" d "\<lambda>i x. Some (ast_slinear_saturated_multiply x a)"] assms(3)
    by auto
  have "get_short d' j = map_option (\<lambda>x. max (- 32767) (min 32767 (x * a))) (get_short d j)" if "j < nat (f_samples f)" for j
    using d'(3) [of j] that
    by (cases "get_short d j") (simp_all add: ast_slinear_saturated_multiply_def saturate_clamps [symmetric])
  then show ?thesis
    using assms(1,2,4) d'(1,2) by (intro exI [of _ d']) (simp add: ast_frame_adjust_volume_def a frame_memory_def Let_def)
qed

lemma slinear_sum:
  assumes "voice_slinear f" "voice_slinear g" "f_samples f = f_samples g" "f_data f = Some d" "f_data g = Some e"
    "2 * nat (f_samples f) \<le> length d" "2 * nat (f_samples g) \<le> length e"
  shows "\<exists>d'. ast_frame_slinear_sum f g = Some (f\<lparr> f_data := Some d' \<rparr>, 0) \<and> length d' = length d \<and>
    (\<forall>j < nat (f_samples f). \<exists>x y. get_short d j = Some x \<and> get_short e j = Some y \<and>
      get_short d' j = Some (max (- 32767) (min 32767 (x + y))))"
proof -
  let ?g = "\<lambda>i x. map_option (ast_slinear_saturated_add x) (get_short e i)"
  have e: "\<exists>y. get_short e j = Some y" if "j < nat (f_samples f)" for j
    using that assms(3,7) by (intro get_short_defined) linarith
  have dd: "\<exists>y. get_short d j = Some y" if "j < nat (f_samples f)" for j
    using that assms(6) by (intro get_short_defined) linarith
  have "?g j x \<noteq> None" if "j < 0 + nat (f_samples f)" for j x using e [of j] that by auto
  then obtain d' where d': "change_shorts ?g 0 (nat (f_samples f)) d = Some d'"
    "length d' = length d" "\<And>j. get_short d' j = (if 0 \<le> j \<and> j < 0 + nat (f_samples f)
      then map_option to_short (Option.bind (get_short d j) (?g j)) else get_short d j)"
    using change_shorts_pointwise [of 0 "nat (f_samples f)" d ?g] assms(6) by auto
  have "\<exists>x y. get_short d j = Some x \<and> get_short e j = Some y \<and> get_short d' j = Some (max (- 32767) (min 32767 (x + y)))"
    if j: "j < nat (f_samples f)" for j
  proof -
    obtain x y where xy: "get_short d j = Some x" "get_short e j = Some y" using e [OF j] dd [OF j] by blast
    then have "get_short d' j = Some (to_short (saturate (x + y)))"
      using d'(3) [of j] j by (simp add: ast_slinear_saturated_add_def)
    with xy show ?thesis by (auto simp: saturate_clamps [symmetric])
  qed
  then show ?thesis
    using assms(1-5) d'(1,2) by (intro exI [of _ d']) (simp add: ast_frame_slinear_sum_def frame_memory_def)
qed

text \<open>The factor is cut to 16 bits: lowering the volume by 65536 divides by zero.\<close>

lemma adjust_volume_divides_by_zero:
  assumes "voice_slinear f" "0 < f_samples f"
  shows "ast_frame_adjust_volume f (- 65536) = None"
proof -
  have "to_short 65536 = 0" by (simp add: to_short_def)
  moreover obtain n where "nat (f_samples f) = Suc n" using assms(2) gr0_implies_Suc [of "nat (f_samples f)"] by auto
  ultimately show ?thesis
    using assms(1) by (cases "get_short (frame_memory f) 0")
      (simp_all add: ast_frame_adjust_volume_def ast_slinear_saturated_divide_def Let_def)
qed

end
