(* ===== verification/Format_Text.thy ===== *)
theory Format_Text
  imports Formats
begin

text \<open>
  Texts of formats, \<open>main/frame.c\<close>: sets of formats and preference lists printed into buffers, and the letters in which a
  preference list travels between peers. A buffer is the string it holds; \<open>None\<close> is an access outside an array.
\<close>

section \<open>Operations\<close>

definition ast_get_format_list :: "ast_format_list list \<times> nat" where
  "ast_get_format_list = (AST_FORMAT_LIST, length AST_FORMAT_LIST)"

fun hex :: "nat \<Rightarrow> string" where
  "hex n =
     (let digit = (\<lambda>d. char_of (if d < 10 then 48 + d else 87 + d)) in
      if n < 16 then [digit n] else hex (n div 16) @ [digit (n mod 16)])"

declare hex.simps [simp del]

text \<open>What \<open>snprintf\<close> leaves of a text in a buffer of \<open>n\<close> octets.\<close>

definition fitting :: "nat \<Rightarrow> string \<Rightarrow> string" where
  "fitting n s = take (n - 1) s"

text \<open>The names of a set, each followed by a bar: the text and the octets left.\<close>

fun add_names :: "int \<Rightarrow> ast_format_list list \<Rightarrow> string \<times> nat \<Rightarrow> string \<times> nat" where
  "add_names format [] acc = acc"
| "add_names format (e # es) (buf, n) =
     (if fl_visible e \<and> fl_bits e AND format \<noteq> 0
      then let t = fitting n (fl_name e @ ''|'') in add_names format es (buf @ t, n - length t)
      else add_names format es (buf, n))"

definition ast_getformatname_multiple :: "nat \<Rightarrow> int \<Rightarrow> string" where
  "ast_getformatname_multiple n format =
     (if n = 0 then []
      else
        let head = fitting n (''0x'' @ hex (nat (format mod 2 ^ 32)) @ '' ('') in
        case add_names format AST_FORMAT_LIST ([], n - length head) of
          (names, left) \<Rightarrow>
            head @ (if names = [] then fitting left ''nothing)'' else if left > 1 then butlast names @ '')'' else names))"

text \<open>The loop of \<open>ast_codec_pref_convert\<close>: \<open>shift\<close> is added to every entry up to the first that is zero.\<close>

fun convert_loop :: "int \<Rightarrow> int list \<Rightarrow> nat \<Rightarrow> nat \<Rightarrow> int list \<Rightarrow> int list option" where
  "convert_loop shift from x 0 to = Some to"
| "convert_loop shift from x (Suc n) to =
     (if x \<ge> length from then None
      else if from ! x = 0 then Some to
      else if x \<ge> length to then None
      else convert_loop shift from (x + 1) n (to[x := signed_take_bit 7 (from ! x + shift)]))"

text \<open>To the letters of a buffer of \<open>n\<close> octets, and back from them.\<close>

definition ast_codec_pref_convert_right :: "ast_codec_pref \<Rightarrow> nat \<Rightarrow> int list option" where
  "ast_codec_pref_convert_right pref n = convert_loop 65 (pref_order pref) 0 32 (replicate n 0)"

definition ast_codec_pref_convert_left :: "ast_codec_pref \<Rightarrow> int list \<Rightarrow> ast_codec_pref option" where
  "ast_codec_pref_convert_left pref buf =
     map_option (\<lambda>to. pref\<lparr> pref_order := to \<rparr>) (convert_loop (- 65) buf 0 32 (replicate 32 0))"

text \<open>One round of \<open>ast_codec_pref_string\<close>: the buffer, the count of free octets, and whether the loop goes on.\<close>

definition pref_name_step :: "ast_codec_pref \<Rightarrow> nat \<Rightarrow> string \<Rightarrow> nat \<Rightarrow> (string \<times> nat \<times> bool) option" where
  "pref_name_step pref x buf total_len =
     (if total_len = 0 then Some (buf, total_len, False)
      else
        do { codec \<leftarrow> ast_codec_pref_index pref (int x);
             if codec = 0 then Some (buf, total_len, False)
             else
               let formatname = ast_getformatname codec in
               if length formatname > total_len then Some (buf, total_len, False)
               else
                 let buf' = buf @ take (total_len - 1) formatname; left = total_len - length formatname in
                 if left \<noteq> 0 \<and> x < 31 then
                   do { codec' \<leftarrow> ast_codec_pref_index pref (int x + 1);
                        Some (if codec' \<noteq> 0 then (buf' @ take (left - 1) ''|'', left - 1, True) else (buf', left, True)) }
                 else Some (buf', left, True) })"

fun pref_names :: "ast_codec_pref \<Rightarrow> nat \<Rightarrow> nat \<Rightarrow> string \<Rightarrow> nat \<Rightarrow> (string \<times> nat) option" where
  "pref_names pref x 0 buf total_len = Some (buf, total_len)"
| "pref_names pref x (Suc n) buf total_len =
     do { (buf', left, again) \<leftarrow> pref_name_step pref x buf total_len;
          if again then pref_names pref (x + 1) n buf' left else Some (buf', left) }"

text \<open>The text and the return value; a buffer without space is overrun.\<close>

definition ast_codec_pref_string :: "ast_codec_pref \<Rightarrow> nat \<Rightarrow> (string \<times> nat) option" where
  "ast_codec_pref_string pref n =
     (if n = 0 then None
      else
        do { (buf, total_len) \<leftarrow> pref_names pref 0 32 ''('' (n - 1);
             Some (if total_len \<noteq> 0 then (buf @ take (total_len - 1) '')'', n - (total_len - 1)) else (buf, n - total_len)) })"

section \<open>Buffers are kept\<close>

text \<open>
  \<open>buf\<close> holds what was written; with \<open>left\<close> octets still counted as free it stays shorter than the buffer.
\<close>

lemma pref_name_step_fits:
  assumes "pref_name_step pref x buf left = Some (buf', left', again)" "length buf < sz" "length buf + left \<le> sz"
  shows "length buf' < sz \<and> length buf' + left' \<le> sz"
  using assms by (auto simp: pref_name_step_def Let_def min_def neq_Nil_conv split: bind_splits if_splits)

lemma pref_names_fits:
  assumes "pref_names pref x n buf left = Some (buf', left')" "length buf < sz" "length buf + left \<le> sz"
  shows "length buf' < sz \<and> length buf' + left' \<le> sz"
  using assms
proof (induction n arbitrary: x buf left)
  case (Suc n)
  obtain b l again where s: "pref_name_step pref x buf left = Some (b, l, again)" using Suc.prems(1) by (auto split: bind_splits)
  show ?case using pref_name_step_fits [OF s Suc.prems(2,3)] Suc.IH [of "x + 1" b l] Suc.prems(1) s by (cases again) auto
qed simp

text \<open>The text always fits into the buffer, with the null character that ends it.\<close>

lemma ast_codec_pref_string_fits:
  assumes "ast_codec_pref_string pref n = Some (buf, r)" "1 < n"
  shows "length buf < n"
proof -
  obtain b l where p: "pref_names pref 0 32 ''('' (n - 1) = Some (b, l)"
    using assms by (auto simp: ast_codec_pref_string_def split: bind_splits)
  have "length b < n \<and> length b + l \<le> n" by (rule pref_names_fits [OF p]) (use assms(2) in simp_all)
  then show ?thesis using assms p by (auto simp: ast_codec_pref_string_def min_def split: if_splits)
qed

lemma add_names_fits: "add_names format es (buf, n) = (buf', n') \<Longrightarrow> 0 < n \<Longrightarrow> 0 < n' \<and> length buf' + n' = length buf + n"
proof (induction es arbitrary: buf n)
  case (Cons e es)
  show ?case
  proof (cases "fl_visible e \<and> fl_bits e AND format \<noteq> 0")
    case True
    define t where "t = fitting n (fl_name e @ ''|'')"
    have t: "length t < n" using Cons.prems(2) by (simp add: t_def fitting_def)
    have "add_names format es (buf @ t, n - length t) = (buf', n')" using Cons.prems(1) True by (simp add: t_def Let_def)
    with t show ?thesis using Cons.IH [of "buf @ t" "n - length t"] by simp
  qed (use Cons in \<open>auto split: if_splits\<close>)
qed simp

lemma ast_getformatname_multiple_fits: "0 < n \<Longrightarrow> length (ast_getformatname_multiple n format) < n"
proof -
  assume n: "0 < n"
  define head where "head = fitting n (''0x'' @ hex (nat (format mod 2 ^ 32)) @ '' ('')"
  have h: "length head < n" using n by (simp add: head_def fitting_def)
  obtain names left where a: "add_names format AST_FORMAT_LIST ([], n - length head) = (names, left)"
    by (cases "add_names format AST_FORMAT_LIST ([], n - length head)")
  have "0 < left" "length names + left = n - length head" using add_names_fits [OF a] h by simp_all
  moreover have "ast_getformatname_multiple n format =
      head @ (if names = [] then fitting left ''nothing)'' else if left > 1 then butlast names @ '')'' else names)"
    unfolding ast_getformatname_multiple_def Let_def head_def [symmetric] a prod.case using n by simp
  moreover have "length (butlast names @ '')'') \<le> length names" if "names \<noteq> []" using that by (cases names) simp_all
  ultimately show ?thesis using h by (auto simp: fitting_def min_def)
qed

section \<open>The text of a preference list\<close>

fun bar_list :: "string list \<Rightarrow> string" where
  "bar_list [] = []"
| "bar_list [s] = s"
| "bar_list (s # t # ss) = s @ ''|'' @ bar_list (t # ss)"

lemma pref_index_rep:
  assumes "pref_list_ok fs"
  shows "ast_codec_pref_index (pref_rep fs) (int x) = Some (if x < length fs then fst (fs ! x) else 0)"
proof -
  have l: "length fs \<le> 28" by (rule pref_list_length [OF assms])
  have known: "x < length fs \<Longrightarrow> known (fst (fs ! x))" using assms nth_mem [of x fs] by (auto simp: pref_list_ok_def)
  have "x < 32 \<Longrightarrow> pref_order (pref_rep fs) ! x = (if x < length fs then fmt_slot (fst (fs ! x)) else 0)"
    using l by (simp add: pref_rep_order [OF assms] nth_append split_beta)
  then show ?thesis
    using l known by (auto simp: ast_codec_pref_index_def Let_def fmt_slot_nonzero)
qed

lemma pref_names_text:
  assumes "pref_list_ok fs" "\<forall>f\<in>set fs. fst f \<noteq> 0" "x + length rest = length fs" "rest = drop x fs"
    "length (bar_list (map (\<lambda>f. ast_getformatname (fst f)) rest)) < left" "32 \<le> n + x"
  shows "pref_names (pref_rep fs) x n buf left =
    Some (buf @ bar_list (map (\<lambda>f. ast_getformatname (fst f)) rest), left - length (bar_list (map (\<lambda>f. ast_getformatname (fst f)) rest)))"
  using assms(3-)
proof (induction rest arbitrary: x n buf left)
  case Nil
  have "length fs \<le> 28" by (rule pref_list_length [OF assms(1)])
  then obtain k where "n = Suc k" using Nil by (cases n) auto
  then show ?case using Nil pref_index_rep [OF assms(1), of x] by (simp add: pref_name_step_def)
next
  case (Cons f rest)
  have "length fs \<le> 28" by (rule pref_list_length [OF assms(1)])
  moreover have "x < length fs" using Cons.prems(1) by simp
  ultimately obtain k where n: "n = Suc k" "x < 28" using Cons.prems(4) by (cases n) simp_all
  have f: "x < length fs" using Cons.prems(1) by simp
  then have "f # rest = fs ! x # drop (x + 1) fs" using Cons.prems(2) by (simp add: Cons_nth_drop_Suc)
  with f have f: "fs ! x = f" "x < length fs" "drop (x + 1) fs = rest" by simp_all
  let ?name = "ast_getformatname (fst f)"
  have nz: "fst f \<noteq> 0" using assms(2) nth_mem [OF f(2)] f(1) by blast
  have i: "ast_codec_pref_index (pref_rep fs) (int x) = Some (fst f)" using pref_index_rep [OF assms(1), of x] f by simp
  show ?case
  proof (cases rest)
    case Nil
    have "ast_codec_pref_index (pref_rep fs) (int x + 1) = Some 0"
      using pref_index_rep [OF assms(1), of "x + 1"] Cons.prems(1) Nil by (simp add: add.commute)
    then have "pref_name_step (pref_rep fs) x buf left = Some (buf @ ?name, left - length ?name, True)"
      using i nz n Nil Cons.prems(3) by (simp add: pref_name_step_def Let_def)
    moreover have "pref_names (pref_rep fs) (x + 1) k (buf @ ?name) (left - length ?name) = Some (buf @ ?name, left - length ?name)"
      using Cons.IH [of "x + 1" "left - length ?name" k "buf @ ?name"] Cons.prems(1,3,4) f(3) n(1) Nil by simp
    ultimately show ?thesis using n Nil by simp
  next
    case c: (Cons g rest')
    have "x + 1 < length fs" using Cons.prems(1) c by simp
    then have g: "fs ! (x + 1) = g" "x + 1 < length fs" using nth_via_drop [of "x + 1" fs] f(3) c by simp_all
    have "fst g \<noteq> 0" using assms(2) nth_mem [OF g(2)] g(1) by blast
    moreover have "ast_codec_pref_index (pref_rep fs) (int x + 1) = Some (fst g)"
      using pref_index_rep [OF assms(1), of "x + 1"] g by (simp add: add.commute)
    ultimately have "pref_name_step (pref_rep fs) x buf left = Some (buf @ ?name @ ''|'', left - length ?name - 1, True)"
      using i nz n c Cons.prems(3) by (simp add: pref_name_step_def Let_def)
    moreover have "pref_names (pref_rep fs) (x + 1) k (buf @ ?name @ ''|'') (left - length ?name - 1) =
        Some ((buf @ ?name @ ''|'') @ bar_list (map (\<lambda>f. ast_getformatname (fst f)) rest),
          left - length ?name - 1 - length (bar_list (map (\<lambda>f. ast_getformatname (fst f)) rest)))"
      by (rule Cons.IH) (use Cons.prems(1,3,4) f(3) n(1) c in simp_all)
    ultimately show ?thesis using n c by simp
  qed
qed

text \<open>
  If the buffer is large enough, the text of a preference list is the list of the names of its formats in parentheses, and
  the return value its length.
\<close>

lemma ast_codec_pref_string_text:
  assumes "pref_list_ok fs" "\<forall>f\<in>set fs. fst f \<noteq> 0" "text = ''('' @ bar_list (map (\<lambda>f. ast_getformatname (fst f)) fs) @ '')''" "length text < n"
  shows "ast_codec_pref_string (pref_rep fs) n = Some (text, length text)"
proof -
  have "pref_names (pref_rep fs) 0 32 ''('' (n - 1) =
      Some (''('' @ bar_list (map (\<lambda>f. ast_getformatname (fst f)) fs), n - 1 - length (bar_list (map (\<lambda>f. ast_getformatname (fst f)) fs)))"
    by (rule pref_names_text [OF assms(1,2)]) (use assms(3,4) in simp_all)
  then show ?thesis using assms(3,4) by (simp add: ast_codec_pref_string_def)
qed

section \<open>Preference lists as letters\<close>

lemma convert_loop_entries:
  assumes "\<forall>s\<in>set ss. s \<noteq> 0" "length ss < n" "length ss \<le> length ts" "length pre = length tpre"
  shows "convert_loop shift (pre @ ss @ 0 # post) (length pre) n (tpre @ ts) =
    Some (tpre @ map (\<lambda>s. signed_take_bit 7 (s + shift)) ss @ drop (length ss) ts)"
  using assms
proof (induction ss arbitrary: n pre tpre ts)
  case Nil
  then show ?case by (cases n) (simp_all add: nth_append)
next
  case (Cons s ss)
  obtain k t ts' where n: "n = Suc k" "ts = t # ts'" using Cons.prems(2,3) by (cases n; cases ts) simp_all
  let ?s = "signed_take_bit 7 (s + shift)"
  have "convert_loop shift ((pre @ [s]) @ ss @ 0 # post) (length (pre @ [s])) k ((tpre @ [?s]) @ ts') =
      Some ((tpre @ [?s]) @ map (\<lambda>s. signed_take_bit 7 (s + shift)) ss @ drop (length ss) ts')"
    by (rule Cons.IH) (use Cons.prems n in simp_all)
  moreover have "(tpre @ t # ts')[length pre := ?s] = tpre @ ?s # ts'" using Cons.prems(4) by simp
  ultimately show ?case using Cons.prems n by (simp add: nth_append)
qed

lemma slot_letter:
  assumes "known f"
  shows "signed_take_bit 7 (fmt_slot f + 65) = fmt_slot f + 65" "signed_take_bit 7 (fmt_slot f) = fmt_slot f"
  using fmt_slot_range [OF assms] by (simp_all add: signed_take_bit_int_eq_self)

text \<open>
  A preference list sent as letters is read back by the peer, whatever list the peer had: the order comes back; the
  framings are those the peer had.
\<close>

lemma convert_round_trip:
  assumes "pref_list_ok fs" "length fs < n"
  shows "\<exists>letters. ast_codec_pref_convert_right (pref_rep fs) n = Some letters \<and> length letters = n \<and>
    letters ! length fs = 0 \<and> (\<forall>x<length fs. letters ! x = fmt_slot (fst (fs ! x)) + 65) \<and>
    ast_codec_pref_convert_left pref letters = Some (pref\<lparr> pref_order := pref_order (pref_rep fs) \<rparr>)"
proof -
  have l: "length fs \<le> 28" by (rule pref_list_length [OF assms(1)])
  have known: "known (fst f)" if "f \<in> set fs" for f using assms(1) that by (auto simp: pref_list_ok_def)
  let ?ss = "map (\<lambda>f. fmt_slot (fst f)) fs"
  let ?letters = "map (\<lambda>f. fmt_slot (fst f) + 65) fs @ replicate (n - length fs) 0"
  have zeros: "replicate (m - length fs) 0 = (0::int) # replicate (m - length fs - 1) 0" if "length fs < m" for m
    using that by (cases "m - length fs") simp_all
  have order: "pref_order (pref_rep fs) = ?ss @ 0 # replicate (32 - length fs - 1) 0"
    using zeros [of 32] l by (simp add: pref_rep_order [OF assms(1)] split_beta)
  have pos: "0 < fmt_slot (fst f)" if "f \<in> set fs" for f using fmt_slot_range [OF known [OF that]] by simp
  have "convert_loop 65 ([] @ ?ss @ 0 # replicate (32 - length fs - 1) 0) (length ([]::int list)) 32 ([] @ replicate n 0) =
      Some ([] @ map (\<lambda>s. signed_take_bit 7 (s + 65)) ?ss @ drop (length ?ss) (replicate n 0))"
    by (rule convert_loop_entries) (use l assms(2) pos in force)+
  then have r: "ast_codec_pref_convert_right (pref_rep fs) n = Some ?letters"
    using known by (simp add: ast_codec_pref_convert_right_def order slot_letter o_def cong: map_cong)
  let ?ls = "map (\<lambda>f. fmt_slot (fst f) + 65) fs"
  have "convert_loop (- 65) ([] @ ?ls @ 0 # replicate (n - length fs - 1) 0) (length ([]::int list)) 32 ([] @ replicate 32 0) =
      Some ([] @ map (\<lambda>s. signed_take_bit 7 (s + - 65)) ?ls @ drop (length ?ls) (replicate 32 0))"
    by (rule convert_loop_entries) (use l pos in force)+
  then have "ast_codec_pref_convert_left pref ?letters = Some (pref\<lparr> pref_order := pref_order (pref_rep fs) \<rparr>)"
    using known zeros [OF assms(2)]
    by (simp add: ast_codec_pref_convert_left_def pref_rep_order [OF assms(1)] slot_letter o_def split_beta cong: map_cong)
  with r show ?thesis using assms(2) by (intro exI [of _ ?letters]) (simp add: nth_append)
qed

text \<open>
  A letter behind the last format is taken over too: \<open>'a'\<close> gives slot 32, and the list is then read outside the table.
\<close>

lemma convert_left_unchecked:
  "\<exists>q. ast_codec_pref_convert_left pref [97, 0] = Some q \<and> ast_codec_pref_index q 0 = None"
proof -
  have "convert_loop (- 65) ([] @ [97] @ 0 # []) (length ([]::int list)) 32 ([] @ replicate 32 0) =
      Some ([] @ map (\<lambda>s. signed_take_bit 7 (s + - 65)) [97] @ drop (length [97::int]) (replicate 32 0))"
    by (rule convert_loop_entries) simp_all
  then have "ast_codec_pref_convert_left pref [97, 0] = Some (pref\<lparr> pref_order := 32 # drop 1 (replicate 32 0) \<rparr>)"
    by (simp add: ast_codec_pref_convert_left_def signed_take_bit_int_eq_self)
  moreover have "slot_bits 32 = None" by code_simp
  ultimately show ?thesis by (simp add: ast_codec_pref_index_def)
qed

end
