(* ===== verification/Spec2Isabelle.thy ===== *)
theory Spec2Isabelle
  imports Jitterbuf Udptl_Fec Udptl_Session FixedJitterbuf Sched Translate Jb_Bridge Astobj2_Clients Astobj2_Iter
    Acl Ourip Srv Smoother Samples Format_Text
begin

text \<open>
  A verification of the media core and of the address and name services of Asterisk 1.4, as it is kept under
  \<open>src/asterisk-1.4/\<close> of the collection. File names below are relative to that directory.

  \<^bold>\<open>The program.\<close> Media travels in frames (\<open>main/frame.c\<close>). A frame received from the network waits in a jitter buffer
  (\<open>main/abstract_jb.c\<close> with \<open>main/fixedjitterbuf.c\<close> or \<open>main/jitterbuf.c\<close> behind it) until it is due, is converted between
  formats by a chain of translators (\<open>main/translate.c\<close>) and is written to the other channel of a bridge. Fax over IP
  has a transport of its own with redundancy and forward error correction (\<open>main/udptl.c\<close>). Everything that happens later is
  an event of a scheduler (\<open>main/sched.c\<close>) over times (\<open>include/asterisk/time.h\<close>, \<open>main/utils.c\<close>). Objects shared between threads are
  counted and kept in hash containers (\<open>main/astobj2.c\<close>). Peers are admitted by access rules and found by address, name or
  service record (\<open>main/acl.c\<close>, \<open>main/dns.c\<close>, \<open>main/srv.c\<close>).

  \<^bold>\<open>Conventions.\<close> A struct is a record, an enumeration a datatype, a list of list macros a list. \<open>long\<close> and \<open>int\<close> are integers, with
  the truncation written out where the code relies on it; octets, addresses and unsigned counters that wrap are words.
  An operation that could leave an array, follow a null or uninitialised pointer, fail an assertion or loop for ever has an
  option or sum result, and \<open>None\<close> (or the fault) stands for that. Answers of the operating system, of the allocator, of the
  clock and of libraries are arguments. Locks are left out: an operation that holds its lock throughout is one step.

  \<^bold>\<open>The theories\<close>, in the order of their imports:

  \<^item> \<open>Prelude\<close>: machine types, lemmas on lists and multisets, and the interfaces \<open>stable_insert\<close> (ordered insertion behind equal
    keys, implemented by both jitter buffers, the scheduler and the service records), \<open>strict_rank\<close> and \<open>run_invariant\<close>.
  \<^item> \<open>Clib\<close>, \<open>Inet\<close>: characters, numbers and addresses of the C library; \<open>ast_true\<close>, \<open>ast_false\<close>, \<open>ast_inet_ntoa\<close>. An address that is
    printed is read back.
  \<^item> \<open>Timeval\<close>, \<open>Sched\<close>: arithmetic of times; the scheduler's queue, its cache and the running of due events. The scheduler
    refines a map of pending events; running the queue ends and leaves nothing due.
  \<^item> \<open>Frame\<close>, \<open>Formats\<close>: duplicating, isolating and freeing of frames with the cache of headers of a thread, whose blocks
    are accounted for by address and size; format masks, codec preferences as arrays, which refine lists of distinct formats.
  \<^item> \<open>Smoother\<close>, \<open>Samples\<close>, \<open>Format_Text\<close>: smoothers, which hand out the octets they were fed in frames of one size, with the
    sample count rounded in single precision as the code does; the number of samples of a frame, volume and sums; texts
    and letters of format sets and preference lists, which stay inside their buffers and are read back.
  \<^item> \<open>Jitterbuf\<close>: the adaptive jitter buffer. Its queue stays in the order of time stamps over every run, its counters account
    for every frame, its estimate of delays is that of sorting the recent history, and its target stays within the limits.
  \<^item> \<open>FixedJitterbuf\<close>: the jitter buffer of constant size. Its mutually recursive insertions take fuel, and four calls are
    shown to be enough; frames that arrive in time are played once, in order, with a constant delay.
  \<^item> \<open>Abstract_Jb\<close>, \<open>Jb_Bridge\<close>: the layer over both, verified against the contract \<open>jb_contract\<close> that both implement: every frame
    duplicated on entry is freed once, and the bridge wakes up in time.
  \<^item> \<open>Translate\<close>: registration of translators, the cost matrix, the building of chains and the choice of formats. The
    relaxation loops have the fuel of one pass for every format; matrix entries are the costs of cheapest chains.
  \<^item> \<open>Udptl_Codec\<close>, \<open>Udptl\<close>, \<open>Udptl_Fec\<close>, \<open>Udptl_Session\<close>: octets of fax packets, the builder and the receiver with both schemes
    of recovery, sessions, ports and configuration. Walks around the ring of 16 slots have fuel 16. Redundancy and forward
    error correction repair the losses they are meant to, until the sequence numbers wrap; the receiver is shown safe for
    well-formed elements.
  \<^item> \<open>Astobj2\<close>, \<open>Astobj2_Search\<close>, \<open>Astobj2_Clients\<close>, \<open>Astobj2_Iter\<close>: reference counts, containers, searches and iterators. Clients that
    pass only what they own never touch a freed object and leave none behind; iterators miss nothing that stays.
  \<^item> \<open>Acl\<close>, \<open>Ourip\<close>: access rules, types of service; the own address. The last line that covers an address decides; the
    comparisons of printed digits are the numeric ranges they are meant to be.
  \<^item> \<open>Dns\<close>, \<open>Srv\<close>: the parser of answers, service records and look-ups. Encoded answers are parsed as they are meant and every
    answer is walked inside its bounds; the loop that draws entries by weight is a partial function, shown to end for fair
    draws; the look-up as a whole takes the first record.

  \<^bold>\<open>Not modelled.\<close> Of the modelled files: what is printed to the console or a log, the sockets of UDPTL sessions, and the
  conversion of samples inside a translator. The rest of Asterisk (channel drivers, dial plan, applications, RTP, files and
  configuration, signal processing in floating point), the other programs of the collection (CallWeaver, Kamailio,
  HylaFAX, the SCCP driver) and its articles and configuration are left out: they are threads over sockets, files and devices,
  generated code or wrappers of libraries, and share little with the core treated here.
\<close>

end
